(* ===== verification/Kave_Prelude.thy ===== *)
theory Kave_Prelude
  imports Main "HOL-Library.Word" "HOL-Library.List_Lexorder"
begin

text \<open>
  Shared vocabulary of the development: bytes and machine integers, the crate's error type
  (\<^verbatim>\<open>src/error.rs\<close>) and the result of a fallible call, the combinator that models the
  \<^verbatim>\<open>?\<close> operator under explicit state passing, and the conversions of the Rust standard library
  that the code relies on: big-endian integers, decimal printing and \<^verbatim>\<open>str::parse::<usize>\<close>,
  and UTF-8 validation.  A Rust \<^verbatim>\<open>String\<close> is the list of its UTF-8 bytes, so that its
  length and its ordering (bytewise lexicographic) are those of the list.
\<close>

section \<open>Bytes, strings, identifiers\<close>

type_synonym u8 = "8 word"
type_synonym u64 = "64 word"
type_synonym bytes = "u8 list"
type_synonym rstring = "u8 list"
type_synonym uuid = "128 word"
type_synonym path = "rstring list"

text \<open>The bytes of an ASCII literal.\<close>

definition bs :: "string \<Rightarrow> bytes" where
  "bs s = map of_char s"

abbreviation newline :: u8 where
  "newline \<equiv> 10"

abbreviation colon :: u8 where
  "colon \<equiv> 58"

lemma bs_append [simp]: "bs (s @ t) = bs s @ bs t"
  by (simp add: bs_def)

lemma length_bs [simp]: "length (bs s) = length s"
  by (simp add: bs_def)

text \<open>The text of a path, as \<^verbatim>\<open>Path::to_str\<close> shows it.\<close>

fun path_str :: "path \<Rightarrow> rstring" where
  "path_str [] = []"
| "path_str [c] = c"
| "path_str (c # cs) = c @ bs ''/'' @ path_str cs"

section \<open>Errors, results and the question-mark operator\<close>

text \<open>
  A text error is kept with the fixed part of its message; what the code appends to it (the
  description of an underlying error, a path or the offending text, for the log) is left out.
\<close>

datatype io_kind = NotFound | AlreadyExists | UnexpectedEof | OtherIO

datatype error =
    Err_E rstring
  | Err_IO io_kind
  | Err_ParseInt
  | Err_Bincode
  | Err_Timeout
  | Err_DnsResolve
  | Err_DnsResolutionFailure rstring

text \<open>
  A call returns a value, returns an error, or panics (a failed \<^verbatim>\<open>expect\<close>, \<^verbatim>\<open>unwrap\<close>,
  \<^verbatim>\<open>assert!\<close>, an arithmetic overflow, or a documented panic of the standard library).
\<close>

datatype 'a result = Ok 'a | Err error | Panic string

type_synonym ('s, 'a) action = "'s \<Rightarrow> 'a result \<times> 's"

definition sbind :: "('s, 'a) action \<Rightarrow> ('a \<Rightarrow> ('s, 'b) action) \<Rightarrow> ('s, 'b) action" where
  "sbind m f s =
     (case m s of
        (Ok a, s') \<Rightarrow> f a s'
      | (Err e, s') \<Rightarrow> (Err e, s')
      | (Panic p, s') \<Rightarrow> (Panic p, s'))"

definition sreturn :: "'a \<Rightarrow> ('s, 'a) action" where
  "sreturn a s = (Ok a, s)"

definition lift_result :: "'a result \<Rightarrow> ('s, 'a) action" where
  "lift_result r s = (r, s)"

definition rbind :: "'a result \<Rightarrow> ('a \<Rightarrow> 'b result) \<Rightarrow> 'b result" where
  "rbind r f = (case r of Ok a \<Rightarrow> f a | Err e \<Rightarrow> Err e | Panic p \<Rightarrow> Panic p)"

definition of_option :: "error \<Rightarrow> 'a option \<Rightarrow> 'a result" where
  "of_option e x = (case x of None \<Rightarrow> Err e | Some a \<Rightarrow> Ok a)"

named_theorems action_simps \<open>unfolding of the state-passing combinators\<close>

lemma sbind_Ok [simp]: "m s = (Ok a, s') \<Longrightarrow> sbind m f s = f a s'"
  by (simp add: sbind_def)

lemma sbind_Err [simp]: "m s = (Err e, s') \<Longrightarrow> sbind m f s = (Err e, s')"
  by (simp add: sbind_def)

lemma sbind_Panic [simp]: "m s = (Panic p, s') \<Longrightarrow> sbind m f s = (Panic p, s')"
  by (simp add: sbind_def)

lemma sbind_eq_Ok_iff:
  "sbind m f s = (Ok b, s'') \<longleftrightarrow> (\<exists>a s'. m s = (Ok a, s') \<and> f a s' = (Ok b, s''))"
  by (auto simp: sbind_def split: prod.splits result.splits)

lemma rbind_simps [simp]:
  "rbind (Ok a) f = f a"
  "rbind (Err e) f = Err e"
  "rbind (Panic p) f = Panic p"
  by (simp_all add: rbind_def)

lemma rbind_eq_Ok_iff: "rbind r f = Ok b \<longleftrightarrow> (\<exists>a. r = Ok a \<and> f a = Ok b)"
  by (cases r) auto

lemma of_option_simps [simp]:
  "of_option e None = Err e"
  "of_option e (Some a) = Ok a"
  by (simp_all add: of_option_def)

lemma of_option_eq_Ok_iff [simp]: "of_option e x = Ok a \<longleftrightarrow> x = Some a"
  by (cases x) auto

lemma of_option_not_Panic [simp]: "of_option e x \<noteq> Panic p"
  by (cases x) auto

declare sreturn_def [action_simps] lift_result_def [action_simps]

section \<open>Big-endian integers\<close>

fun be_bytes :: "nat \<Rightarrow> nat \<Rightarrow> bytes" where
  "be_bytes 0 n = []"
| "be_bytes (Suc k) n = be_bytes k (n div 256) @ [of_nat (n mod 256)]"

definition be_val :: "bytes \<Rightarrow> nat" where
  "be_val xs = foldl (\<lambda>a b. a * 256 + unat b) 0 xs"

definition u64_to_be :: "u64 \<Rightarrow> bytes" where
  "u64_to_be x = be_bytes 8 (unat x)"

definition u64_from_be :: "bytes \<Rightarrow> u64" where
  "u64_from_be xs = of_nat (be_val xs)"

lemma length_be_bytes [simp]: "length (be_bytes k n) = k"
  by (induction k arbitrary: n) auto

lemma length_u64_to_be [simp]: "length (u64_to_be x) = 8"
  by (simp add: u64_to_be_def)

lemma unat_of_nat_mod_256 [simp]: "unat (of_nat (n mod 256) :: u8) = n mod 256"
  by (simp add: unat_of_nat)

lemma be_val_be_bytes: "n < 256 ^ k \<Longrightarrow> be_val (be_bytes k n) = n"
proof (induction k arbitrary: n)
  case 0
  then show ?case by (simp add: be_val_def)
next
  case (Suc k)
  then have "n div 256 < 256 ^ k"
    by (simp add: less_mult_imp_div_less mult.commute)
  with Suc.IH show ?case
    by (simp add: be_val_def)
qed

lemma u64_from_to_be [simp]: "u64_from_be (u64_to_be x) = x"
proof -
  have "unat x < 256 ^ 8"
    using unsigned_less [of x] by simp
  then show ?thesis
    by (simp add: u64_from_be_def u64_to_be_def be_val_be_bytes)
qed

section \<open>Decimal numbers\<close>

definition digit_byte :: "nat \<Rightarrow> u8" where
  "digit_byte d = of_nat (48 + d)"

text \<open>\<^verbatim>\<open>usize::to_string\<close>.\<close>

fun dec :: "nat \<Rightarrow> bytes" where
  "dec n = (if n < 10 then [digit_byte n] else dec (n div 10) @ [digit_byte (n mod 10)])"

declare dec.simps [simp del]

definition is_digit :: "u8 \<Rightarrow> bool" where
  "is_digit b \<longleftrightarrow> 48 \<le> b \<and> b \<le> 57"

text \<open>
  \<^verbatim>\<open>str::parse::<usize>\<close> on a 64-bit target: an optional plus sign, then at least one
  digit, with an error as soon as the value leaves the range.
\<close>

fun parse_digits :: "nat \<Rightarrow> bytes \<Rightarrow> nat option" where
  "parse_digits acc [] = Some acc"
| "parse_digits acc (b # r) =
     (if is_digit b then
        (let a = acc * 10 + (unat b - 48) in if a < 2 ^ 64 then parse_digits a r else None)
      else None)"

definition parse_usize :: "bytes \<Rightarrow> nat result" where
  "parse_usize xs =
     (let ds = (case xs of b # r \<Rightarrow> (if b = 43 then r else xs) | [] \<Rightarrow> [])
      in if ds = [] then Err Err_ParseInt else of_option Err_ParseInt (parse_digits 0 ds))"

lemma unat_digit_byte [simp]: "d < 10 \<Longrightarrow> unat (digit_byte d) = 48 + d"
  by (simp add: digit_byte_def unat_of_nat del: of_nat_add of_nat_numeral)

lemma is_digit_byte [simp]: "d < 10 \<Longrightarrow> is_digit (digit_byte d)"
  by (simp add: is_digit_def word_le_nat_alt)

lemma parse_digits_append:
  "parse_digits acc (xs @ ys) =
     (case parse_digits acc xs of None \<Rightarrow> None | Some a \<Rightarrow> parse_digits a ys)"
  by (induction acc xs rule: parse_digits.induct) (simp_all add: Let_def)

lemma dec_nonempty [simp]: "dec n \<noteq> []"
  by (subst dec.simps) simp

lemma set_dec: "b \<in> set (dec n) \<Longrightarrow> is_digit b"
proof (induction n rule: dec.induct)
  case (1 n)
  then show ?case
    by (cases "n < 10") (auto simp: dec.simps [of n])
qed

lemma parse_digits_dec: "n < 2 ^ 64 \<Longrightarrow> parse_digits 0 (dec n) = Some n"
proof (induction n rule: dec.induct)
  case (1 n)
  show ?case
  proof (cases "n < 10")
    case True
    then show ?thesis
      by (simp add: dec.simps [of n])
  next
    case False
    with 1 have "parse_digits 0 (dec (n div 10)) = Some (n div 10)"
      by simp
    with False 1(2) show ?thesis
      by (simp add: dec.simps [of n] parse_digits_append)
  qed
qed

lemma plus_not_digit [simp]: "\<not> is_digit 43"
  by (simp add: is_digit_def)

lemma colon_not_digit [simp]: "\<not> is_digit 58"
  by (simp add: is_digit_def)

lemma newline_not_digit [simp]: "\<not> is_digit 10"
  by (simp add: is_digit_def)

lemma parse_usize_dec [simp]: "n < 2 ^ 64 \<Longrightarrow> parse_usize (dec n) = Ok n"
proof -
  assume n: "n < 2 ^ 64"
  obtain b r where d: "dec n = b # r"
    by (cases "dec n") auto
  then have "is_digit b"
    using set_dec [of b n] by simp
  then have "b \<noteq> 43"
    by auto
  with d n show ?thesis
    using parse_digits_dec [of n] by (simp add: parse_usize_def)
qed

lemma parse_usize_not_Panic [simp]: "parse_usize xs \<noteq> Panic p"
  by (simp add: parse_usize_def Let_def)

lemma parse_digits_less:
  "parse_digits acc xs = Some n \<Longrightarrow> acc < 2 ^ 64 \<Longrightarrow> n < 2 ^ 64"
  by (induction acc xs rule: parse_digits.induct) (auto simp: Let_def split: if_splits)

lemma parse_usize_less: "parse_usize xs = Ok n \<Longrightarrow> n < 2 ^ 64"
  by (auto simp: parse_usize_def Let_def split: if_splits list.splits dest: parse_digits_less)

section \<open>UTF-8 validation\<close>

text \<open>\<^verbatim>\<open>std::str::from_utf8\<close>: the well-formed byte sequences of the Unicode standard.\<close>

definition between :: "nat \<Rightarrow> u8 \<Rightarrow> nat \<Rightarrow> bool" where
  "between lo b hi \<longleftrightarrow> lo \<le> unat b \<and> unat b \<le> hi"

fun utf8_valid :: "bytes \<Rightarrow> bool" where
  "utf8_valid [] = True"
| "utf8_valid [a] = between 0 a 127"
| "utf8_valid [a, b] =
     (if between 0 a 127 then utf8_valid [b] else between 194 a 223 \<and> between 128 b 191)"
| "utf8_valid [a, b, c] =
     (if between 0 a 127 then utf8_valid [b, c]
      else if between 194 a 223 then between 128 b 191 \<and> utf8_valid [c]
      else between 128 c 191 \<and>
        (if a = 224 then between 160 b 191
         else if a = 237 then between 128 b 159
         else between 225 a 239 \<and> between 128 b 191))"
| "utf8_valid (a # b # c # d # r) =
     (if between 0 a 127 then utf8_valid (b # c # d # r)
      else if between 194 a 223 then between 128 b 191 \<and> utf8_valid (c # d # r)
      else if between 224 a 239 then
        between 128 c 191 \<and>
        (if a = 224 then between 160 b 191
         else if a = 237 then between 128 b 159
         else between 128 b 191) \<and> utf8_valid (d # r)
      else between 128 c 191 \<and> between 128 d 191 \<and>
        (if a = 240 then between 144 b 191
         else if a = 244 then between 128 b 143
         else between 241 a 243 \<and> between 128 b 191) \<and> utf8_valid r)"

lemma utf8_valid_ascii:
  assumes "\<forall>b \<in> set xs. between 0 b 127"
  shows "utf8_valid xs"
  using assms by (induction xs rule: utf8_valid.induct) auto

lemma utf8_valid_dec [simp]: "utf8_valid (dec n)"
proof (rule utf8_valid_ascii, rule ballI)
  fix b assume "b \<in> set (dec n)"
  then have "is_digit b" by (rule set_dec)
  then show "between 0 b 127"
    by (simp add: is_digit_def between_def word_le_nat_alt)
qed

lemma newline_notin_dec [simp]: "newline \<notin> set (dec n)"
  using set_dec [of newline n] by auto

lemma colon_notin_dec [simp]: "colon \<notin> set (dec n)"
  using set_dec [of colon n] by auto

end
