(* ===== verification/Kave_Map.thy ===== *)
theory Kave_Map
  imports Kave_Prelude
begin

text \<open>
  The ordered map of the Rust standard library (\<^verbatim>\<open>BTreeMap\<close>) as the list of its entries in
  key order, with the operations the crate calls.  The same representation serves for the
  crate's \<^verbatim>\<open>HashMap\<close>s, whose entries the code always sorts before use.  The locale
  \<open>ordered_map\<close> states what a client may rely on; the list implementation is interpreted
  in it, and the range scan is related to its set-level specification \<open>range_values\<close>.
\<close>

section \<open>The interface\<close>

locale ordered_map =
  fixes empty :: "'m"
    and insert :: "'k::linorder \<Rightarrow> 'v \<Rightarrow> 'm \<Rightarrow> 'm"
    and remove :: "'k \<Rightarrow> 'm \<Rightarrow> 'm"
    and get :: "'m \<Rightarrow> 'k \<rightharpoonup> 'v"
    and entries :: "'m \<Rightarrow> ('k \<times> 'v) list"
    and inv :: "'m \<Rightarrow> bool"
  assumes inv_empty: "inv empty"
    and inv_insert: "inv m \<Longrightarrow> inv (insert k v m)"
    and inv_remove: "inv m \<Longrightarrow> inv (remove k m)"
    and get_empty: "get empty = Map.empty"
    and get_insert: "inv m \<Longrightarrow> get (insert k v m) = (get m)(k \<mapsto> v)"
    and get_remove: "inv m \<Longrightarrow> get (remove k m) = (get m)(k := None)"
    and get_entries: "inv m \<Longrightarrow> get m = map_of (entries m)"
    and sorted_entries: "inv m \<Longrightarrow> sorted_wrt (<) (map fst (entries m))"
begin

lemma distinct_entries: "inv m \<Longrightarrow> distinct (map fst (entries m))"
  using sorted_entries [of m] by (simp add: strict_sorted_iff)

lemma entries_iff: "inv m \<Longrightarrow> (k, v) \<in> set (entries m) \<longleftrightarrow> get m k = Some v"
  by (simp add: get_entries distinct_entries)

lemma dom_get: "inv m \<Longrightarrow> dom (get m) = fst ` set (entries m)"
  by (simp add: get_entries dom_map_of_conv_image_fst)

lemma finite_dom: "inv m \<Longrightarrow> finite (dom (get m))"
  by (simp add: get_entries finite_dom_map_of)

lemma keys_sorted_list: "inv m \<Longrightarrow> map fst (entries m) = sorted_list_of_set (dom (get m))"
  using sorted_entries [of m] distinct_entries [of m]
  by (simp add: dom_get strict_sorted_iff sorted_list_of_set.idem_if_sorted_distinct flip: set_map)

lemma entries_by_keys:
  assumes "inv m"
  shows "entries m = map (\<lambda>k. (k, the (get m k))) (sorted_list_of_set (dom (get m)))"
proof -
  have "\<forall>e \<in> set (entries m). (fst e, the (get m (fst e))) = e"
    using assms by (auto simp: entries_iff)
  then have "entries m = map (\<lambda>k. (k, the (get m k))) (map fst (entries m))"
    by (simp add: map_idI)
  then show ?thesis
    using assms by (simp add: keys_sorted_list)
qed

lemma entries_cong: "inv m \<Longrightarrow> inv m' \<Longrightarrow> get m = get m' \<Longrightarrow> entries m = entries m'"
  by (simp add: entries_by_keys)

lemma inv_fold_insert: "inv m \<Longrightarrow> inv (fold (\<lambda>(k, v). insert k v) kvs m)"
  by (induction kvs arbitrary: m) (auto simp: inv_insert)

lemma get_fold_insert:
  "inv m \<Longrightarrow> get (fold (\<lambda>(k, v). insert k v) kvs m) = get m ++ map_of (rev kvs)"
  by (induction kvs arbitrary: m)
    (auto simp: inv_insert get_insert map_add_def fun_eq_iff split: option.splits)

end

section \<open>Entries in key order\<close>

type_synonym ('k, 'v) btree = "('k \<times> 'v) list"

fun bt_insert :: "'k::linorder \<Rightarrow> 'v \<Rightarrow> ('k, 'v) btree \<Rightarrow> ('k, 'v) btree" where
  "bt_insert k v [] = [(k, v)]"
| "bt_insert k v ((k', v') # r) =
     (if k < k' then (k, v) # (k', v') # r
      else if k = k' then (k, v) # r
      else (k', v') # bt_insert k v r)"

fun bt_remove :: "'k::linorder \<Rightarrow> ('k, 'v) btree \<Rightarrow> ('k, 'v) btree" where
  "bt_remove k [] = []"
| "bt_remove k ((k', v') # r) = (if k = k' then r else (k', v') # bt_remove k r)"

abbreviation bt_get :: "('k, 'v) btree \<Rightarrow> 'k \<Rightarrow> 'v option" where
  "bt_get m k \<equiv> map_of m k"

definition bt_wf :: "('k::linorder, 'v) btree \<Rightarrow> bool" where
  "bt_wf m \<longleftrightarrow> sorted_wrt (<) (map fst m)"

definition in_range :: "'k::linorder \<Rightarrow> 'k \<Rightarrow> 'k \<Rightarrow> bool" where
  "in_range a b k \<longleftrightarrow> a \<le> k \<and> k < b"

text \<open>\<^verbatim>\<open>BTreeMap::range(a..b)\<close>; it is documented to panic when the start exceeds the end.\<close>

definition bt_range :: "'k::linorder \<Rightarrow> 'k \<Rightarrow> ('k, 'v) btree \<Rightarrow> ('k \<times> 'v) list result" where
  "bt_range a b m =
     (if b < a then Panic ''range start is greater than range end in BTreeMap''
      else Ok (filter (\<lambda>e. in_range a b (fst e)) m))"

lemma set_keys_bt_insert [simp]: "fst ` set (bt_insert k v m) = insert k (fst ` set m)"
  by (induction k v m rule: bt_insert.induct) auto

lemma bt_wf_Nil [simp, intro]: "bt_wf []"
  by (simp add: bt_wf_def)

lemma bt_wf_Cons: "bt_wf ((k, v) # m) \<longleftrightarrow> (\<forall>k' \<in> fst ` set m. k < k') \<and> bt_wf m"
  by (auto simp: bt_wf_def)

lemma bt_wf_insert [simp, intro]: "bt_wf m \<Longrightarrow> bt_wf (bt_insert k v m)"
  by (induction k v m rule: bt_insert.induct) (auto simp: bt_wf_Cons)

lemma bt_wf_remove [simp, intro]: "bt_wf m \<Longrightarrow> bt_wf (bt_remove k m)"
proof (induction k m rule: bt_remove.induct)
  case (2 k k' v' r)
  have "set (bt_remove k r) \<subseteq> set r"
    by (induction k r rule: bt_remove.induct) auto
  with 2 show ?case by (auto simp: bt_wf_Cons)
qed simp

lemma bt_get_insert [simp]: "map_of (bt_insert k v m) = (map_of m)(k \<mapsto> v)"
  by (induction k v m rule: bt_insert.induct) (auto simp: fun_eq_iff)

lemma bt_get_remove [simp]: "bt_wf m \<Longrightarrow> map_of (bt_remove k m) = (map_of m)(k := None)"
proof (induction k m rule: bt_remove.induct)
  case (2 k k' v' r)
  show ?case
  proof (cases "k = k'")
    case True
    with 2 have "k \<notin> fst ` set r" by (auto simp: bt_wf_Cons)
    then have "map_of r k = None" by (simp add: map_of_eq_None_iff)
    with True show ?thesis by (auto simp: fun_eq_iff)
  next
    case False
    with 2 show ?thesis by (auto simp: bt_wf_Cons fun_eq_iff)
  qed
qed (simp add: fun_eq_iff)

lemma bt_insert_not_Nil [simp]: "bt_insert k v m \<noteq> []"
  by (cases m) (auto split: if_splits)

interpretation bt: ordered_map
  "[] :: ('k::linorder, 'v) btree" bt_insert bt_remove map_of "\<lambda>m. m" bt_wf
  by unfold_locales (auto simp: bt_wf_def [symmetric])

lemma bt_insert_same [simp]: "bt_wf m \<Longrightarrow> map_of m k = Some v \<Longrightarrow> bt_insert k v m = m"
  by (rule bt.entries_cong) (auto simp: fun_eq_iff)

lemma bt_wf_filter [simp, intro]: "bt_wf m \<Longrightarrow> bt_wf (filter P m)"
  by (simp add: bt_wf_def sorted_wrt_filter sorted_wrt_map)

lemma map_of_filter_key:
  "map_of (filter (\<lambda>e. P (fst e)) m) k = (if P k then map_of m k else None)"
  by (induction m) auto

lemma map_of_rev_distinct: "distinct (map fst xs) \<Longrightarrow> map_of (rev xs) = map_of xs"
  by (simp add: map_of_inject_set flip: rev_map)

lemma bt_get_insert_all:
  "bt_wf m \<Longrightarrow> bt_wf kvs \<Longrightarrow>
   bt_wf (fold (\<lambda>(k, v). bt_insert k v) kvs m) \<and>
   map_of (fold (\<lambda>(k, v). bt_insert k v) kvs m) = map_of m ++ map_of kvs"
  using bt.inv_fold_insert [of m kvs] bt.get_fold_insert [of m kvs] bt.distinct_entries [of kvs]
  by (simp add: map_of_rev_distinct)

lemma bt_filter_all:
  "bt_wf m \<Longrightarrow> (\<And>k. \<not> P k \<Longrightarrow> map_of m k = None) \<Longrightarrow> filter (\<lambda>e. P (fst e)) m = m"
  by (rule bt.entries_cong) (auto simp: map_of_filter_key fun_eq_iff)

section \<open>Range scans\<close>

text \<open>
  What a scan promises: the values bound to the keys of the half-open range, in key order.
\<close>

definition range_values :: "('k::linorder \<rightharpoonup> 'v) \<Rightarrow> 'k \<Rightarrow> 'k \<Rightarrow> 'v list" where
  "range_values f a b = map (\<lambda>k. the (f k)) (sorted_list_of_set {k \<in> dom f. in_range a b k})"

lemma filter_range_values:
  assumes "bt_wf m"
  shows "map snd (filter (\<lambda>e. in_range a b (fst e)) m) = range_values (map_of m) a b"
proof -
  let ?m = "filter (\<lambda>e. in_range a b (fst e)) m"
  have wf: "bt_wf ?m" using assms by simp
  have dom: "dom (map_of ?m) = {k \<in> dom (map_of m). in_range a b k}"
    by (auto simp: dom_def map_of_filter_key split: if_splits)
  have "map snd ?m = map (\<lambda>k. the (map_of ?m k)) (sorted_list_of_set (dom (map_of ?m)))"
    using arg_cong [OF bt.entries_by_keys [OF wf], of "map snd"] by (simp add: comp_def)
  also have "\<dots> = range_values (map_of m) a b"
    unfolding range_values_def dom
    by (rule map_cong) (auto simp: map_of_filter_key assms bt.finite_dom)
  finally show ?thesis .
qed

lemma range_values_in:
  assumes "finite (dom f)"
  shows "set (range_values f a b) = {v. \<exists>k. in_range a b k \<and> f k = Some v}"
  using assms by (force simp: range_values_def dom_def image_iff)

lemma range_values_cong:
  "(\<And>k. in_range a b k \<Longrightarrow> f k = g k) \<Longrightarrow> range_values f a b = range_values g a b"
proof -
  assume eq: "\<And>k. in_range a b k \<Longrightarrow> f k = g k"
  then have "{k \<in> dom f. in_range a b k} = {k \<in> dom g. in_range a b k}"
    by (auto simp: dom_def)
  moreover have "the (f k) = the (g k)" if "k \<in> set (sorted_list_of_set {k \<in> dom g. in_range a b k})" for k
    using that eq by (cases "finite {k \<in> dom g. in_range a b k}") auto
  ultimately show ?thesis
    by (simp add: range_values_def)
qed

text \<open>Scanning a map of optional payloads and keeping the payloads that are present.\<close>

lemma map_filter_range_values:
  assumes "bt_wf m"
  shows "List.map_filter (\<lambda>e. g (snd e)) (filter (\<lambda>e. in_range a b (fst e)) m)
       = range_values (\<lambda>k. Option.bind (map_of m k) g) a b"
proof -
  define h where "h = filter (\<lambda>e. g (snd e) \<noteq> None) m"
  have h: "bt_wf (map (\<lambda>(k, v). (k, the (g v))) h)"
  proof -
    have "bt_wf h" using assms by (simp add: h_def)
    then show ?thesis by (simp add: bt_wf_def comp_def case_prod_beta)
  qed
  have get: "map_of (map (\<lambda>(k, v). (k, the (g v))) h) = (\<lambda>k. Option.bind (map_of m k) g)"
  proof
    fix k
    show "map_of (map (\<lambda>(k, v). (k, the (g v))) h) k = Option.bind (map_of m k) g"
      using assms unfolding h_def
    proof (induction m)
      case (Cons e m)
      obtain k' v' where e: "e = (k', v')" by (cases e)
      with Cons.prems have "map_of m k' = None"
        by (auto simp: bt_wf_Cons map_of_eq_None_iff)
      with Cons e show ?case by (auto simp: bt_wf_Cons)
    qed simp
  qed
  have "List.map_filter (\<lambda>e. g (snd e)) (filter (\<lambda>e. in_range a b (fst e)) m)
      = map snd (filter (\<lambda>e. in_range a b (fst e)) (map (\<lambda>(k, v). (k, the (g v))) h))"
    unfolding h_def by (induction m) (auto simp: List.map_filter_def)
  also have "\<dots> = range_values (\<lambda>k. Option.bind (map_of m k) g) a b"
    using filter_range_values [OF h] by (simp add: get)
  finally show ?thesis .
qed

end
