(* ===== verification/Kave_FS.thy ===== *)
theory Kave_FS
  imports Kave_Map
begin

text \<open>
  The part of the operating system the storage code talks to: files with contents and
  modification times, a clock, and the reads and writes of \<^verbatim>\<open>tokio::fs\<close>.  Every call may
  fail: a schedule of faults, consumed one entry per call, says which calls fail and, for a
  write, how many of its bytes reached the file first.  With an empty schedule no call fails.
  A single \<^verbatim>\<open>read_buf\<close> call may deliver fewer bytes than were asked for; how many is
  decided by a function of the position and the size that every reading definition takes as an
  argument.  The directories the crate works in exist: a missing directory is an I/O error like
  any other, which the schedule covers.
\<close>

section \<open>Files\<close>

record fs_file =
  content :: bytes
  mtime :: nat

record fs =
  files :: "(path, fs_file) btree"
  clock :: nat
  faults :: "nat option list"

definition next_fault :: "fs \<Rightarrow> nat option \<times> fs" where
  "next_fault s =
     (case faults s of [] \<Rightarrow> (None, s) | f # r \<Rightarrow> (f, s\<lparr>faults := r\<rparr>))"

definition fs_call :: "(nat \<Rightarrow> fs \<Rightarrow> fs) \<Rightarrow> (fs, 'a) action \<Rightarrow> (fs, 'a) action" where
  "fs_call partial act s =
     (case next_fault s of
        (None, s') \<Rightarrow> act s'
      | (Some n, s') \<Rightarrow> (Err (Err_IO OtherIO), partial n s'))"

definition file_of :: "path \<Rightarrow> fs \<Rightarrow> bytes option" where
  "file_of p s = map_option content (bt_get (files s) p)"

definition put_file :: "path \<Rightarrow> bytes \<Rightarrow> fs \<Rightarrow> fs" where
  "put_file p c s = s\<lparr>files := bt_insert p \<lparr>content = c, mtime = clock s\<rparr> (files s)\<rparr>"

text \<open>
  \<^verbatim>\<open>fs::metadata(p).await?.modified()?\<close>, \<^verbatim>\<open>Path::exists\<close> (false when the
  metadata cannot be read), and the ways the crate opens a file.
\<close>

definition fs_metadata :: "path \<Rightarrow> (fs, nat) action" where
  "fs_metadata p = fs_call (\<lambda>_ s. s)
     (\<lambda>s. case bt_get (files s) p of
            None \<Rightarrow> (Err (Err_IO NotFound), s)
          | Some f \<Rightarrow> (Ok (mtime f), s))"

definition fs_exists :: "path \<Rightarrow> fs \<Rightarrow> bool \<times> fs" where
  "fs_exists p s =
     (case fs_metadata p s of
        (Ok _, s') \<Rightarrow> (True, s')
      | (_, s') \<Rightarrow> (False, s'))"

definition fs_open_create :: "path \<Rightarrow> (fs, unit) action" where
  "fs_open_create p = fs_call (\<lambda>_ s. s)
     (\<lambda>s. case bt_get (files s) p of
            None \<Rightarrow> (Ok (), put_file p [] s)
          | Some f \<Rightarrow> (Ok (), s))"

definition fs_open_truncate :: "path \<Rightarrow> (fs, unit) action" where
  "fs_open_truncate p = fs_call (\<lambda>_ s. s) (\<lambda>s. (Ok (), put_file p [] s))"

definition fs_open_read :: "path \<Rightarrow> (fs, unit) action" where
  "fs_open_read p = fs_call (\<lambda>_ s. s)
     (\<lambda>s. case bt_get (files s) p of
            None \<Rightarrow> (Err (Err_IO NotFound), s)
          | Some f \<Rightarrow> (Ok (), s))"

text \<open>Bytes written at a position replace what is there and extend the file at its end.\<close>

definition overwrite :: "bytes \<Rightarrow> nat \<Rightarrow> bytes \<Rightarrow> bytes" where
  "overwrite c pos xs = take pos c @ xs @ drop (pos + length xs) c"

definition write_bytes :: "path \<Rightarrow> nat \<Rightarrow> bytes \<Rightarrow> fs \<Rightarrow> fs" where
  "write_bytes p pos xs s =
     (case bt_get (files s) p of
        None \<Rightarrow> s
      | Some f \<Rightarrow> put_file p (overwrite (content f) pos xs) s)"

text \<open>\<^verbatim>\<open>write_all\<close> through a handle at a position, and through a handle in append mode.\<close>

definition fs_write_all :: "path \<Rightarrow> nat \<Rightarrow> bytes \<Rightarrow> (fs, nat) action" where
  "fs_write_all p pos xs =
     fs_call (\<lambda>n. write_bytes p pos (take n xs))
       (\<lambda>s. (Ok (pos + length xs), write_bytes p pos xs s))"

definition append_bytes :: "path \<Rightarrow> bytes \<Rightarrow> fs \<Rightarrow> fs" where
  "append_bytes p xs s =
     (case bt_get (files s) p of
        None \<Rightarrow> s
      | Some f \<Rightarrow> put_file p (content f @ xs) s)"

definition fs_append_all :: "path \<Rightarrow> bytes \<Rightarrow> (fs, unit) action" where
  "fs_append_all p xs =
     fs_call (\<lambda>n. append_bytes p (take n xs)) (\<lambda>s. (Ok (), append_bytes p xs s))"

definition fs_sync_all :: "(fs, unit) action" where
  "fs_sync_all = fs_call (\<lambda>_ s. s) (\<lambda>s. (Ok (), s))"

text \<open>
  \<^verbatim>\<open>fs::read_dir(dir)\<close>: the paths of the files that lie directly in the directory.
\<close>

definition in_dir :: "path \<Rightarrow> path \<Rightarrow> bool" where
  "in_dir dir p \<longleftrightarrow> p \<noteq> [] \<and> butlast p = dir"

definition fs_read_dir :: "path \<Rightarrow> (fs, path list) action" where
  "fs_read_dir dir = fs_call (\<lambda>_ s. s)
     (\<lambda>s. (Ok (filter (in_dir dir) (map fst (files s))), s))"

section \<open>Readers\<close>

text \<open>
  An open file that is being read: the position and the bytes still ahead.  The first argument
  says what a single underlying read at a position yields when a given number of bytes is
  asked for: an I/O error, or how many bytes at most.
\<close>

type_synonym read_env = "nat \<Rightarrow> nat \<Rightarrow> io_kind + nat"

record reader =
  pos :: nat
  ahead :: bytes

definition reader_at :: "bytes \<Rightarrow> nat \<Rightarrow> reader" where
  "reader_at c n = \<lparr>pos = n, ahead = drop n c\<rparr>"

definition advance :: "nat \<Rightarrow> reader \<Rightarrow> reader" where
  "advance n r = \<lparr>pos = pos r + n, ahead = drop n (ahead r)\<rparr>"

text \<open>One \<^verbatim>\<open>read_buf\<close> into a buffer with \<open>limit\<close> bytes of space.\<close>

definition read_buf :: "read_env \<Rightarrow> nat \<Rightarrow> (reader, bytes) action" where
  "read_buf rd limit r =
     (case rd (pos r) limit of
        Inl k \<Rightarrow> (Err (Err_IO k), r)
      | Inr n \<Rightarrow>
          (let m = min n (min limit (length (ahead r)))
           in (Ok (take m (ahead r)), advance m r)))"

text \<open>\<^verbatim>\<open>read_u64\<close>: eight bytes, most significant first, or an unexpected end of file.\<close>

definition read_u64 :: "read_env \<Rightarrow> (reader, u64) action" where
  "read_u64 rd r =
     (case rd (pos r) 8 of
        Inl k \<Rightarrow> (Err (Err_IO k), r)
      | Inr _ \<Rightarrow>
          if length (ahead r) < 8
          then (Err (Err_IO UnexpectedEof), advance (length (ahead r)) r)
          else (Ok (u64_from_be (take 8 (ahead r))), advance 8 r))"

text \<open>
  A read of \<open>n\<close> bytes at a position is complete when it delivers all bytes the file still has,
  up to \<open>n\<close>; the reads of \<open>n\<close> bytes are complete when this holds at every position.  Reading a
  size asks again until it has its eight bytes, so it only needs reads that do not fail.
\<close>

definition read_whole :: "read_env \<Rightarrow> nat \<Rightarrow> nat \<Rightarrow> bool" where
  "read_whole rd p n \<longleftrightarrow> (case rd p n of Inl k \<Rightarrow> False | Inr m \<Rightarrow> n \<le> m)"

definition size_reads :: "read_env \<Rightarrow> bool" where
  "size_reads rd \<longleftrightarrow> (\<forall>p. \<exists>m. rd p 8 = Inr m)"

definition full_read :: "read_env \<Rightarrow> nat \<Rightarrow> bool" where
  "full_read rd n \<longleftrightarrow> (\<forall>p. read_whole rd p n)"

section \<open>Calls that do not fail\<close>

named_theorems fs_simps \<open>file-system calls under an empty fault schedule\<close>

lemma fs_call_no_fault [fs_simps]: "faults s = [] \<Longrightarrow> fs_call f act s = act s"
  by (simp add: fs_call_def next_fault_def)

lemma put_file_simps [simp]:
  "faults (put_file p c s) = faults s"
  "clock (put_file p c s) = clock s"
  "bt_get (files (put_file p c s)) q =
     (if q = p then Some \<lparr>content = c, mtime = clock s\<rparr> else bt_get (files s) q)"
  "bt_wf (files s) \<Longrightarrow> bt_wf (files (put_file p c s))"
  by (simp_all add: put_file_def)

lemma file_of_put_file [simp]:
  "file_of q (put_file p c s) = (if q = p then Some c else file_of q s)"
  by (simp add: file_of_def)

lemma put_file_put_file [simp]: "bt_wf (files s) \<Longrightarrow> put_file p c (put_file p d s) = put_file p c s"
proof -
  assume "bt_wf (files s)"
  then have "bt_insert p x (bt_insert p y (files s)) = bt_insert p x (files s)" for x y
    by (intro bt.entries_cong) (auto simp: fun_eq_iff)
  then show ?thesis
    by (simp add: put_file_def)
qed

lemma overwrite_end: "overwrite c (length c) xs = c @ xs"
  by (simp add: overwrite_def)

lemma file_of_Some_iff: "file_of p s = Some c \<longleftrightarrow> (\<exists>f. bt_get (files s) p = Some f \<and> content f = c)"
  by (auto simp: file_of_def)

lemma file_of_None_iff: "file_of p s = None \<longleftrightarrow> bt_get (files s) p = None"
  by (auto simp: file_of_def)

lemma write_bytes_end:
  "file_of p s = Some c \<Longrightarrow> write_bytes p (length c) xs s = put_file p (c @ xs) s"
  by (auto simp: write_bytes_def file_of_Some_iff overwrite_end)

lemma append_bytes_eq: "file_of p s = Some c \<Longrightarrow> append_bytes p xs s = put_file p (c @ xs) s"
  by (auto simp: append_bytes_def file_of_Some_iff)

lemma fs_open_create_new [fs_simps]:
  "faults s = [] \<Longrightarrow> file_of p s = None \<Longrightarrow> fs_open_create p s = (Ok (), put_file p [] s)"
  by (simp add: fs_open_create_def fs_simps file_of_None_iff)

lemma fs_open_create_old [fs_simps]:
  "faults s = [] \<Longrightarrow> file_of p s = Some c \<Longrightarrow> fs_open_create p s = (Ok (), s)"
  by (auto simp: fs_open_create_def fs_simps file_of_Some_iff)

lemma fs_sync_all_ok [fs_simps]: "faults s = [] \<Longrightarrow> fs_sync_all s = (Ok (), s)"
  by (simp add: fs_sync_all_def fs_simps)

lemma fs_write_all_end [fs_simps]:
  "faults s = [] \<Longrightarrow> file_of p s = Some c \<Longrightarrow>
     fs_write_all p (length c) xs s = (Ok (length c + length xs), put_file p (c @ xs) s)"
  by (simp add: fs_write_all_def fs_simps write_bytes_end)

lemma fs_append_all_ok [fs_simps]:
  "faults s = [] \<Longrightarrow> file_of p s = Some c \<Longrightarrow>
     fs_append_all p xs s = (Ok (), put_file p (c @ xs) s)"
  by (simp add: fs_append_all_def fs_simps append_bytes_eq)

lemma fs_read_dir_ok [fs_simps]:
  "faults s = [] \<Longrightarrow> fs_read_dir d s = (Ok (filter (in_dir d) (map fst (files s))), s)"
  by (simp add: fs_read_dir_def fs_simps)

lemma fs_metadata_ok [fs_simps]:
  "faults s = [] \<Longrightarrow> fs_metadata p s =
     (case bt_get (files s) p of None \<Rightarrow> (Err (Err_IO NotFound), s) | Some f \<Rightarrow> (Ok (mtime f), s))"
  by (simp add: fs_metadata_def fs_simps)

lemma fs_exists_ok [fs_simps]:
  "faults s = [] \<Longrightarrow> fs_exists p s = (file_of p s \<noteq> None, s)"
  by (auto simp: fs_exists_def fs_simps file_of_def split: option.splits)

lemma reader_simps [simp]:
  "ahead (reader_at c n) = drop n c"
  "pos (reader_at c n) = n"
  "ahead (advance n r) = drop n (ahead r)"
  "pos (advance n r) = pos r + n"
  by (simp_all add: reader_at_def advance_def)

lemma advance_0 [simp]: "advance 0 r = r"
  by (cases r) (simp add: advance_def)

lemma advance_advance [simp]: "advance m (advance n r) = advance (n + m) r"
  by (simp add: advance_def add.commute add.left_commute)

lemma advance_reader_at [simp]: "advance m (reader_at c n) = reader_at c (n + m)"
  by (simp add: reader_at_def advance_def add.commute)

lemma read_buf_whole:
  "read_whole rd (pos r) n \<Longrightarrow> read_buf rd n r =
     (Ok (take n (ahead r)), advance (min n (length (ahead r))) r)"
  by (auto simp: read_whole_def read_buf_def Let_def min_def split: sum.splits)

lemma read_buf_full:
  "full_read rd n \<Longrightarrow> read_buf rd n r =
     (Ok (take n (ahead r)), advance (min n (length (ahead r))) r)"
  by (rule read_buf_whole) (simp add: full_read_def)

lemma full_size_reads: "full_read rd 8 \<Longrightarrow> size_reads rd"
  by (auto simp: full_read_def size_reads_def read_whole_def split: sum.splits) (metis sum.exhaust)

lemma read_u64_ok:
  assumes "size_reads rd" and "ahead r = u64_to_be x @ rest"
  shows "read_u64 rd r = (Ok x, advance 8 r)"
proof -
  obtain m where "rd (pos r) 8 = Inr m"
    using assms(1) by (auto simp: size_reads_def)
  with assms(2) show ?thesis
    by (simp add: read_u64_def)
qed

lemmas read_u64_full = read_u64_ok [OF full_size_reads]

lemma read_u64_short:
  assumes "size_reads rd" and "length (ahead r) < 8"
  shows "read_u64 rd r = (Err (Err_IO UnexpectedEof), advance (length (ahead r)) r)"
proof -
  obtain m where "rd (pos r) 8 = Inr m"
    using assms(1) by (auto simp: size_reads_def)
  with assms(2) show ?thesis
    by (simp add: read_u64_def)
qed

end
