(* ===== verification/Kave_Codec.thy ===== *)
theory Kave_Codec
  imports Kave_Prelude
begin

text \<open>
  The serializer the crate uses (the third-party crate \<^verbatim>\<open>bincode\<close>) is a parameter of the
  storage model: a record of the three functions that are called, at the type they are called
  at.  What the code relies on is \<open>codec_ok\<close> (a serialized value has the announced size and
  deserializes back, whatever bytes follow it) and, for the treatment of truncated data,
  \<open>codec_strict\<close> (a proper prefix of a serialized value is refused).  The second part
  gives encoders and parsers in the layout \<^verbatim>\<open>bincode\<close> documents (fixed-width little-endian
  integers, 64-bit lengths, 32-bit variant indices), from which the component theories build
  instances of the parameter.
\<close>

section \<open>The serializer as a parameter\<close>

record 'a codec =
  ser :: "'a \<Rightarrow> bytes option"
  de :: "bytes \<Rightarrow> 'a option"
  ser_size :: "'a \<Rightarrow> u64 option"

definition codec_ok :: "'a codec \<Rightarrow> bool" where
  "codec_ok c \<longleftrightarrow>
     (\<forall>x b. ser c x = Some b \<longrightarrow>
        (\<exists>n. ser_size c x = Some n \<and> unat n = length b) \<and> (\<forall>r. de c (b @ r) = Some x))"

definition codec_strict :: "'a codec \<Rightarrow> bool" where
  "codec_strict c \<longleftrightarrow> (\<forall>x b n. ser c x = Some b \<longrightarrow> n < length b \<longrightarrow> de c (take n b) = None)"

lemma codec_okD:
  assumes "codec_ok c" and "ser c x = Some b"
  shows "de c (b @ r) = Some x" and "de c b = Some x"
    and "\<exists>n. ser_size c x = Some n \<and> unat n = length b"
proof -
  show *: "de c (b @ r) = Some x" for r
    using assms by (simp add: codec_ok_def)
  show "de c b = Some x"
    using * [of "[]"] by simp
  show "\<exists>n. ser_size c x = Some n \<and> unat n = length b"
    using assms by (simp add: codec_ok_def)
qed

section \<open>The documented layout\<close>

type_synonym 'a parser = "bytes \<Rightarrow> ('a \<times> bytes) option"

definition le_bytes :: "nat \<Rightarrow> nat \<Rightarrow> bytes" where
  "le_bytes k n = rev (be_bytes k n)"

definition p_int :: "nat \<Rightarrow> nat parser" where
  "p_int k xs = (if length xs < k then None else Some (be_val (rev (take k xs)), drop k xs))"

definition p_take :: "nat \<Rightarrow> bytes parser" where
  "p_take n xs = (if length xs < n then None else Some (take n xs, drop n xs))"

definition p_bind :: "'a parser \<Rightarrow> ('a \<Rightarrow> 'b parser) \<Rightarrow> 'b parser" where
  "p_bind p f xs = (case p xs of None \<Rightarrow> None | Some (a, r) \<Rightarrow> f a r)"

definition p_return :: "'a \<Rightarrow> 'a parser" where
  "p_return a xs = Some (a, xs)"

definition p_fail :: "'a parser" where
  "p_fail xs = None"

fun p_many :: "nat \<Rightarrow> 'a parser \<Rightarrow> 'a list parser" where
  "p_many 0 p xs = Some ([], xs)"
| "p_many (Suc n) p xs =
     (case p xs of
        None \<Rightarrow> None
      | Some (a, r) \<Rightarrow>
          (case p_many n p r of None \<Rightarrow> None | Some (as, r') \<Rightarrow> Some (a # as, r')))"

definition enc_bytes :: "bytes \<Rightarrow> bytes" where
  "enc_bytes xs = le_bytes 8 (length xs) @ xs"

definition p_bytes :: "bytes parser" where
  "p_bytes = p_bind (p_int 8) p_take"

definition enc_list :: "('a \<Rightarrow> bytes) \<Rightarrow> 'a list \<Rightarrow> bytes" where
  "enc_list e xs = le_bytes 8 (length xs) @ concat (map e xs)"

definition p_list :: "'a parser \<Rightarrow> 'a list parser" where
  "p_list p = p_bind (p_int 8) (\<lambda>n. p_many n p)"

definition enc_word :: "nat \<Rightarrow> 'w::len word \<Rightarrow> bytes" where
  "enc_word k w = le_bytes k (unat w)"

definition p_word :: "nat \<Rightarrow> 'w::len word parser" where
  "p_word k = p_bind (p_int k) (\<lambda>n. p_return (of_nat n))"

text \<open>A parser reads back what an encoder wrote, on inputs that fit a 64-bit size.\<close>

definition reads :: "'a parser \<Rightarrow> ('a \<Rightarrow> bytes) \<Rightarrow> bool" where
  "reads p e \<longleftrightarrow> (\<forall>x r. length (e x) < 2 ^ 64 \<longrightarrow> p (e x @ r) = Some (x, r))"

named_theorems layout \<open>lengths and round trips of the layout combinators\<close>

lemma length_le_bytes [simp]: "length (le_bytes k n) = k"
  by (simp add: le_bytes_def)

lemma length_enc_bytes [simp]: "length (enc_bytes xs) = 8 + length xs"
  by (simp add: enc_bytes_def)

lemma length_enc_word [simp]: "length (enc_word k w) = k"
  by (simp add: enc_word_def)

lemma p_int_le_bytes [layout]: "n < 256 ^ k \<Longrightarrow> p_int k (le_bytes k n @ r) = Some (n, r)"
  by (simp add: p_int_def le_bytes_def be_val_be_bytes)

lemma p_bind_Some [layout]: "p xs = Some (a, r) \<Longrightarrow> p_bind p f xs = f a r"
  by (simp add: p_bind_def)

lemma reads_bytes: "reads p_bytes enc_bytes"
  by (auto simp: reads_def p_bytes_def enc_bytes_def p_bind_def p_int_le_bytes p_take_def)

lemma length_concat_member: "x \<in> set xs \<Longrightarrow> length (e x) \<le> length (concat (map e xs))"
  by (induction xs) auto

lemma p_many_concat:
  "(\<And>x r. x \<in> set xs \<Longrightarrow> p (e x @ r) = Some (x, r)) \<Longrightarrow>
   p_many (length xs) p (concat (map e xs) @ r) = Some (xs, r)"
  by (induction xs) auto

lemma length_concat_ge: "(\<And>x. x \<in> set xs \<Longrightarrow> e x \<noteq> []) \<Longrightarrow> length xs \<le> length (concat (map e xs))"
proof (induction xs)
  case (Cons x xs)
  then have "0 < length (e x)" and "length xs \<le> length (concat (map e xs))"
    by auto
  then show ?case unfolding list.map concat.simps length_append length_Cons by linarith
qed simp

lemma reads_list:
  assumes "reads p e" and ne: "\<And>x. e x \<noteq> []"
  shows "reads (p_list p) (enc_list e)"
  unfolding reads_def
proof (intro allI impI)
  fix xs r
  assume len: "length (enc_list e xs) < 2 ^ 64"
  have "p (e x @ r) = Some (x, r)" if "x \<in> set xs" for x r
    using assms(1) len length_concat_member [OF that, of e] by (auto simp: reads_def enc_list_def)
  then have "p_many (length xs) p (concat (map e xs) @ r) = Some (xs, r)"
    by (rule p_many_concat)
  moreover have "length xs < 256 ^ 8"
    using length_concat_ge [of xs e] ne len by (simp add: enc_list_def)
  ultimately show "p_list p (enc_list e xs @ r) = Some (xs, r)"
    by (simp add: p_list_def enc_list_def layout)
qed

lemma reads_word: "2 ^ LENGTH('w::len) \<le> (256::nat) ^ k \<Longrightarrow> reads (p_word k :: 'w word parser) (enc_word k)"
proof -
  assume k: "2 ^ LENGTH('w) \<le> (256::nat) ^ k"
  have "unat (w :: 'w word) < 256 ^ k" for w
    by (rule less_le_trans [OF unsigned_less k])
  then show ?thesis
    by (simp add: reads_def p_word_def enc_word_def layout p_return_def)
qed

lemma readsD: "reads p e \<Longrightarrow> length (e x) < 2 ^ 64 \<Longrightarrow> p (e x @ r) = Some (x, r)"
  by (simp add: reads_def)

definition codec_of :: "('a \<Rightarrow> bytes) \<Rightarrow> 'a parser \<Rightarrow> 'a codec" where
  "codec_of e p =
     \<lparr>ser = (\<lambda>x. if length (e x) < 2 ^ 64 then Some (e x) else None),
      de = (\<lambda>xs. map_option fst (p xs)),
      ser_size = (\<lambda>x. if length (e x) < 2 ^ 64 then Some (of_nat (length (e x))) else None)\<rparr>"

lemma codec_of_ok: "reads p e \<Longrightarrow> codec_ok (codec_of e p)"
  by (auto simp: codec_ok_def codec_of_def reads_def unat_of_nat split: if_splits)

text \<open>
  Parsers that only ever look at what they consume: the result does not depend on what
  follows, and a proper prefix of what was consumed is refused.
\<close>

definition prefix_strict :: "'a parser \<Rightarrow> bool" where
  "prefix_strict p \<longleftrightarrow> (\<forall>xs a r. p xs = Some (a, r) \<longrightarrow>
     (\<exists>us. xs = us @ r \<and> (\<forall>r'. p (us @ r') = Some (a, r')) \<and>
       (\<forall>n < length us. p (take n us) = None)))"

lemma prefix_strictE:
  assumes "prefix_strict p" and "p xs = Some (a, r)"
  obtains us where "xs = us @ r" and "\<And>r'. p (us @ r') = Some (a, r')"
    and "\<And>n. n < length us \<Longrightarrow> p (take n us) = None"
  using assms unfolding prefix_strict_def by meson

lemma prefix_strictI:
  assumes "\<And>xs a r. p xs = Some (a, r) \<Longrightarrow>
     \<exists>us. xs = us @ r \<and> (\<forall>r'. p (us @ r') = Some (a, r')) \<and>
       (\<forall>n < length us. p (take n us) = None)"
  shows "prefix_strict p"
  using assms by (simp add: prefix_strict_def)

lemma prefix_strict_codec:
  assumes "prefix_strict p" and "reads p e"
  shows "codec_strict (codec_of e p)"
  unfolding codec_strict_def
proof (intro allI impI)
  fix x b n
  assume b: "ser (codec_of e p) x = Some b" and n: "n < length b"
  then have "p (e x) = Some (x, [])" and be: "b = e x"
    using readsD [OF assms(2), of x "[]"] by (auto simp: codec_of_def split: if_splits)
  with assms(1) n have "p (take n b) = None"
    by (auto elim: prefix_strictE)
  then show "de (codec_of e p) (take n b) = None"
    by (simp add: codec_of_def)
qed

lemma prefix_strict_int [layout]: "prefix_strict (p_int k)"
proof (rule prefix_strictI)
  fix xs a r assume "p_int k xs = Some (a, r)"
  then show "\<exists>us. xs = us @ r \<and> (\<forall>r'. p_int k (us @ r') = Some (a, r')) \<and>
      (\<forall>n < length us. p_int k (take n us) = None)"
    by (intro exI [of _ "take k xs"]) (auto simp: p_int_def split: if_splits)
qed

lemma prefix_strict_take [layout]: "prefix_strict (p_take k)"
proof (rule prefix_strictI)
  fix xs a r assume "p_take k xs = Some (a, r)"
  then show "\<exists>us. xs = us @ r \<and> (\<forall>r'. p_take k (us @ r') = Some (a, r')) \<and>
      (\<forall>n < length us. p_take k (take n us) = None)"
    by (intro exI [of _ "take k xs"]) (auto simp: p_take_def split: if_splits)
qed

lemma prefix_strict_return [layout]: "prefix_strict (p_return a)"
  by (simp add: prefix_strict_def p_return_def)

lemma prefix_strict_fail [layout]: "prefix_strict p_fail"
  by (simp add: prefix_strict_def p_fail_def)

lemma prefix_strict_bind [layout]:
  assumes p: "prefix_strict p" and f: "\<And>a. prefix_strict (f a)"
  shows "prefix_strict (p_bind p f)"
proof (rule prefix_strictI)
  fix xs b r assume "p_bind p f xs = Some (b, r)"
  then obtain a r1 where 1: "p xs = Some (a, r1)" and 2: "f a r1 = Some (b, r)"
    by (auto simp: p_bind_def split: option.splits)
  obtain us where us: "xs = us @ r1" "\<And>r'. p (us @ r') = Some (a, r')"
      "\<And>n. n < length us \<Longrightarrow> p (take n us) = None"
    using prefix_strictE [OF p 1] by blast
  obtain vs where vs: "r1 = vs @ r" "\<And>r'. f a (vs @ r') = Some (b, r')"
      "\<And>n. n < length vs \<Longrightarrow> f a (take n vs) = None"
    using prefix_strictE [OF f 2] by blast
  have "p_bind p f (take n (us @ vs)) = None" if "n < length (us @ vs)" for n
    using that us(2,3) vs(3) [of "n - length us"]
    by (cases "n < length us") (auto simp: p_bind_def)
  with us vs show "\<exists>us. xs = us @ r \<and> (\<forall>r'. p_bind p f (us @ r') = Some (b, r')) \<and>
      (\<forall>n < length us. p_bind p f (take n us) = None)"
    by (intro exI [of _ "us @ vs"]) (auto simp: p_bind_def)
qed

lemma p_many_Suc:
  "p_many (Suc n) p = p_bind p (\<lambda>a. p_bind (p_many n p) (\<lambda>as. p_return (a # as)))"
  by (auto simp: fun_eq_iff p_bind_def p_return_def split: option.splits)

lemma prefix_strict_many [layout]: "prefix_strict p \<Longrightarrow> prefix_strict (p_many n p)"
proof (induction n)
  case 0
  have "p_many 0 p = p_return []"
    by (simp add: fun_eq_iff p_return_def)
  then show ?case by (simp add: layout)
next
  case (Suc n)
  then show ?case
    unfolding p_many_Suc by (intro layout)
qed

lemma prefix_strict_bytes [layout]: "prefix_strict p_bytes"
  unfolding p_bytes_def by (intro layout)

lemma prefix_strict_list [layout]: "prefix_strict p \<Longrightarrow> prefix_strict (p_list p)"
  unfolding p_list_def by (intro layout)

lemma prefix_strict_word [layout]: "prefix_strict (p_word k)"
  unfolding p_word_def by (intro layout)

end
