(* ===== verification/Store.thy ===== *)
theory Store
  imports Kave_Map
begin

text \<open>
  \<^verbatim>\<open>src/store/mod.rs\<close>: operations and transactions, the contract of the \<^verbatim>\<open>Store\<close>
  trait, and the in-memory store.  The contract is the locale \<open>kv_store\<close>: a store has a view,
  a partial map from keys to values; a transaction applies its operations to the view in order,
  a scan returns the values of a key range in key order, and a get returns the value of a key.
  A store may also take internal steps (a flush, say) that leave the view alone.  Two stores
  that satisfy the contract answer every sequence of calls alike.
\<close>

section \<open>Operations and transactions\<close>

datatype operation = Set rstring bytes | Delete rstring

record transaction =
  tx_id :: uuid
  operations :: "operation list"

definition operation_set :: "rstring \<Rightarrow> bytes \<Rightarrow> operation" where
  "operation_set key value = Set key value"

definition operation_delete :: "rstring \<Rightarrow> operation" where
  "operation_delete key = Delete key"

definition transaction_new :: "uuid \<Rightarrow> operation list \<Rightarrow> transaction" where
  "transaction_new i ops = \<lparr>tx_id = i, operations = ops\<rparr>"

text \<open>The random identifier drawn by \<^verbatim>\<open>Uuid::new_v4\<close> is an argument.\<close>

definition with_random_id :: "uuid \<Rightarrow> operation list \<Rightarrow> transaction" where
  "with_random_id i ops = \<lparr>tx_id = i, operations = ops\<rparr>"

section \<open>The contract of a store\<close>

type_synonym view = "rstring \<rightharpoonup> bytes"

fun apply_op :: "operation \<Rightarrow> view \<Rightarrow> view" where
  "apply_op (Set k v) m = m(k \<mapsto> v)"
| "apply_op (Delete k) m = m(k := None)"

definition apply_ops :: "operation list \<Rightarrow> view \<Rightarrow> view" where
  "apply_ops ops m = fold apply_op ops m"

datatype store_call =
    Call_get rstring
  | Call_scan rstring rstring
  | Call_transact transaction

datatype store_reply =
    Got "bytes option result"
  | Scanned "bytes list result"
  | Transacted "unit result"

text \<open>
  A run of a store: calls answered one after the other, with internal steps in between.
\<close>

inductive store_run ::
    "('s \<Rightarrow> 's \<Rightarrow> bool) \<Rightarrow> (rstring \<Rightarrow> ('s, bytes option) action) \<Rightarrow>
     (rstring \<Rightarrow> rstring \<Rightarrow> ('s, bytes list) action) \<Rightarrow> (transaction \<Rightarrow> ('s, unit) action) \<Rightarrow>
     's \<Rightarrow> store_call list \<Rightarrow> store_reply list \<Rightarrow> 's \<Rightarrow> bool"
  for internal get scan transact where
  run_done: "store_run internal get scan transact s [] [] s"
| run_internal:
    "internal s s' \<Longrightarrow> store_run internal get scan transact s' cs rs t \<Longrightarrow>
     store_run internal get scan transact s cs rs t"
| run_get:
    "get k s = (r, s') \<Longrightarrow> store_run internal get scan transact s' cs rs t \<Longrightarrow>
     store_run internal get scan transact s (Call_get k # cs) (Got r # rs) t"
| run_scan:
    "scan a b s = (r, s') \<Longrightarrow> store_run internal get scan transact s' cs rs t \<Longrightarrow>
     store_run internal get scan transact s (Call_scan a b # cs) (Scanned r # rs) t"
| run_transact:
    "transact tx s = (r, s') \<Longrightarrow> store_run internal get scan transact s' cs rs t \<Longrightarrow>
     store_run internal get scan transact s (Call_transact tx # cs) (Transacted r # rs) t"

inductive_cases store_run_NilE: "store_run i g sc t s [] rs s'"
inductive_cases store_run_GetE: "store_run i g sc t s (Call_get k # cs) rs s'"
inductive_cases store_run_ScanE: "store_run i g sc t s (Call_scan a b # cs) rs s'"
inductive_cases store_run_TransactE: "store_run i g sc t s (Call_transact tx # cs) rs s'"

text \<open>The answers a view gives to a sequence of calls, and the calls a store must accept.\<close>

fun view_replies :: "view \<Rightarrow> store_call list \<Rightarrow> store_reply list" where
  "view_replies m [] = []"
| "view_replies m (Call_get k # cs) = Got (Ok (m k)) # view_replies m cs"
| "view_replies m (Call_scan a b # cs) = Scanned (Ok (range_values m a b)) # view_replies m cs"
| "view_replies m (Call_transact tx # cs) =
     Transacted (Ok ()) # view_replies (apply_ops (operations tx) m) cs"

fun call_ok :: "(transaction \<Rightarrow> bool) \<Rightarrow> store_call \<Rightarrow> bool" where
  "call_ok ok (Call_get k) = True"
| "call_ok ok (Call_scan a b) = (a \<le> b)"
| "call_ok ok (Call_transact tx) = ok tx"

lemma call_ok_mono:
  "list_all (call_ok P) cs \<Longrightarrow> (\<And>tx. P tx \<Longrightarrow> Q tx) \<Longrightarrow> list_all (call_ok Q) cs"
proof (induction cs)
  case (Cons c cs)
  then show ?case by (cases c) auto
qed simp

locale txn_store =
  fixes inv :: "'s \<Rightarrow> bool"
    and view :: "'s \<Rightarrow> view"
    and ok_tx :: "transaction \<Rightarrow> bool"
    and internal :: "'s \<Rightarrow> 's \<Rightarrow> bool"
    and scan :: "rstring \<Rightarrow> rstring \<Rightarrow> ('s, bytes list) action"
    and transact :: "transaction \<Rightarrow> ('s, unit) action"
  assumes scan_law: "inv s \<Longrightarrow> a \<le> b \<Longrightarrow> scan a b s = (Ok (range_values (view s) a b), s)"
    and transact_law: "inv s \<Longrightarrow> ok_tx tx \<Longrightarrow>
      \<exists>s'. transact tx s = (Ok (), s') \<and> inv s' \<and> view s' = apply_ops (operations tx) (view s)"
    and internal_law: "inv s \<Longrightarrow> internal s s' \<Longrightarrow> inv s' \<and> view s' = view s"
begin

lemma transact_view:
  "inv s \<Longrightarrow> ok_tx tx \<Longrightarrow> transact tx s = (r, s') \<Longrightarrow>
   r = Ok () \<and> inv s' \<and> view s' = apply_ops (operations tx) (view s)"
  using transact_law [of s tx] by auto

text \<open>Runs of transactions and scans.\<close>

lemma run_scans:
  "store_run internal get scan transact s cs rs t \<Longrightarrow> inv s \<Longrightarrow> list_all (call_ok ok_tx) cs \<Longrightarrow>
   \<forall>k. Call_get k \<notin> set cs \<Longrightarrow> rs = view_replies (view s) cs \<and> inv t"
proof (induction rule: store_run.induct)
  case (run_internal s s' cs rs t)
  then show ?case using internal_law by metis
next
  case (run_scan a b s r s' cs rs t)
  then show ?case using scan_law by force
next
  case (run_transact tx s r s' cs rs t)
  then show ?case using transact_view by force
qed auto

lemma run_scans_exist:
  "inv s \<Longrightarrow> list_all (call_ok ok_tx) cs \<Longrightarrow> \<forall>k. Call_get k \<notin> set cs \<Longrightarrow>
   \<exists>t. store_run internal get scan transact s cs (view_replies (view s) cs) t"
proof (induction "view s" cs arbitrary: s rule: view_replies.induct)
  case 1
  then show ?case by (auto intro: store_run.run_done)
next
  case (3 a b cs)
  then show ?case using scan_law [of s a b] by (fastforce intro: store_run.run_scan)
next
  case (4 tx cs)
  then obtain s' where s': "transact tx s = (Ok (), s')" "inv s'"
      "view s' = apply_ops (operations tx) (view s)"
    using transact_law by fastforce
  from "4"(1) [OF s'(3) [symmetric] s'(2)] "4.prems"(2,3) obtain t
    where "store_run internal get scan transact s' cs (view_replies (view s') cs) t"
    by auto
  with s' show ?case by (auto intro: store_run.run_transact)
qed auto

end

locale kv_store = txn_store +
  fixes get :: "rstring \<Rightarrow> ('s, bytes option) action"
  assumes get_law: "inv s \<Longrightarrow> get k s = (Ok (view s k), s)"
begin

lemma run_replies:
  "store_run internal get scan transact s cs rs t \<Longrightarrow> inv s \<Longrightarrow> list_all (call_ok ok_tx) cs \<Longrightarrow>
   rs = view_replies (view s) cs \<and> inv t"
proof (induction rule: store_run.induct)
  case (run_internal s s' cs rs t)
  then show ?case using internal_law by metis
next
  case (run_get k s r s' cs rs t)
  then show ?case using get_law by force
next
  case (run_scan a b s r s' cs rs t)
  then show ?case using scan_law by force
next
  case (run_transact tx s r s' cs rs t)
  then show ?case using transact_view by force
qed auto

lemma run_exists:
  "inv s \<Longrightarrow> list_all (call_ok ok_tx) cs \<Longrightarrow>
   \<exists>t. store_run internal get scan transact s cs (view_replies (view s) cs) t \<and> inv t"
proof (induction "view s" cs arbitrary: s rule: view_replies.induct)
  case 1
  then show ?case by (auto intro: store_run.run_done)
next
  case (2 k cs)
  then show ?case using get_law [of s k] by (fastforce intro: store_run.run_get)
next
  case (3 a b cs)
  then show ?case using scan_law [of s a b] by (fastforce intro: store_run.run_scan)
next
  case (4 tx cs)
  then obtain s' where s': "transact tx s = (Ok (), s')" "inv s'"
      "view s' = apply_ops (operations tx) (view s)"
    using transact_law by fastforce
  from "4"(1) [OF s'(3) [symmetric] s'(2)] "4.prems"(2) obtain t
    where "store_run internal get scan transact s' cs (view_replies (view s') cs) t" "inv t"
    by auto
  with s' show ?case by (auto intro: store_run.run_transact)
qed

lemma get_after_set:
  assumes "inv s" and "ok_tx tx" and "transact tx s = (r, s')" and "operations tx = [Set k v]"
  shows "get k s' = (Ok (Some v), s')" and "k' \<noteq> k \<Longrightarrow> get k' s' = (fst (get k' s), s')"
  using assms transact_view [OF assms(1-3)] by (simp_all add: get_law apply_ops_def)

end

text \<open>Two stores side by side.\<close>

locale store_pair =
  A: kv_store inv_a view_a ok_a internal_a scan_a transact_a get_a +
  B: kv_store inv_b view_b ok_b internal_b scan_b transact_b get_b
  for inv_a :: "'a \<Rightarrow> bool" and view_a ok_a internal_a scan_a transact_a get_a
    and inv_b :: "'b \<Rightarrow> bool" and view_b ok_b internal_b scan_b transact_b get_b
begin

lemma same_replies:
  assumes "inv_a s" and "inv_b t" and "view_a s = view_b t"
    and "list_all (call_ok ok_a) cs" and "list_all (call_ok ok_b) cs"
    and "store_run internal_a get_a scan_a transact_a s cs rs s'"
    and "store_run internal_b get_b scan_b transact_b t cs rs' t'"
  shows "rs = rs'"
  using A.run_replies [OF assms(6,1,4)] B.run_replies [OF assms(7,2,5)] assms(3) by simp

end

section \<open>The in-memory store\<close>

record memory_store =
  mem_data :: "(rstring, bytes) btree"

definition memory_store_new :: memory_store where
  "memory_store_new = \<lparr>mem_data = []\<rparr>"

definition mem_get :: "rstring \<Rightarrow> (memory_store, bytes option) action" where
  "mem_get k s = (Ok (bt_get (mem_data s) k), s)"

definition mem_scan :: "rstring \<Rightarrow> rstring \<Rightarrow> (memory_store, bytes list) action" where
  "mem_scan from_inclusive to_exclusive s =
     (rbind (bt_range from_inclusive to_exclusive (mem_data s)) (\<lambda>kvs. Ok (map snd kvs)), s)"

fun mem_instruction :: "operation \<Rightarrow> (rstring, bytes) btree \<Rightarrow> (rstring, bytes) btree" where
  "mem_instruction (Set key val) d = bt_insert key val d"
| "mem_instruction (Delete key) d = bt_remove key d"

definition mem_transact :: "transaction \<Rightarrow> (memory_store, unit) action" where
  "mem_transact tx s = (Ok (), s\<lparr>mem_data := fold mem_instruction (operations tx) (mem_data s)\<rparr>)"

definition mem_inv :: "memory_store \<Rightarrow> bool" where
  "mem_inv s \<longleftrightarrow> bt_wf (mem_data s)"

definition mem_view :: "memory_store \<Rightarrow> view" where
  "mem_view s = map_of (mem_data s)"

lemma mem_inv_new [simp]: "mem_inv memory_store_new"
  by (simp add: mem_inv_def memory_store_new_def)

lemma mem_view_new [simp]: "mem_view memory_store_new = Map.empty"
  by (simp add: mem_view_def memory_store_new_def)

lemma mem_instruction_wf: "bt_wf d \<Longrightarrow> bt_wf (mem_instruction op d)"
  by (cases op) auto

lemma mem_instruction_view: "bt_wf d \<Longrightarrow> map_of (mem_instruction op d) = apply_op op (map_of d)"
  by (cases op) auto

lemma fold_mem_instruction:
  "bt_wf d \<Longrightarrow> bt_wf (fold mem_instruction ops d) \<and>
     map_of (fold mem_instruction ops d) = apply_ops ops (map_of d)"
  by (induction ops arbitrary: d)
    (auto simp: apply_ops_def mem_instruction_wf mem_instruction_view)

interpretation mem: kv_store mem_inv mem_view "\<lambda>_. True" "\<lambda>s s'. s' = s" mem_scan mem_transact mem_get
  by unfold_locales
    (auto simp: mem_scan_def mem_transact_def mem_get_def mem_inv_def mem_view_def bt_range_def
      filter_range_values fold_mem_instruction)

end
