(* ===== verification/Commit_Log.thy ===== *)
theory Commit_Log
  imports Kave_FS Kave_Codec Store "HOL-Library.Multiset"
begin

text \<open>
  \<^verbatim>\<open>src/store/lsm/commit_log.rs\<close>: the append-only log of transactions.  A line is its
  serialized size as a big-endian 64-bit integer followed by the serialized line.  The log is
  replayed on startup; \<open>open_txs\<close> says which transactions a sequence of lines leaves
  unfinished, and the theorems relate the replay loop to it, on complete logs, on logs whose
  last line was cut off, and under reads that deliver only part of a line.
\<close>

section \<open>Lines\<close>

datatype commit_log_line = BeginTx transaction | EndTx uuid

definition encode :: "commit_log_line codec \<Rightarrow> commit_log_line \<Rightarrow> bytes result" where
  "encode C line =
     rbind (of_option Err_Bincode (ser_size C line)) (\<lambda>size.
     rbind (of_option Err_Bincode (ser C line)) (\<lambda>b.
     Ok (u64_to_be size @ b)))"

definition decode_from ::
    "commit_log_line codec \<Rightarrow> read_env \<Rightarrow> (reader, commit_log_line option) action" where
  "decode_from C rd r =
     (case read_u64 rd r of
        (Ok s, r') \<Rightarrow>
          sbind (read_buf rd (unat s))
            (\<lambda>buf. lift_result (case de C buf of Some c \<Rightarrow> Ok (Some c) | None \<Rightarrow> Err Err_Bincode)) r'
      | (Err e, r') \<Rightarrow> (if e = Err_IO UnexpectedEof then (Ok None, r') else (Err e, r'))
      | (Panic p, r') \<Rightarrow> (Panic p, r'))"

section \<open>The log\<close>

record commit_log =
  log_path :: path
  logfile :: bool

definition commit_log_new :: "path \<Rightarrow> commit_log" where
  "commit_log_new p = \<lparr>log_path = p, logfile = False\<rparr>"

definition on_fs :: "(fs, 'a) action \<Rightarrow> (commit_log \<times> fs, 'a) action" where
  "on_fs act st = (case act (snd st) of (r, s') \<Rightarrow> (r, (fst st, s')))"

definition get_write_handle :: "(commit_log \<times> fs, unit) action" where
  "get_write_handle st =
     (if logfile (fst st) then (Ok (), st)
      else (case fs_open_create (log_path (fst st)) (snd st) of
              (Ok _, s') \<Rightarrow> (Ok (), ((fst st)\<lparr>logfile := True\<rparr>, s'))
            | (Err e, s') \<Rightarrow> (Err e, (fst st, s'))
            | (Panic p, s') \<Rightarrow> (Panic p, (fst st, s'))))"

definition append_line :: "commit_log_line codec \<Rightarrow> commit_log_line \<Rightarrow> (commit_log \<times> fs, unit) action" where
  "append_line C line =
     sbind (lift_result (encode C line)) (\<lambda>b.
     sbind get_write_handle (\<lambda>_ st.
     sbind (on_fs (fs_append_all (log_path (fst st)) b)) (\<lambda>_.
     on_fs fs_sync_all) st))"

definition begin_transaction :: "commit_log_line codec \<Rightarrow> transaction \<Rightarrow> (commit_log \<times> fs, unit) action" where
  "begin_transaction C tx = append_line C (BeginTx tx)"

definition end_transaction :: "commit_log_line codec \<Rightarrow> uuid \<Rightarrow> (commit_log \<times> fs, unit) action" where
  "end_transaction C i = append_line C (EndTx i)"

text \<open>
  The replay loop.  The line counter is a 32-bit signed integer; incrementing it past its
  maximum is an arithmetic overflow.
\<close>

type_synonym tx_table = "(uuid, nat \<times> transaction) btree"

fun replay_line :: "nat \<Rightarrow> commit_log_line \<Rightarrow> tx_table \<Rightarrow> tx_table" where
  "replay_line i (BeginTx tx) txs = bt_insert (tx_id tx) (i, tx) txs"
| "replay_line i (EndTx u) txs = bt_remove u txs"

lemma decode_from_shorter:
  "decode_from C rd r = (Ok (Some line), r') \<Longrightarrow> length (ahead r') < length (ahead r)"
  by (auto simp: decode_from_def read_u64_def read_buf_def sbind_def lift_result_def Let_def
      split: sum.splits if_splits result.splits option.splits prod.splits)

function replay_loop ::
    "commit_log_line codec \<Rightarrow> read_env \<Rightarrow> reader \<Rightarrow> nat \<Rightarrow> tx_table \<Rightarrow> tx_table result" where
  "replay_loop C rd r i txs =
     (case decode_from C rd r of
        (Ok (Some line), r') \<Rightarrow>
          (let txs' = replay_line i line txs
           in if i + 1 < 2 ^ 31 then replay_loop C rd r' (i + 1) txs'
              else Panic ''attempt to add with overflow'')
      | (Ok None, r') \<Rightarrow> Ok txs
      | (Err e, r') \<Rightarrow> Err e
      | (Panic p, r') \<Rightarrow> Panic p)"
  by pat_completeness auto
termination
  by (relation "measure (\<lambda>(C, rd, r, i, txs). length (ahead r))") (auto dest: decode_from_shorter [OF sym])

declare replay_loop.simps [simp del]

definition get_unfinished_transactions ::
    "commit_log_line codec \<Rightarrow> read_env \<Rightarrow> commit_log \<Rightarrow> (fs, transaction list) action" where
  "get_unfinished_transactions C rd cl =
     sbind (fs_open_create (log_path cl)) (\<lambda>_ s.
       lift_result
         (case file_of (log_path cl) s of
            None \<Rightarrow> Err (Err_IO NotFound)
          | Some c \<Rightarrow>
              rbind (replay_loop C rd (reader_at c 0) 0 []) (\<lambda>txs.
              Ok (map snd (sort_key fst (map snd txs))))) s)"

section \<open>What a log means\<close>

fun line_id :: "commit_log_line \<Rightarrow> uuid" where
  "line_id (BeginTx tx) = tx_id tx"
| "line_id (EndTx u) = u"

text \<open>
  The unfinished transactions: those begun by a line that no later line with the same
  identifier follows, in the order they were begun.
\<close>

fun open_txs :: "commit_log_line list \<Rightarrow> transaction list" where
  "open_txs [] = []"
| "open_txs (BeginTx tx # ls) =
     (if tx_id tx \<in> line_id ` set ls then open_txs ls else tx # open_txs ls)"
| "open_txs (EndTx u # ls) = open_txs ls"

text \<open>The contents of a log that holds the given lines.\<close>

fun encode_all :: "commit_log_line codec \<Rightarrow> commit_log_line list \<Rightarrow> bytes result" where
  "encode_all C [] = Ok []"
| "encode_all C (l # ls) =
     rbind (encode C l) (\<lambda>b. rbind (encode_all C ls) (\<lambda>r. Ok (b @ r)))"

lemma encode_all_append:
  "encode_all C xs = Ok ys \<Longrightarrow> encode_all C ls = Ok zs \<Longrightarrow> encode_all C (xs @ ls) = Ok (ys @ zs)"
  by (induction xs arbitrary: ys) (auto simp: rbind_eq_Ok_iff)

lemma encode_all_snoc:
  "encode_all C xs = Ok ys \<Longrightarrow> encode C l = Ok zs \<Longrightarrow> encode_all C (xs @ [l]) = Ok (ys @ zs)"
  using encode_all_append [of C xs ys "[l]" zs] by simp

text \<open>
  The body of a line is read by a single call.  The lines of a log are whole, from a position
  on, when that call delivers all of the body of each of them; a log can be replayed when its
  lines are whole and few enough to be counted.
\<close>

function lines_whole :: "read_env \<Rightarrow> nat \<Rightarrow> bytes \<Rightarrow> bool" where
  "lines_whole rd p b =
     (if length b < 8 then True
      else let n = unat (u64_from_be (take 8 b))
           in read_whole rd (p + 8) n \<and> lines_whole rd (p + 8 + n) (drop (8 + n) b))"
  by pat_completeness auto
termination
  by (relation "measure (\<lambda>(rd, p, b). length b)") auto

declare lines_whole.simps [simp del]

definition log_readable :: "read_env \<Rightarrow> bytes \<Rightarrow> bool" where
  "log_readable rd b \<longleftrightarrow> length b < 2 ^ 31 \<and> lines_whole rd 0 b"

subsection \<open>Lines survive encoding\<close>

lemma encode_eq_Ok:
  "codec_ok C \<Longrightarrow> encode C l = Ok b \<longleftrightarrow>
     (\<exists>n c. ser C l = Some c \<and> ser_size C l = Some n \<and> unat n = length c \<and> b = u64_to_be n @ c)"
  by (auto simp: encode_def rbind_eq_Ok_iff dest: codec_okD(3))

lemma lines_whole_short: "length b < 8 \<Longrightarrow> lines_whole rd p b"
  by (simp add: lines_whole.simps)

lemma lines_whole_Nil [simp]: "lines_whole rd p []"
  by (simp add: lines_whole_short)

lemma lines_whole_line:
  assumes "codec_ok C" and "encode C l = Ok b"
  shows "lines_whole rd p (b @ rest) \<longleftrightarrow>
    read_whole rd (p + 8) (length b - 8) \<and> lines_whole rd (p + length b) rest"
  using assms by (subst lines_whole.simps) (auto simp: encode_eq_Ok Let_def add.assoc)

lemma encode_all_length: "encode_all C ls = Ok b \<Longrightarrow> length ls \<le> length b"
proof (induction ls arbitrary: b)
  case (Cons l ls)
  then obtain b1 b2 where "encode C l = Ok b1" "encode_all C ls = Ok b2" "b = b1 @ b2"
    by (auto simp: rbind_eq_Ok_iff)
  moreover from this have "8 \<le> length b1"
    by (auto simp: encode_def rbind_eq_Ok_iff)
  ultimately show ?case
    using Cons.IH by fastforce
qed simp

lemma lines_whole_append:
  assumes C: "codec_ok C"
  shows "encode_all C ls = Ok b \<Longrightarrow>
    lines_whole rd p (b @ rest) \<longleftrightarrow> lines_whole rd p b \<and> lines_whole rd (p + length b) rest"
proof (induction ls arbitrary: b p)
  case (Cons l ls)
  then obtain b1 b2 where "encode C l = Ok b1" "encode_all C ls = Ok b2" "b = b1 @ b2"
    by (auto simp: rbind_eq_Ok_iff)
  with Cons.IH lines_whole_line [OF C] show ?case
    by (auto simp: add.assoc)
qed simp

lemma log_readable_Nil [simp]: "log_readable rd []"
  by (simp add: log_readable_def)

lemma log_readable_prefix:
  "codec_ok C \<Longrightarrow> encode_all C ls = Ok b \<Longrightarrow> log_readable rd (b @ rest) \<Longrightarrow> log_readable rd b"
  using lines_whole_append by (fastforce simp: log_readable_def)

lemma log_readable_lines:
  "encode_all C ls = Ok b \<Longrightarrow> log_readable rd b \<Longrightarrow> length ls < 2 ^ 31"
  using encode_all_length [of C ls b] by (simp add: log_readable_def)

lemma decode_encode:
  assumes C: "codec_ok C" and l: "encode C l = Ok b" and rd: "size_reads rd"
    and whole: "read_whole rd (pos r + 8) (length b - 8)" and r: "ahead r = b @ rest"
  shows "decode_from C rd r = (Ok (Some l), advance (length b) r)"
proof -
  obtain n c where c: "ser C l = Some c" "ser_size C l = Some n" "unat n = length c" "b = u64_to_be n @ c"
    using l by (auto simp: encode_eq_Ok [OF C])
  have u: "read_u64 rd r = (Ok n, advance 8 r)"
    using r c by (intro read_u64_ok [OF rd]) simp
  have b: "read_buf rd (unat n) (advance 8 r) = (Ok c, advance (length b) r)"
    using r c whole by (simp add: read_buf_whole add.commute)
  show ?thesis
    using codec_okD(2) [OF C c(1)] by (simp add: decode_from_def u b lift_result_def)
qed

lemma decode_short_header:
  assumes "size_reads rd" and "length (ahead r) < 8"
  shows "\<exists>r'. decode_from C rd r = (Ok None, r')"
  using assms by (simp add: decode_from_def read_u64_short)

text \<open>A single call that delivers less than the body of the line: decoding fails.\<close>

lemma decode_part:
  assumes C: "codec_ok C" "codec_strict C" and l: "encode C l = Ok b" and rd: "size_reads rd"
    and r: "ahead r = take n b @ rest" "8 \<le> n"
    and part: "rd (pos r + 8) (length b - 8) = Inr m"
      "min m (min (length b - 8) (length (ahead r) - 8)) \<le> n - 8" "min m (length (ahead r) - 8) < length b - 8"
  shows "\<exists>r'. decode_from C rd r = (Err Err_Bincode, r')"
proof -
  obtain k c where c: "ser C l = Some c" "ser_size C l = Some k" "unat k = length c" "b = u64_to_be k @ c"
    using l by (auto simp: encode_eq_Ok [OF C(1)])
  have ah: "ahead r = u64_to_be k @ take (n - 8) c @ rest"
    using r c(4) by simp
  have u: "read_u64 rd r = (Ok k, advance 8 r)"
    by (rule read_u64_ok [OF rd ah])
  define j where "j = min m (min (length c) (length (take (n - 8) c @ rest)))"
  have j: "j < length c" "j \<le> n - 8"
    using part(2,3) c(4) ah by (auto simp: j_def min_less_iff_disj)
  have "read_buf rd (unat k) (advance 8 r) = (Ok (take j (take (n - 8) c @ rest)), advance j (advance 8 r))"
    using part(1) c(3,4) ah by (simp add: read_buf_def Let_def j_def del: take_append)
  moreover have "take j (take (n - 8) c @ rest) = take j c"
    using j by (simp add: min_def)
  moreover have "de C (take j c) = None"
    using C(2) c(1) j(1) by (simp add: codec_strict_def)
  ultimately show ?thesis
    by (simp add: decode_from_def u lift_result_def)
qed

subsection \<open>The replay table\<close>

lemma open_txs_ids: "u \<in> set (open_txs ls) \<Longrightarrow> tx_id u \<in> line_id ` set ls"
  by (induction ls rule: open_txs.induct) (auto split: if_splits)

lemma open_txs_snoc_begin:
  "open_txs (ls @ [BeginTx t]) = filter (\<lambda>u. tx_id u \<noteq> tx_id t) (open_txs ls) @ [t]"
  by (induction ls rule: open_txs.induct) (auto simp: image_iff)

lemma open_txs_snoc_end:
  "open_txs (ls @ [EndTx i]) = filter (\<lambda>u. tx_id u \<noteq> i) (open_txs ls)"
  by (induction ls rule: open_txs.induct) (auto simp: image_iff)

text \<open>
  The table built from some lines: its values, sorted by line number, are the unfinished
  transactions.
\<close>

definition table_ok :: "commit_log_line list \<Rightarrow> tx_table \<Rightarrow> bool" where
  "table_ok ls txs \<longleftrightarrow> bt_wf txs \<and>
     (\<exists>L. mset (map snd txs) = mset L \<and> sorted_wrt (<) (map fst L) \<and> map snd L = open_txs ls \<and>
          (\<forall>e \<in> set L. fst e < length ls) \<and> (\<forall>e \<in> set txs. tx_id (snd (snd e)) = fst e))"

lemma mset_bt_remove:
  "bt_wf m \<Longrightarrow> \<forall>e \<in> set m. g (snd e) = fst e \<Longrightarrow>
   mset (map snd (bt_remove k m)) = mset (filter (\<lambda>v. g v \<noteq> k) (map snd m))"
proof (induction k m rule: bt_remove.induct)
  case (2 k k' v' r)
  show ?case
  proof (cases "k = k'")
    case True
    with 2 have "\<forall>v \<in> set (map snd r). g v \<noteq> k"
      by (auto simp: bt_wf_Cons)
    then have "filter (\<lambda>v. g v \<noteq> k) (map snd r) = map snd r"
      by (simp add: filter_id_conv)
    with True 2 show ?thesis by simp
  next
    case False
    with 2 show ?thesis by (simp add: bt_wf_Cons)
  qed
qed simp

lemma bt_remove_absent: "k \<notin> fst ` set m \<Longrightarrow> bt_remove k m = m"
  by (induction k m rule: bt_remove.induct) auto

lemma mset_bt_insert:
  "bt_wf m \<Longrightarrow> mset (map snd (bt_insert k v m)) = add_mset v (mset (map snd (bt_remove k m)))"
proof (induction k v m rule: bt_insert.induct)
  case (2 k v k' v' r)
  have "bt_remove k r = r" if "k < k'"
    using that 2(2) by (intro bt_remove_absent) (force simp: bt_wf_Cons)
  with 2 show ?case by (auto simp: bt_wf_Cons)
qed simp

lemma set_bt_insert: "set (bt_insert k v m) \<subseteq> insert (k, v) (set m)"
  by (induction k v m rule: bt_insert.induct) auto

lemma set_bt_remove: "set (bt_remove k m) \<subseteq> set m"
  by (induction k m rule: bt_remove.induct) auto

lemma table_ok_step:
  assumes "table_ok ls txs"
  shows "table_ok (ls @ [l]) (replay_line (length ls) l txs)"
proof -
  obtain L where wf: "bt_wf txs" and L: "mset (map snd txs) = mset L" "sorted_wrt (<) (map fst L)"
      "map snd L = open_txs ls" "\<forall>e \<in> set L. fst e < length ls"
    and ids: "\<forall>e \<in> set txs. tx_id (snd (snd e)) = fst e"
    using assms by (auto simp: table_ok_def)
  define F where "F = (\<lambda>u. filter (\<lambda>v. tx_id (snd v) \<noteq> u) L)"
  have F: "mset (map snd (bt_remove u txs)) = mset (F u)" for u
    using mset_bt_remove [OF wf, of "\<lambda>v. tx_id (snd v)" u] ids L(1) by (simp add: F_def mset_filter)
  have srt: "sorted_wrt (<) (map fst (F u))" for u
    using L(2) by (simp add: F_def sorted_wrt_map sorted_wrt_filter)
  have snds: "map snd (F u) = filter (\<lambda>t. tx_id t \<noteq> u) (open_txs ls)" for u
    using L(3) by (simp add: F_def filter_map comp_def flip: L(3))
  have less: "\<forall>e \<in> set (F u). fst e < length ls" for u
    using L(4) by (simp add: F_def)
  show ?thesis
  proof (cases l)
    case (BeginTx t)
    show ?thesis
      unfolding table_ok_def
    proof (intro conjI exI [of _ "F (tx_id t) @ [(length ls, t)]"])
      show "bt_wf (replay_line (length ls) l txs)"
        using wf BeginTx by simp
      show "mset (map snd (replay_line (length ls) l txs)) = mset (F (tx_id t) @ [(length ls, t)])"
        using BeginTx F [of "tx_id t"] mset_bt_insert [OF wf, of "tx_id t" "(length ls, t)"] by simp
      show "\<forall>e \<in> set (replay_line (length ls) l txs). tx_id (snd (snd e)) = fst e"
        using ids BeginTx set_bt_insert [of "tx_id t" "(length ls, t)" txs] by auto
    qed (use BeginTx srt snds less in \<open>auto simp: sorted_wrt_append open_txs_snoc_begin less_Suc_eq\<close>)
  next
    case (EndTx u)
    show ?thesis
      unfolding table_ok_def
    proof (intro conjI exI [of _ "F u"])
      show "mset (map snd (replay_line (length ls) l txs)) = mset (F u)"
        using EndTx F [of u] by simp
      show "\<forall>e \<in> set (replay_line (length ls) l txs). tx_id (snd (snd e)) = fst e"
        using ids EndTx set_bt_remove [of u txs] by auto
    qed (use EndTx wf srt snds less in \<open>auto simp: open_txs_snoc_end less_Suc_eq\<close>)
  qed
qed

lemma table_ok_sorted:
  assumes "table_ok ls txs"
  shows "map snd (sort_key fst (map snd txs)) = open_txs ls"
proof -
  obtain L where L: "mset (map snd txs) = mset L" "sorted_wrt (<) (map fst L)" "map snd L = open_txs ls"
    using assms by (auto simp: table_ok_def)
  have "inj_on fst (set (map snd txs))"
    using L(1,2) by (metis distinct_map mset_eq_setD strict_sorted_iff)
  then have "sort_key fst (map snd txs) = L"
    using L(1,2) by (intro sort_key_inj_key_eq) (auto simp: strict_sorted_iff)
  with L(3) show ?thesis by simp
qed

text \<open>Replaying lines that are followed by anything, from a table for the lines before them.\<close>

lemma replay_loop_lines:
  assumes C: "codec_ok C" and rd: "size_reads rd"
  shows "encode_all C ls = Ok b \<Longrightarrow> lines_whole rd (pos r) b \<Longrightarrow> ahead r = b @ rest \<Longrightarrow>
     table_ok ps txs \<Longrightarrow> length ps + length ls < 2 ^ 31 \<Longrightarrow>
     \<exists>txs'. table_ok (ps @ ls) txs' \<and>
       replay_loop C rd r (length ps) txs =
       replay_loop C rd (advance (length b) r) (length (ps @ ls)) txs'"
proof (induction ls arbitrary: b r ps txs)
  case Nil
  then show ?case by auto
next
  case (Cons l ls)
  obtain b1 b2 where b: "encode C l = Ok b1" "encode_all C ls = Ok b2" "b = b1 @ b2"
    using Cons.prems(1) by (auto simp: rbind_eq_Ok_iff)
  have whole: "read_whole rd (pos r + 8) (length b1 - 8)" "lines_whole rd (pos (advance (length b1) r)) b2"
    using Cons.prems(2) lines_whole_line [OF C b(1)] b(3) by simp_all
  have dec: "decode_from C rd r = (Ok (Some l), advance (length b1) r)"
    using Cons.prems(3) b(3) by (intro decode_encode [OF C b(1) rd whole(1)]) simp
  have step: "table_ok (ps @ [l]) (replay_line (length ps) l txs)"
    using Cons.prems(4) by (rule table_ok_step)
  have ahd: "ahead (advance (length b1) r) = b2 @ rest"
    using Cons.prems(3) b(3) by simp
  obtain txs' where t: "table_ok ((ps @ [l]) @ ls) txs'"
      "replay_loop C rd (advance (length b1) r) (length (ps @ [l])) (replay_line (length ps) l txs) =
       replay_loop C rd (advance (length b2) (advance (length b1) r)) (length ((ps @ [l]) @ ls)) txs'"
    using Cons.IH [OF b(2) whole(2) ahd step] Cons.prems(5) by auto
  have "replay_loop C rd r (length ps) txs =
      replay_loop C rd (advance (length b1) r) (length (ps @ [l])) (replay_line (length ps) l txs)"
    using Cons.prems(5) by (subst replay_loop.simps) (simp add: dec)
  with t b(3) show ?case
    by (intro exI [of _ txs']) (simp add: add.commute add.left_commute)
qed

lemma table_ok_empty: "table_ok [] []"
  by (simp add: table_ok_def)

lemma replay_loop_end:
  assumes "size_reads rd" and "length (ahead r) < 8"
  shows "replay_loop C rd r i txs = Ok txs"
  using decode_short_header [OF assms, of C] by (subst replay_loop.simps) auto

text \<open>A log of complete lines followed by a tail: the replay of the tail decides.\<close>

lemma get_unfinished_tail:
  assumes "codec_ok C" and "size_reads rd" and "encode_all C ls = Ok b" and "log_readable rd b"
    and "faults s = []" and "file_of (log_path cl) s = Some (b @ rest)"
  shows "\<exists>txs. table_ok ls txs \<and>
    get_unfinished_transactions C rd cl s =
      (rbind (replay_loop C rd (reader_at (b @ rest) (length b)) (length ls) txs)
         (\<lambda>t. Ok (map snd (sort_key fst (map snd t)))), s)"
proof -
  obtain txs where "table_ok ([] @ ls) txs"
      "replay_loop C rd (reader_at (b @ rest) 0) (length ([] :: commit_log_line list)) [] =
       replay_loop C rd (advance (length b) (reader_at (b @ rest) 0)) (length ([] @ ls)) txs"
    using replay_loop_lines [OF assms(1,2,3), of "reader_at (b @ rest) 0" rest "[]" "[]"]
      assms(4) log_readable_lines [OF assms(3,4)] table_ok_empty by (auto simp: log_readable_def)
  with assms(5,6) show ?thesis
    by (intro exI [of _ txs])
      (simp add: get_unfinished_transactions_def fs_simps lift_result_def)
qed

lemma replay_lines:
  assumes "codec_ok C" and "size_reads rd" and "encode_all C ls = Ok b" and "log_readable rd b"
    and "faults s = []" and "file_of (log_path cl) s = Some (b @ rest)" and "length rest < 8"
  shows "get_unfinished_transactions C rd cl s = (Ok (open_txs ls), s)"
proof -
  obtain txs where t: "table_ok ls txs"
      "get_unfinished_transactions C rd cl s =
       (rbind (replay_loop C rd (reader_at (b @ rest) (length b)) (length ls) txs)
         (\<lambda>t. Ok (map snd (sort_key fst (map snd t)))), s)"
    using get_unfinished_tail [OF assms(1-6)] by blast
  have "replay_loop C rd (reader_at (b @ rest) (length b)) (length ls) txs = Ok txs"
    using assms(7) by (intro replay_loop_end [OF assms(2)]) simp
  with t show ?thesis by (simp add: table_ok_sorted)
qed

text \<open>
  A line of which the single read delivers less than its body, because the file ends in the
  middle of it or because the read stops early, makes the replay fail.
\<close>

lemma replay_part:
  assumes "codec_ok C" and "codec_strict C" and "size_reads rd"
    and "encode_all C ls = Ok b" and "log_readable rd b" and "encode C l = Ok lb" and "8 \<le> n"
    and "faults s = []" and "file_of (log_path cl) s = Some (b @ take n lb @ tail)"
    and "rd (length b + 8) (length lb - 8) = Inr m"
    and "n < length lb \<and> tail = [] \<or> n = length lb \<and> m < length lb - 8"
  shows "get_unfinished_transactions C rd cl s = (Err Err_Bincode, s)"
proof -
  let ?r = "reader_at (b @ take n lb @ tail) (length b)"
  obtain r' where "decode_from C rd ?r = (Err Err_Bincode, r')"
    using decode_part [OF assms(1,2,6,3), of ?r n tail m] assms(7,10,11) diff_less_mono [of n "length lb" 8]
    by (auto simp: min_less_iff_disj)
  then have "replay_loop C rd ?r (length ls) txs = Err Err_Bincode" for txs
    by (subst replay_loop.simps) simp
  with get_unfinished_tail [OF assms(1,3,4,5,8,9)] show ?thesis
    by auto
qed

section \<open>Appending a line\<close>

definition log_bytes :: "commit_log \<Rightarrow> fs \<Rightarrow> bytes" where
  "log_bytes cl s = (case file_of (log_path cl) s of None \<Rightarrow> [] | Some c \<Rightarrow> c)"

text \<open>An open log has its file.\<close>

definition log_ready :: "commit_log \<Rightarrow> fs \<Rightarrow> bool" where
  "log_ready cl s \<longleftrightarrow> (logfile cl \<longrightarrow> file_of (log_path cl) s \<noteq> None)"

lemma get_write_handle_ok:
  assumes "faults s = []" and "log_ready cl s"
  shows "\<exists>s'. get_write_handle (cl, s) = (Ok (), (cl\<lparr>logfile := True\<rparr>, s')) \<and>
     file_of (log_path cl) s' = Some (log_bytes cl s) \<and>
     (\<forall>q. q \<noteq> log_path cl \<longrightarrow> bt_get (files s') q = bt_get (files s) q) \<and>
     faults s' = [] \<and> clock s' = clock s \<and> (bt_wf (files s) \<longrightarrow> bt_wf (files s'))"
proof (cases "file_of (log_path cl) s")
  case None
  with assms show ?thesis
    by (simp add: get_write_handle_def log_ready_def fs_simps log_bytes_def)
next
  case (Some c)
  have "cl\<lparr>logfile := True\<rparr> = cl" if "logfile cl"
    using that by (cases cl) simp
  with Some assms show ?thesis
    by (simp add: get_write_handle_def fs_simps log_bytes_def)
qed

lemma append_line_ok:
  assumes "faults s = []" and "log_ready cl s" and "encode C l = Ok b"
  shows "\<exists>s'. append_line C l (cl, s) = (Ok (), (cl\<lparr>logfile := True\<rparr>, s')) \<and>
     file_of (log_path cl) s' = Some (log_bytes cl s @ b) \<and>
     map_option mtime (bt_get (files s') (log_path cl)) = Some (clock s) \<and>
     (\<forall>q. q \<noteq> log_path cl \<longrightarrow> bt_get (files s') q = bt_get (files s) q) \<and>
     faults s' = [] \<and> clock s' = clock s \<and> (bt_wf (files s) \<longrightarrow> bt_wf (files s'))"
proof -
  obtain s1 where s1: "get_write_handle (cl, s) = (Ok (), (cl\<lparr>logfile := True\<rparr>, s1))"
      "file_of (log_path cl) s1 = Some (log_bytes cl s)"
      "\<forall>q. q \<noteq> log_path cl \<longrightarrow> bt_get (files s1) q = bt_get (files s) q"
      "faults s1 = []" "clock s1 = clock s" "bt_wf (files s) \<longrightarrow> bt_wf (files s1)"
    using get_write_handle_ok [OF assms(1,2)] by blast
  show ?thesis
    using s1 assms(3)
    by (intro exI [of _ "put_file (log_path cl) (log_bytes cl s @ b) s1"])
      (simp add: append_line_def lift_result_def on_fs_def fs_simps)
qed

text \<open>The same under any schedule of faults.\<close>

lemma next_fault_files: "next_fault s = (f, s') \<Longrightarrow> files s' = files s \<and> clock s' = clock s"
  by (auto simp: next_fault_def split: list.splits)

lemma file_of_cong: "files s' = files s \<Longrightarrow> file_of p s' = file_of p s"
  by (simp add: file_of_def)

lemma get_write_handle_any:
  assumes "log_ready cl s" and "get_write_handle (cl, s) = (r, (cl', s'))"
  shows "log_path cl' = log_path cl \<and> log_bytes cl s' = log_bytes cl s \<and> log_ready cl' s' \<and>
     (\<forall>q. q \<noteq> log_path cl \<longrightarrow> bt_get (files s') q = bt_get (files s) q) \<and>
     (r = Ok () \<and> file_of (log_path cl) s' \<noteq> None \<or> r = Err (Err_IO OtherIO))"
proof (cases "logfile cl")
  case True
  with assms show ?thesis
    by (auto simp: get_write_handle_def log_ready_def)
next
  case False
  obtain f s1 where f: "next_fault s = (f, s1)"
    by (cases "next_fault s")
  note nf = next_fault_files [OF f]
  show ?thesis
    using False assms f nf
    by (cases f; cases "bt_get (files s) (log_path cl)")
      (auto simp: get_write_handle_def fs_open_create_def fs_call_def log_ready_def log_bytes_def
        file_of_def)
qed

lemma fs_append_all_any:
  assumes "file_of p s = Some c" and "fs_append_all p b s = (r, s')"
  shows "(\<exists>n \<le> length b. file_of p s' = Some (c @ take n b) \<and> (r = Ok () \<longrightarrow> n = length b)) \<and>
     (\<forall>q. q \<noteq> p \<longrightarrow> bt_get (files s') q = bt_get (files s) q) \<and>
     (r = Ok () \<or> r = Err (Err_IO OtherIO))"
proof -
  obtain f s1 where f: "next_fault s = (f, s1)"
    by (cases "next_fault s")
  have s1: "file_of p s1 = Some c" "files s1 = files s"
    using next_fault_files [OF f] assms(1) by (simp_all add: file_of_def)
  show ?thesis
  proof (cases f)
    case None
    with assms(2) f s1 show ?thesis
      by (auto simp: fs_append_all_def fs_call_def append_bytes_eq put_file_def file_of_def)
  next
    case (Some m)
    have "take m b = take (min m (length b)) b"
      by (simp add: min_def)
    with Some assms(2) f s1 show ?thesis
      by (auto simp: fs_append_all_def fs_call_def append_bytes_eq put_file_def file_of_def
          intro!: exI [of _ "min m (length b)"])
  qed
qed

lemma fs_sync_all_any:
  "fs_sync_all s = (r, s') \<Longrightarrow> files s' = files s \<and> (r = Ok () \<or> r = Err (Err_IO OtherIO))"
  by (auto simp: fs_sync_all_def fs_call_def next_fault_def split: option.splits prod.splits list.splits)

lemma append_line_any:
  assumes rdy: "log_ready cl s" and enc: "encode C l = Ok b"
    and app: "append_line C l (cl, s) = (r, (cl', s'))"
  shows "(\<exists>n \<le> length b. log_bytes cl s' = log_bytes cl s @ take n b \<and> (r = Ok () \<longrightarrow> n = length b)) \<and>
     log_path cl' = log_path cl \<and> log_ready cl' s' \<and>
     (\<forall>q. q \<noteq> log_path cl \<longrightarrow> bt_get (files s') q = bt_get (files s) q) \<and>
     (r = Ok () \<or> r = Err (Err_IO OtherIO))"
proof -
  obtain r1 cl1 s1 where 1: "get_write_handle (cl, s) = (r1, (cl1, s1))"
    by (cases "get_write_handle (cl, s)") auto
  note h = get_write_handle_any [OF rdy 1]
  show ?thesis
  proof (cases "r1 = Ok ()")
    case False
    with h 1 app enc show ?thesis
      by (auto simp: append_line_def lift_result_def intro!: exI [of _ 0])
  next
    case True
    with h have c: "file_of (log_path cl) s1 = Some (log_bytes cl s)"
      by (auto simp: log_bytes_def split: option.splits)
    obtain r2 s2 where 2: "fs_append_all (log_path cl) b s1 = (r2, s2)"
      by (cases "fs_append_all (log_path cl) b s1")
    note a = fs_append_all_any [OF c 2]
    then obtain n where n: "n \<le> length b" "file_of (log_path cl) s2 = Some (log_bytes cl s @ take n b)"
        "r2 = Ok () \<longrightarrow> n = length b"
      by auto
    obtain r3 s3 where 3: "fs_sync_all s2 = (r3, s3)"
      by (cases "fs_sync_all s2")
    note y = fs_sync_all_any [OF 3]
    have res: "(r, (cl', s')) = (if r2 = Ok () then (r3, (cl1, s3)) else (r2, (cl1, s2)))"
      using app enc 1 True h a 2 3
      by (auto simp: append_line_def lift_result_def on_fs_def)
    have "files s' = files s2"
      using res y by (auto split: if_splits)
    with res h a y n show ?thesis
      by (auto simp: log_bytes_def log_ready_def file_of_def split: if_splits intro!: exI [of _ n])
  qed
qed

section \<open>Properties of the commit log\<close>

subsection \<open>An instance of the serializer\<close>

definition enc_uuid :: "uuid \<Rightarrow> bytes" where
  "enc_uuid u = le_bytes 8 16 @ enc_word 16 u"

definition p_uuid :: "uuid parser" where
  "p_uuid = p_bind (p_int 8) (\<lambda>n. if n = 16 then p_word 16 else p_fail)"

fun enc_op :: "operation \<Rightarrow> bytes" where
  "enc_op (Set k v) = le_bytes 4 0 @ enc_bytes k @ enc_bytes v"
| "enc_op (Delete k) = le_bytes 4 1 @ enc_bytes k"

definition p_op :: "operation parser" where
  "p_op = p_bind (p_int 4) (\<lambda>t.
     if t = 0 then p_bind p_bytes (\<lambda>k. p_bind p_bytes (\<lambda>v. p_return (Set k v)))
     else if t = 1 then p_bind p_bytes (\<lambda>k. p_return (Delete k))
     else p_fail)"

definition enc_tx :: "transaction \<Rightarrow> bytes" where
  "enc_tx t = enc_uuid (tx_id t) @ enc_list enc_op (operations t)"

definition p_tx :: "transaction parser" where
  "p_tx = p_bind p_uuid (\<lambda>i. p_bind (p_list p_op) (\<lambda>ops. p_return \<lparr>tx_id = i, operations = ops\<rparr>))"

fun enc_line :: "commit_log_line \<Rightarrow> bytes" where
  "enc_line (BeginTx t) = le_bytes 4 0 @ enc_tx t"
| "enc_line (EndTx u) = le_bytes 4 1 @ enc_uuid u"

definition p_line :: "commit_log_line parser" where
  "p_line = p_bind (p_int 4) (\<lambda>t.
     if t = 0 then p_bind p_tx (\<lambda>x. p_return (BeginTx x))
     else if t = 1 then p_bind p_uuid (\<lambda>u. p_return (EndTx u))
     else p_fail)"

definition line_bincode :: "commit_log_line codec" where
  "line_bincode = codec_of enc_line p_line"

lemma p_uuid_enc: "p_uuid (enc_uuid u @ r) = Some (u, r)"
  using readsD [OF reads_word [of 16], of u r]
  by (simp add: p_uuid_def enc_uuid_def layout)

lemma reads_op: "reads p_op enc_op"
  unfolding reads_def
proof (intro allI impI)
  fix op r assume "length (enc_op op) < 2 ^ 64"
  then show "p_op (enc_op op @ r) = Some (op, r)"
    by (cases op) (auto simp: p_op_def layout readsD [OF reads_bytes] p_return_def)
qed

lemma reads_tx: "length (enc_tx t) < 2 ^ 64 \<Longrightarrow> p_tx (enc_tx t @ r) = Some (t, r)"
proof -
  assume "length (enc_tx t) < 2 ^ 64"
  then have "length (enc_list enc_op (operations t)) < 2 ^ 64"
    by (simp add: enc_tx_def)
  moreover have "enc_op op \<noteq> []" for op
    by (cases op) (auto simp: enc_bytes_def simp flip: length_0_conv)
  ultimately show ?thesis
    using readsD [OF reads_list [OF reads_op]]
    by (simp add: p_tx_def enc_tx_def layout p_uuid_enc p_return_def)
qed

lemma reads_line: "reads p_line enc_line"
  unfolding reads_def
proof (intro allI impI)
  fix l r assume "length (enc_line l) < 2 ^ 64"
  then show "p_line (enc_line l @ r) = Some (l, r)"
    by (cases l) (auto simp: p_line_def layout reads_tx p_uuid_enc p_return_def)
qed

lemma line_bincode_ok: "codec_ok line_bincode"
  by (simp add: line_bincode_def codec_of_ok reads_line)

lemma prefix_strict_if [layout]:
  "prefix_strict p \<Longrightarrow> prefix_strict q \<Longrightarrow> prefix_strict (if b then p else q)"
  by simp

lemma line_bincode_strict: "codec_strict line_bincode"
  unfolding line_bincode_def
  by (rule prefix_strict_codec [OF _ reads_line])
    (unfold p_line_def p_tx_def p_uuid_def p_op_def, intro layout)

lemma encode_line_bincode:
  "length (enc_line l) < 2 ^ 64 \<Longrightarrow>
   encode line_bincode l = Ok (u64_to_be (of_nat (length (enc_line l))) @ enc_line l)"
  by (simp add: encode_def line_bincode_def codec_of_def)

text \<open>
  Reads that deliver everything, and the reads of the log as the crate sets them up: the file
  is behind a \<^verbatim>\<open>BufReader\<close>, which delivers at most what its buffer of 8 KiB still
  holds, and the bytes go to an empty vector, which offers room for 64 bytes.
\<close>

definition whole_reads :: read_env where
  "whole_reads p n = Inr n"

definition buffered_reads :: read_env where
  "buffered_reads p n = Inr (min 64 (8192 - p mod 8192))"

lemma full_read_whole [simp]: "full_read whole_reads n"
  by (simp add: full_read_def read_whole_def whole_reads_def)

lemma size_reads_ex [simp]: "size_reads whole_reads" "size_reads buffered_reads"
  by (simp_all add: size_reads_def whole_reads_def buffered_reads_def)

lemma lines_whole_whole [simp]: "lines_whole whole_reads p b"
  by (induction whole_reads p b rule: lines_whole.induct)
    (subst lines_whole.simps, simp add: read_whole_def whole_reads_def Let_def)

text \<open>A log of at most 8 KiB whose lines have bodies of at most 64 bytes is read whole.\<close>

definition small_log :: "commit_log_line codec \<Rightarrow> commit_log_line list \<Rightarrow> bool" where
  "small_log C ls \<longleftrightarrow> list_all (\<lambda>l. case ser C l of None \<Rightarrow> False | Some c \<Rightarrow> length c \<le> 64) ls"

lemma lines_whole_buffered:
  assumes C: "codec_ok C"
  shows "encode_all C ls = Ok b \<Longrightarrow> small_log C ls \<Longrightarrow> p + length b \<le> 8192 \<Longrightarrow> lines_whole buffered_reads p b"
proof (induction ls arbitrary: b p)
  case (Cons l ls)
  then obtain b1 b2 where b: "encode C l = Ok b1" "encode_all C ls = Ok b2" "b = b1 @ b2"
    by (auto simp: rbind_eq_Ok_iff)
  obtain n c where c: "ser C l = Some c" "b1 = u64_to_be n @ c"
    using b(1) by (auto simp: encode_eq_Ok [OF C])
  have "length c \<le> min 64 (8192 - (p + 8) mod 8192)"
    using Cons.prems(2,3) c b(3) by (cases "p + 8 = 8192") (auto simp: small_log_def)
  then have "read_whole buffered_reads (p + 8) (length b1 - 8)"
    using c(2) by (simp add: read_whole_def buffered_reads_def)
  moreover have "lines_whole buffered_reads (p + length b1) b2"
    using Cons.IH [OF b(2)] Cons.prems(2,3) b(3) by (simp add: small_log_def)
  ultimately show ?case
    using lines_whole_line [OF C b(1)] b(3) by simp
qed simp

lemma buffered_log:
  "codec_ok C \<Longrightarrow> encode_all C ls = Ok b \<Longrightarrow> small_log C ls \<Longrightarrow> length b \<le> 8192 \<Longrightarrow> log_readable buffered_reads b"
  using lines_whole_buffered [of C ls b 0] by (simp add: log_readable_def)

definition ex_set :: "uuid \<Rightarrow> string \<Rightarrow> string \<Rightarrow> transaction" where
  "ex_set i k v = with_random_id i [operation_set (bs k) (bs v)]"

definition ex_log :: commit_log where
  "ex_log = commit_log_new [bs ''data'', bs ''commit_log'']"

definition ex_fs :: "bytes \<Rightarrow> fs" where
  "ex_fs c = \<lparr>files = [([bs ''data'', bs ''commit_log''], \<lparr>content = c, mtime = 0\<rparr>)],
             clock = 7, faults = []\<rparr>"

lemma ex_fs_simps [simp]:
  "faults (ex_fs c) = []" "log_path ex_log = [bs ''data'', bs ''commit_log'']" "logfile ex_log = False"
  "file_of [bs ''data'', bs ''commit_log''] (ex_fs c) = Some c"
  by (simp_all add: ex_fs_def ex_log_def commit_log_new_def file_of_def)

subsection \<open>Recovery\<close>



text \<open>
  C28: a log whose last line was cut off after its size was written is not skipped: the replay
  fails with a deserialization error.
\<close>

theorem torn_line_refused:
  assumes "codec_ok C" and "codec_strict C" and "size_reads rd"
    and "encode_all C ls = Ok b" and "log_readable rd b" and "rd (length b + 8) (length lb - 8) = Inr m"
    and "encode C l = Ok lb" and "8 \<le> n" and "n < length lb"
    and "faults s = []" and "file_of (log_path cl) s = Some (b @ take n lb)"
  shows "get_unfinished_transactions C rd cl s = (Err Err_Bincode, s)"
  using assms by (intro replay_part [where n = n and tail = "[]" and m = m]) auto

theorem torn_line_refused_witness:
  "get_unfinished_transactions line_bincode buffered_reads ex_log
     (ex_fs (take 20 (u64_to_be 28 @ enc_line (EndTx 1)))) =
   (Err Err_Bincode, ex_fs (take 20 (u64_to_be 28 @ enc_line (EndTx 1))))"
proof -
  have len: "length (enc_line (EndTx 1)) = 28"
    by code_simp
  have enc: "encode line_bincode (EndTx 1) = Ok (u64_to_be 28 @ enc_line (EndTx 1))"
    by (simp add: encode_line_bincode len del: enc_line.simps)
  show ?thesis
    using torn_line_refused [OF line_bincode_ok line_bincode_strict size_reads_ex(2) _ _ _ enc,
        where ls = "[]" and b = "[]" and n = 20 and cl = ex_log and m = 64]
    by (simp add: len buffered_reads_def log_readable_def del: enc_line.simps take_append)
qed

text \<open>
  The body of a line is read with a single \<^verbatim>\<open>read_buf\<close> call.  When that call delivers
  fewer bytes than the line has, the replay does not ask for the rest: it fails with a
  deserialization error although the log is intact.
\<close>

theorem short_read_refused:
  assumes "codec_ok C" and "codec_strict C" and "size_reads rd"
    and "encode_all C ls = Ok b" and "log_readable rd b"
    and "encode C l = Ok lb" and "rd (length b + 8) (length lb - 8) = Inr m" and "m < length lb - 8"
    and "faults s = []" and "file_of (log_path cl) s = Some (b @ lb @ tail)"
  shows "get_unfinished_transactions C rd cl s = (Err Err_Bincode, s)"
  using assms by (intro replay_part [where n = "length lb" and l = l and ls = ls and b = b and tail = tail and m = m]) auto

theorem short_read_refused_witness:
  "get_unfinished_transactions line_bincode buffered_reads ex_log
     (ex_fs (u64_to_be 74 @ enc_line (BeginTx (ex_set 1 ''foo'' ''some longer val'')))) =
   (Err Err_Bincode,
    ex_fs (u64_to_be 74 @ enc_line (BeginTx (ex_set 1 ''foo'' ''some longer val''))))"
proof -
  have len: "length (enc_line (BeginTx (ex_set 1 ''foo'' ''some longer val''))) = 74"
    by code_simp
  have enc: "encode line_bincode (BeginTx (ex_set 1 ''foo'' ''some longer val'')) =
     Ok (u64_to_be 74 @ enc_line (BeginTx (ex_set 1 ''foo'' ''some longer val'')))"
    by (simp add: encode_line_bincode len del: enc_line.simps)
  show ?thesis
    using short_read_refused [OF line_bincode_ok line_bincode_strict size_reads_ex(2) _ _ enc,
        where ls = "[]" and b = "[]" and m = 64 and cl = ex_log and tail = "[]"]
    by (simp add: len buffered_reads_def del: enc_line.simps)
qed

subsection \<open>Appending\<close>

text \<open>
  C22: beginning a transaction, under any schedule of I/O faults, only ever appends to the
  log: afterwards it is the old log followed by a prefix of the new line, the whole line when
  the call succeeds; no other file changes, the call never panics, and it fails only with an
  I/O error.
\<close>

theorem begin_transaction_appends:
  assumes "log_ready cl s" and "encode C (BeginTx tx) = Ok b"
    and "begin_transaction C tx (cl, s) = (r, (cl', s'))"
  shows "(\<exists>n \<le> length b. log_bytes cl s' = log_bytes cl s @ take n b \<and> (r = Ok () \<longrightarrow> n = length b)) \<and>
     (\<forall>q. q \<noteq> log_path cl \<longrightarrow> bt_get (files s') q = bt_get (files s) q) \<and>
     (r = Ok () \<or> r = Err (Err_IO OtherIO))"
  using append_line_any [OF assms(1,2)] assms(3) by (auto simp: begin_transaction_def)

theorem begin_transaction_appends_witness:
  "\<exists>r cl' s'.
     begin_transaction line_bincode (ex_set 1 ''foo'' ''bar'')
       (ex_log, (ex_fs [])\<lparr>faults := [None, Some 5]\<rparr>) = (r, (cl', s')) \<and>
     (\<exists>n \<le> 70. log_bytes ex_log s' =
        take n (u64_to_be 62 @ enc_line (BeginTx (ex_set 1 ''foo'' ''bar''))) \<and> (r = Ok () \<longrightarrow> n = 70)) \<and>
     (r = Ok () \<or> r = Err (Err_IO OtherIO))"
proof -
  have len: "length (enc_line (BeginTx (ex_set 1 ''foo'' ''bar''))) = 62"
    by code_simp
  have enc: "encode line_bincode (BeginTx (ex_set 1 ''foo'' ''bar'')) =
     Ok (u64_to_be 62 @ enc_line (BeginTx (ex_set 1 ''foo'' ''bar'')))"
    by (simp add: encode_line_bincode len del: enc_line.simps)
  let ?s = "(ex_fs [])\<lparr>faults := [None, Some 5]\<rparr>"
  have rdy: "log_ready ex_log ?s"
    by (simp add: log_ready_def)
  have old: "log_bytes ex_log ?s = []"
    by (simp add: log_bytes_def file_of_def ex_fs_def)
  obtain r cl' s' where st: "begin_transaction line_bincode (ex_set 1 ''foo'' ''bar'') (ex_log, ?s) = (r, (cl', s'))"
    by (metis prod.exhaust)
  show ?thesis
    using begin_transaction_appends [OF rdy enc st] old st len by auto
qed

text \<open>
  What was logged is recovered: a transaction whose begin line was appended to a log of
  complete lines is, on the next replay, the last of the unfinished transactions; ending it
  makes it disappear from them.
\<close>

theorem logged_then_replayed:
  assumes C: "codec_ok C" and rd: "size_reads rd" "log_readable rd (log_bytes cl s @ b @ e)"
    and ls: "encode_all C ls = Ok (log_bytes cl s)"
    and ok: "encode C (BeginTx tx) = Ok b" "encode C (EndTx (tx_id tx)) = Ok e"
    and s: "faults s = []" "log_ready cl s"
    and b: "begin_transaction C tx (cl, s) = (r, (cl1, s1))"
    and e: "end_transaction C (tx_id tx) (cl1, s1) = (r', (cl2, s2))"
  shows "r = Ok () \<and>
     fst (get_unfinished_transactions C rd cl1 s1) =
       Ok (filter (\<lambda>u. tx_id u \<noteq> tx_id tx) (open_txs ls) @ [tx]) \<and>
     r' = Ok () \<and>
     fst (get_unfinished_transactions C rd cl2 s2) =
       Ok (filter (\<lambda>u. tx_id u \<noteq> tx_id tx) (open_txs ls))"
proof -
  have 1: "r = Ok ()" "cl1 = cl\<lparr>logfile := True\<rparr>" "faults s1 = []"
      "file_of (log_path cl) s1 = Some (log_bytes cl s @ b)"
    using append_line_ok [OF s ok(1)] b by (auto simp: begin_transaction_def)
  have lr: "log_ready cl1 s1" and lb: "log_bytes cl1 s1 = log_bytes cl s @ b"
    using 1 by (simp_all add: log_ready_def log_bytes_def)
  have 2: "r' = Ok ()" "log_path cl2 = log_path cl" "faults s2 = []"
      "file_of (log_path cl) s2 = Some ((log_bytes cl s @ b) @ e)"
    using append_line_ok [OF 1(3) lr ok(2)] e 1(2) lb by (auto simp: end_transaction_def)
  have e1: "encode_all C (ls @ [BeginTx tx]) = Ok (log_bytes cl s @ b)"
    by (rule encode_all_snoc [OF ls ok(1)])
  have e2: "encode_all C ((ls @ [BeginTx tx]) @ [EndTx (tx_id tx)]) = Ok ((log_bytes cl s @ b) @ e)"
    by (rule encode_all_snoc [OF e1 ok(2)])
  have "get_unfinished_transactions C rd cl1 s1 = (Ok (open_txs (ls @ [BeginTx tx])), s1)"
    using log_readable_prefix [OF C e1, of rd e] rd 1 by (intro replay_lines [OF C rd(1) e1, where rest = "[]"]) auto
  moreover have "get_unfinished_transactions C rd cl2 s2 =
      (Ok (open_txs ((ls @ [BeginTx tx]) @ [EndTx (tx_id tx)])), s2)"
    using rd 2 by (intro replay_lines [OF C rd(1) e2, where rest = "[]"]) auto
  ultimately show ?thesis
    using 1(1) 2(1) unfolding open_txs_snoc_end by (simp add: open_txs_snoc_begin)
qed

theorem logged_then_replayed_witness:
  "\<exists>r cl1 s1 r' cl2 s2.
     begin_transaction line_bincode (ex_set 1 ''foo'' ''bar'') (ex_log, ex_fs []) = (r, (cl1, s1)) \<and>
     end_transaction line_bincode 1 (cl1, s1) = (r', (cl2, s2)) \<and>
     fst (get_unfinished_transactions line_bincode whole_reads cl1 s1) = Ok [ex_set 1 ''foo'' ''bar''] \<and>
     fst (get_unfinished_transactions line_bincode whole_reads cl2 s2) = Ok []"
proof -
  have len: "length (enc_line (BeginTx (ex_set 1 ''foo'' ''bar''))) = 62"
      "length (enc_line (EndTx 1)) = 28"
    by code_simp+
  have tid: "tx_id (ex_set 1 ''foo'' ''bar'') = 1"
    by (simp add: ex_set_def with_random_id_def)
  note enc = encode_line_bincode [of "BeginTx (ex_set 1 ''foo'' ''bar'')"]
    encode_line_bincode [of "EndTx (tx_id (ex_set 1 ''foo'' ''bar''))"]
  obtain r cl1 s1 where b: "begin_transaction line_bincode (ex_set 1 ''foo'' ''bar'') (ex_log, ex_fs []) = (r, (cl1, s1))"
    by (metis prod.exhaust)
  obtain r' cl2 s2 where e: "end_transaction line_bincode 1 (cl1, s1) = (r', (cl2, s2))"
    by (metis prod.exhaust)
  show ?thesis
    using logged_then_replayed [OF line_bincode_ok size_reads_ex(1) _ _ enc _ _ b, where ls = "[]"] e b
    by (simp add: len tid log_readable_def log_bytes_def log_ready_def del: enc_line.simps)
qed

end
