(* ===== verification/SSTable.thy ===== *)
theory SSTable
  imports Kave_FS Kave_Codec
begin

text \<open>
  \<^verbatim>\<open>src/store/lsm/sstable.rs\<close>: sorted-string tables on disk.  A table is the size of its
  index as a big-endian 64-bit integer, the serialized index, and the serialized values one
  after the other; the index maps a key to the position and size of its value.  Reading goes
  through a single \<^verbatim>\<open>read_buf\<close> for the index and one for each value.  The layout relation
  \<open>lay\<close> carries the proofs that a written table answers searches, scans and key listings
  as the memtable it was written from.
\<close>

section \<open>Values and index entries\<close>

datatype lsm_value = Data bytes | Tombstone

fun as_option :: "lsm_value \<Rightarrow> bytes option" where
  "as_option (Data d) = Some d"
| "as_option Tombstone = None"

type_synonym memtable = "(rstring, lsm_value) btree"

record index_entry =
  entry_offset :: u64
  entry_size :: u64

type_synonym index = "(rstring, index_entry) btree"

text \<open>The serializers and the read behaviour a table depends on.\<close>

record sst_env =
  value_codec :: "lsm_value codec"
  index_codec :: "index codec"
  read_env :: read_env

section \<open>Writing\<close>

definition checked_add :: "u64 \<Rightarrow> u64 \<Rightarrow> u64 result" where
  "checked_add a b =
     (if unat a + unat b < 2 ^ 64 then Ok (a + b) else Panic ''attempt to add with overflow'')"

fun index_loop :: "'z sst_env_scheme \<Rightarrow> u64 \<Rightarrow> memtable \<Rightarrow> index \<Rightarrow> index result" where
  "index_loop E off [] idx = Ok idx"
| "index_loop E off ((key, val) # rest) idx =
     rbind (of_option Err_Bincode (ser_size (value_codec E) val)) (\<lambda>sz.
     rbind (checked_add off sz) (\<lambda>off'.
     index_loop E off' rest (bt_insert key \<lparr>entry_offset = off, entry_size = sz\<rparr> idx)))"

fun shift_index :: "u64 \<Rightarrow> index \<Rightarrow> index result" where
  "shift_index index_size [] = Ok []"
| "shift_index index_size ((key, e) # rest) =
     rbind (checked_add 8 index_size) (\<lambda>d.
     rbind (checked_add (entry_offset e) d) (\<lambda>off.
     rbind (shift_index index_size rest) (\<lambda>rest'.
     Ok ((key, e\<lparr>entry_offset := off\<rparr>) # rest'))))"

fun write_values :: "'z sst_env_scheme \<Rightarrow> path \<Rightarrow> nat \<Rightarrow> lsm_value list \<Rightarrow> (fs, unit) action" where
  "write_values E p n [] = sreturn ()"
| "write_values E p n (v # vs) =
     sbind (lift_result (of_option Err_Bincode (ser (value_codec E) v))) (\<lambda>b.
     sbind (fs_write_all p n b) (\<lambda>n'.
     write_values E p n' vs))"

definition sst_write :: "'z sst_env_scheme \<Rightarrow> path \<Rightarrow> memtable \<Rightarrow> (fs, unit) action" where
  "sst_write E p m s =
     (case fs_metadata p s of
        (Ok _, s') \<Rightarrow> (Err (Err_E (bs ''File '' @ path_str p @ bs '' already exists'')), s')
      | (_, s') \<Rightarrow>
          sbind (lift_result (index_loop E 0 m [])) (\<lambda>idx.
          sbind (lift_result (of_option Err_Bincode (ser_size (index_codec E) idx))) (\<lambda>index_size.
          sbind (lift_result (shift_index index_size idx)) (\<lambda>idx'.
          sbind (lift_result (of_option Err_Bincode (ser (index_codec E) idx'))) (\<lambda>buf.
          sbind (fs_open_create p) (\<lambda>_.
          sbind (fs_write_all p 0 (u64_to_be index_size)) (\<lambda>n.
          sbind (fs_write_all p n buf) (\<lambda>n'.
          sbind (write_values E p n' (map snd m)) (\<lambda>_.
          fs_sync_all)))))))) s')"

section \<open>Reading\<close>

text \<open>On the 64-bit targets the code supports the conversion never fails.\<close>

definition u64_to_usize :: "u64 \<Rightarrow> nat result" where
  "u64_to_usize x =
     (if unat x < 2 ^ 64 then Ok (unat x) else Panic ''32 bit architecture not supported'')"

lemma u64_to_usize_ok [simp]: "u64_to_usize x = Ok (unat x)"
proof -
  have "unat x < 2 ^ LENGTH(64)"
    by (rule unsigned_less)
  then show ?thesis
    by (simp add: u64_to_usize_def)
qed

definition read_index :: "'z sst_env_scheme \<Rightarrow> (reader, index) action" where
  "read_index E =
     sbind (read_u64 (read_env E)) (\<lambda>index_size.
     sbind (lift_result (u64_to_usize index_size)) (\<lambda>n.
     sbind (read_buf (read_env E) n) (\<lambda>buf.
     lift_result (of_option Err_Bincode (de (index_codec E) buf)))))"

text \<open>Reading a value seeks to its absolute position first.\<close>

definition read_value :: "'z sst_env_scheme \<Rightarrow> bytes \<Rightarrow> index_entry \<Rightarrow> lsm_value result" where
  "read_value E c e =
     rbind (u64_to_usize (entry_size e)) (\<lambda>n.
     fst (sbind (read_buf (read_env E) n) (\<lambda>buf.
       lift_result (of_option Err_Bincode (de (value_codec E) buf)))
       (reader_at c (unat (entry_offset e)))))"

text \<open>
  Opening a table for reading creates it when it is missing; what is read afterwards is a
  function of its contents.
\<close>

definition with_table :: "path \<Rightarrow> (bytes \<Rightarrow> 'a result) \<Rightarrow> (fs, 'a) action" where
  "with_table p f =
     sbind (fs_open_create p) (\<lambda>_ s.
       lift_result (case file_of p s of None \<Rightarrow> Err (Err_IO NotFound) | Some c \<Rightarrow> f c) s)"

definition sst_search :: "'z sst_env_scheme \<Rightarrow> path \<Rightarrow> rstring \<Rightarrow> (fs, lsm_value option) action" where
  "sst_search E p key =
     with_table p (\<lambda>c.
       rbind (fst (read_index E (reader_at c 0))) (\<lambda>idx.
       case bt_get idx key of
         Some e \<Rightarrow> rbind (read_value E c e) (\<lambda>v. Ok (Some v))
       | None \<Rightarrow> Ok None))"

fun read_entries :: "'z sst_env_scheme \<Rightarrow> bytes \<Rightarrow> (rstring \<times> index_entry) list \<Rightarrow>
    (rstring \<times> lsm_value) list result" where
  "read_entries E c [] = Ok []"
| "read_entries E c ((key, e) # es) =
     rbind (read_value E c e) (\<lambda>v.
     rbind (read_entries E c es) (\<lambda>r. Ok ((key, v) # r)))"

definition sst_scan :: "'z sst_env_scheme \<Rightarrow> path \<Rightarrow> rstring \<Rightarrow> rstring \<Rightarrow>
    (fs, (rstring \<times> lsm_value) list) action" where
  "sst_scan E p from_inclusive to_exclusive =
     with_table p (\<lambda>c.
       rbind (fst (read_index E (reader_at c 0))) (\<lambda>idx.
       rbind (bt_range from_inclusive to_exclusive idx) (\<lambda>es.
       read_entries E c es)))"

definition sst_keys :: "'z sst_env_scheme \<Rightarrow> path \<Rightarrow> (fs, rstring list) action" where
  "sst_keys E p =
     with_table p (\<lambda>c.
       rbind (fst (read_index E (reader_at c 0))) (\<lambda>idx. Ok (map fst idx)))"

section \<open>What the table relies on\<close>

text \<open>
  The serializers are lawful, the size of a serialized index depends on its keys only (its
  integers have a fixed width), and reads of eight bytes are complete.  The index and each value
  are read with a single call; a memtable is \<open>readable\<close> when the reads of the sizes that occur
  in its table are complete.
\<close>

definition index_size_stable :: "index codec \<Rightarrow> bool" where
  "index_size_stable c \<longleftrightarrow> (\<forall>i j. map fst i = map fst j \<longrightarrow> ser_size c i = ser_size c j)"

definition sst_env_ok :: "'z sst_env_scheme \<Rightarrow> bool" where
  "sst_env_ok E \<longleftrightarrow> codec_ok (value_codec E) \<and> codec_ok (index_codec E) \<and>
     index_size_stable (index_codec E) \<and> full_read (read_env E) 8"

definition readable :: "'z sst_env_scheme \<Rightarrow> memtable \<Rightarrow> bool" where
  "readable E m \<longleftrightarrow>
     (\<forall>idx n. index_loop E 0 m [] = Ok idx \<longrightarrow> ser_size (index_codec E) idx = Some n \<longrightarrow>
        full_read (read_env E) (unat n)) \<and>
     (\<forall>v \<in> set (map snd m). \<forall>b. ser (value_codec E) v = Some b \<longrightarrow> full_read (read_env E) (length b))"

section \<open>The contents of a table\<close>

fun values_image :: "'z sst_env_scheme \<Rightarrow> lsm_value list \<Rightarrow> bytes result" where
  "values_image E [] = Ok []"
| "values_image E (v # vs) =
     rbind (of_option Err_Bincode (ser (value_codec E) v)) (\<lambda>b.
     rbind (values_image E vs) (\<lambda>r. Ok (b @ r)))"

definition sst_image :: "'z sst_env_scheme \<Rightarrow> memtable \<Rightarrow> bytes result" where
  "sst_image E m =
     rbind (index_loop E 0 m []) (\<lambda>idx.
     rbind (of_option Err_Bincode (ser_size (index_codec E) idx)) (\<lambda>index_size.
     rbind (shift_index index_size idx) (\<lambda>idx'.
     rbind (of_option Err_Bincode (ser (index_codec E) idx')) (\<lambda>buf.
     rbind (values_image E (map snd m)) (\<lambda>vals.
     Ok (u64_to_be index_size @ buf @ vals))))))"

text \<open>Writing without faults produces exactly this image, and succeeds only if it exists.\<close>

lemma write_values_image:
  "faults s = [] \<Longrightarrow> bt_wf (files s) \<Longrightarrow> file_of p s = Some c \<Longrightarrow>
   values_image E vs = Ok b \<Longrightarrow>
   \<exists>s'. write_values E p (length c) vs s = (Ok (), s') \<and> faults s' = [] \<and>
     put_file p (c @ b) s' = put_file p (c @ b) s \<and> file_of p s' = Some (c @ b) \<and>
     bt_wf (files s') \<and> (vs \<noteq> [] \<longrightarrow> s' = put_file p (c @ b) s)"
proof (induction vs arbitrary: c s b)
  case Nil
  then show ?case by (auto simp: sreturn_def)
next
  case (Cons v vs)
  obtain b1 b2 where b: "ser (value_codec E) v = Some b1" "values_image E vs = Ok b2" "b = b1 @ b2"
    using Cons.prems(4) by (auto simp: rbind_eq_Ok_iff)
  let ?s = "put_file p (c @ b1) s"
  have ps: "faults ?s = []" "bt_wf (files ?s)" "file_of p ?s = Some (c @ b1)"
    using Cons.prems(1,2) by simp_all
  obtain s' where s': "write_values E p (length (c @ b1)) vs ?s = (Ok (), s')" "faults s' = []"
      "file_of p s' = Some ((c @ b1) @ b2)" "bt_wf (files s')"
      "vs \<noteq> [] \<longrightarrow> s' = put_file p ((c @ b1) @ b2) ?s"
    using Cons.IH [OF ps b(2)] by blast
  have "s' = put_file p (c @ b) s"
  proof (cases "vs = []")
    case True
    with s'(1) b show ?thesis by (simp add: sreturn_def)
  next
    case False
    with s'(5) b(3) Cons.prems(2) show ?thesis by simp
  qed
  with s' b Cons.prems show ?case
    by (simp add: lift_result_def fs_simps)
qed

lemma sst_write_image:
  assumes "faults s = []" and "bt_wf (files s)" and "file_of p s = None" and "sst_image E m = Ok c"
  shows "sst_write E p m s = (Ok (), put_file p c s)"
proof -
  obtain idx n idx' buf vals where i: "index_loop E 0 m [] = Ok idx"
      "ser_size (index_codec E) idx = Some n" "shift_index n idx = Ok idx'"
      "ser (index_codec E) idx' = Some buf" "values_image E (map snd m) = Ok vals"
      "c = u64_to_be n @ buf @ vals"
    using assms(4) by (auto simp: sst_image_def rbind_eq_Ok_iff)
  let ?s = "put_file p (u64_to_be n @ buf) s"
  have f: "faults ?s = []" "bt_wf (files ?s)" "file_of p ?s = Some (u64_to_be n @ buf)"
    using assms(1,2) by simp_all
  obtain s' where s': "write_values E p (length (u64_to_be n @ buf)) (map snd m) ?s = (Ok (), s')"
      "faults s' = []" "map snd m \<noteq> [] \<longrightarrow> s' = put_file p ((u64_to_be n @ buf) @ vals) ?s"
    using write_values_image [OF f i(5)] by blast
  have "s' = put_file p c s"
  proof (cases "m = []")
    case True
    with s'(1) i show ?thesis by (simp add: sreturn_def)
  next
    case False
    with s'(3) i(6) assms(2) show ?thesis by simp
  qed
  moreover have "bt_get (files s) p = None"
    using assms(3) by (simp add: file_of_None_iff)
  ultimately show ?thesis
    using i(1-4) s'(1,2) assms(1-3) fs_write_all_end [of "put_file p [] s" p "[]" "u64_to_be n"]
      fs_write_all_end [of "put_file p (u64_to_be n) s" p "u64_to_be n" buf]
    by (simp add: sst_write_def lift_result_def fs_simps)
qed

lemma write_values_OkD: "write_values E p n vs s = (Ok (), s') \<Longrightarrow> \<exists>b. values_image E vs = Ok b"
  by (induction vs arbitrary: n s)
    (force simp: sbind_eq_Ok_iff lift_result_def rbind_eq_Ok_iff)+

lemma sst_write_OkD:
  assumes "faults s = []" and "bt_wf (files s)" and "sst_write E p m s = (Ok (), s')"
  shows "\<exists>c. sst_image E m = Ok c \<and> file_of p s = None \<and> s' = put_file p c s"
proof -
  have none: "bt_get (files s) p = None"
    using assms(1,3) by (auto simp: sst_write_def fs_simps split: option.splits)
  obtain idx n idx' buf s1 n1 s2 where "index_loop E 0 m [] = Ok idx"
      "ser_size (index_codec E) idx = Some n" "shift_index n idx = Ok idx'"
      "ser (index_codec E) idx' = Some buf" "write_values E p n1 (map snd m) s1 = (Ok (), s2)"
    using assms(3) none
    by (auto simp: sst_write_def fs_metadata_ok [OF assms(1)] sbind_eq_Ok_iff lift_result_def)
  then obtain c where c: "sst_image E m = Ok c"
    using write_values_OkD by (fastforce simp: sst_image_def)
  with none sst_write_image [OF assms(1,2) _ c, of p] assms(3) show ?thesis
    by (auto simp: file_of_None_iff)
qed

section \<open>Layout\<close>

text \<open>
  The entries of an index describe consecutive values that start at a given position.
\<close>

fun lay :: "'z sst_env_scheme \<Rightarrow> nat \<Rightarrow> index \<Rightarrow> memtable \<Rightarrow> bool" where
  "lay E n [] [] = True"
| "lay E n ((k, e) # es) ((k', v) # m) =
     (k = k' \<and> unat (entry_offset e) = n \<and> ser_size (value_codec E) v = Some (entry_size e) \<and>
      lay E (n + unat (entry_size e)) es m)"
| "lay E n _ _ = False"

lemma checked_add_Ok: "checked_add a b = Ok c \<longleftrightarrow> unat a + unat b < 2 ^ 64 \<and> c = a + b"
  by (auto simp: checked_add_def)

lemma unat_checked_add: "checked_add a b = Ok c \<Longrightarrow> unat c = unat a + unat b"
  by (auto simp: checked_add_Ok unat_word_ariths)

lemma bt_insert_snoc: "\<forall>k' \<in> fst ` set m. k' < k \<Longrightarrow> bt_insert k v m = m @ [(k, v)]"
  by (induction k v m rule: bt_insert.induct) auto

lemma index_loop_lay:
  "index_loop E off m idx = Ok idx' \<Longrightarrow> bt_wf m \<Longrightarrow>
   \<forall>k \<in> fst ` set idx. \<forall>k' \<in> fst ` set m. k < k' \<Longrightarrow>
   \<exists>es. idx' = idx @ es \<and> lay E (unat off) es m"
proof (induction E off m idx rule: index_loop.induct)
  case (1 E off idx)
  then show ?case by (auto intro!: exI [of _ "[]"])
next
  case (2 E off key val rest idx)
  obtain sz off' where sz: "ser_size (value_codec E) val = Some sz" "checked_add off sz = Ok off'"
      "index_loop E off' rest (bt_insert key \<lparr>entry_offset = off, entry_size = sz\<rparr> idx) = Ok idx'"
    using "2.prems"(1) by (auto simp: rbind_eq_Ok_iff)
  have ins: "bt_insert key \<lparr>entry_offset = off, entry_size = sz\<rparr> idx =
      idx @ [(key, \<lparr>entry_offset = off, entry_size = sz\<rparr>)]"
    using "2.prems"(3) by (intro bt_insert_snoc) auto
  have "\<exists>es. idx' = bt_insert key \<lparr>entry_offset = off, entry_size = sz\<rparr> idx @ es \<and>
      lay E (unat off') es rest"
    using "2.prems"(2,3) sz ins by (intro "2.IH") (auto simp: bt_wf_Cons)
  with sz show ?case
    by (auto simp: ins unat_checked_add [OF sz(2)])
qed

lemma shift_index_lay:
  "shift_index n idx = Ok idx' \<Longrightarrow> lay E off idx m \<Longrightarrow> lay E (8 + unat n + off) idx' m \<and> map fst idx' = map fst idx"
proof (induction n idx arbitrary: idx' off m rule: shift_index.induct)
  case (1 n)
  then show ?case by (cases m) auto
next
  case (2 n key e rest)
  obtain d off1 rest' where d: "checked_add 8 n = Ok d" "checked_add (entry_offset e) d = Ok off1"
      "shift_index n rest = Ok rest'" "idx' = (key, e\<lparr>entry_offset := off1\<rparr>) # rest'"
    using "2.prems"(1) by (auto simp: rbind_eq_Ok_iff)
  obtain v m' where m: "m = (key, v) # m'"
    using "2.prems"(2) by (cases m) auto
  have "unat off1 = unat (entry_offset e) + (8 + unat n)"
    using unat_checked_add [OF d(1)] unat_checked_add [OF d(2)] by simp
  moreover have "lay E (8 + unat n + (off + unat (entry_size e))) rest' m' \<and> map fst rest' = map fst rest"
    using "2.prems"(2) m by (intro "2.IH" [OF d(3)]) simp
  ultimately show ?case
    using d(4) m "2.prems"(2) by (simp add: ac_simps)
qed

text \<open>An entry locates the serialization of a value in the contents of a table.\<close>

definition value_at :: "'z sst_env_scheme \<Rightarrow> bytes \<Rightarrow> index_entry \<Rightarrow> lsm_value \<Rightarrow> bool" where
  "value_at E c e v \<longleftrightarrow>
     (\<exists>b. ser (value_codec E) v = Some b \<and> unat (entry_size e) = length b \<and>
        full_read (read_env E) (length b) \<and>
        take (length b) (drop (unat (entry_offset e)) c) = b)"

lemma lay_value_at:
  assumes "codec_ok (value_codec E)"
  shows "lay E (length pre) idx m \<Longrightarrow> values_image E (map snd m) = Ok vals \<Longrightarrow>
     \<forall>v \<in> set (map snd m). \<forall>b. ser (value_codec E) v = Some b \<longrightarrow> full_read (read_env E) (length b) \<Longrightarrow>
     list_all2 (\<lambda>e kv. fst e = fst kv \<and> value_at E (pre @ vals) (snd e) (snd kv)) idx m"
proof (induction idx arbitrary: pre m vals)
  case Nil
  then show ?case by (cases m) auto
next
  case (Cons ke es)
  obtain k e v m' where m: "ke = (k, e)" "m = (k, v) # m'" "unat (entry_offset e) = length pre"
      "ser_size (value_codec E) v = Some (entry_size e)"
      "lay E (length pre + unat (entry_size e)) es m'"
    using Cons.prems(1) by (cases ke; cases m) auto
  obtain b r where b: "ser (value_codec E) v = Some b" "values_image E (map snd m') = Ok r" "vals = b @ r"
    using Cons.prems(2) m(2) by (auto simp: rbind_eq_Ok_iff)
  have sz: "unat (entry_size e) = length b"
    using codec_okD(3) [OF assms b(1)] m(4) by auto
  have "list_all2 (\<lambda>e kv. fst e = fst kv \<and> value_at E ((pre @ b) @ r) (snd e) (snd kv)) es m'"
    using m(2,5) b(2) sz Cons.prems(3) by (intro Cons.IH) auto
  moreover have "full_read (read_env E) (length b)"
    using Cons.prems(3) m(2) b(1) by simp
  ultimately show ?case
    using m b sz
    by (auto simp: value_at_def)
qed

lemma sst_image_index:
  assumes E: "sst_env_ok E" and m: "bt_wf m" "readable E m" and c: "sst_image E m = Ok c"
  shows "\<exists>idx. fst (read_index E (reader_at c 0)) = Ok idx \<and>
     list_all2 (\<lambda>e kv. fst e = fst kv \<and> value_at E c (snd e) (snd kv)) idx m"
proof -
  obtain idx n idx' buf vals where i: "index_loop E 0 m [] = Ok idx"
      "ser_size (index_codec E) idx = Some n" "shift_index n idx = Ok idx'"
      "ser (index_codec E) idx' = Some buf" "values_image E (map snd m) = Ok vals"
      "c = u64_to_be n @ buf @ vals"
    using c by (auto simp: sst_image_def rbind_eq_Ok_iff)
  have "lay E 0 idx m"
    using index_loop_lay [OF i(1) m(1)] by auto
  from shift_index_lay [OF i(3) this] have lay: "lay E (8 + unat n) idx' m"
    and keys: "map fst idx' = map fst idx"
    by simp_all
  have "ser_size (index_codec E) idx' = Some n"
    using E i(2) keys unfolding sst_env_ok_def index_size_stable_def by metis
  then have n: "unat n = length buf"
    using E i(4) by (auto simp: sst_env_ok_def dest: codec_okD(3))
  have rd: "full_read (read_env E) 8" "full_read (read_env E) (length buf)"
    using E m(2) i(1,2) n by (auto simp: sst_env_ok_def readable_def)
  have u: "read_u64 (read_env E) (reader_at c 0) = (Ok n, advance 8 (reader_at c 0))"
    using i(6) by (intro read_u64_full [OF rd(1)]) simp
  have "de (index_codec E) buf = Some idx'"
    using E i(4) by (auto simp: sst_env_ok_def dest: codec_okD(2))
  moreover have "drop 8 c = buf @ vals"
    using i(6) by simp
  ultimately have "fst (read_index E (reader_at c 0)) = Ok idx'"
    using n by (simp add: read_index_def u lift_result_def read_buf_full [OF rd(2)])
  moreover have "list_all2 (\<lambda>e kv. fst e = fst kv \<and> value_at E c (snd e) (snd kv)) idx' m"
    using lay_value_at [of E "u64_to_be n @ buf" idx' m vals] E lay n i(5,6) m(2)
    by (simp add: sst_env_ok_def readable_def)
  ultimately show ?thesis by blast
qed

lemma read_value_at:
  assumes "sst_env_ok E" and "value_at E c e v"
  shows "read_value E c e = Ok v"
proof -
  obtain b where b: "ser (value_codec E) v = Some b" "unat (entry_size e) = length b"
      "full_read (read_env E) (length b)"
      "take (length b) (drop (unat (entry_offset e)) c) = b"
    using assms(2) by (auto simp: value_at_def)
  have "de (value_codec E) b = Some v"
    using assms(1) b(1) by (auto simp: sst_env_ok_def dest: codec_okD(2))
  then show ?thesis
    using b by (simp add: read_value_def lift_result_def read_buf_full)
qed

lemma read_entries_at:
  "sst_env_ok E \<Longrightarrow>
   list_all2 (\<lambda>e kv. fst e = fst kv \<and> value_at E c (snd e) (snd kv)) es m \<Longrightarrow>
   read_entries E c es = Ok m"
  by (induction es arbitrary: m) (auto simp: list_all2_Cons1 read_value_at)

lemma list_all2_keys_get:
  "list_all2 (\<lambda>e kv. fst e = fst kv \<and> Q (snd e) (snd kv)) idx m \<Longrightarrow>
   rel_option Q (map_of idx k) (map_of m k)"
  by (induction idx m rule: list_all2_induct) auto

lemma list_all2_keys_filter:
  "list_all2 (\<lambda>e kv. fst e = fst kv \<and> Q (snd e) (snd kv)) idx m \<Longrightarrow>
   list_all2 (\<lambda>e kv. fst e = fst kv \<and> Q (snd e) (snd kv))
     (filter (\<lambda>e. P (fst e)) idx) (filter (\<lambda>e. P (fst e)) m)"
  by (induction idx m rule: list_all2_induct) auto

lemma list_all2_keys:
  "list_all2 (\<lambda>e kv. fst e = fst kv \<and> Q (snd e) (snd kv)) idx m \<Longrightarrow> map fst idx = map fst m"
  by (induction idx m rule: list_all2_induct) auto

section \<open>Reading a written table\<close>

text \<open>A table on disk that holds a memtable.\<close>

definition sst_holds :: "'z sst_env_scheme \<Rightarrow> path \<Rightarrow> memtable \<Rightarrow> fs \<Rightarrow> bool" where
  "sst_holds E p m s \<longleftrightarrow> bt_wf m \<and> readable E m \<and> (\<exists>c. file_of p s = Some c \<and> sst_image E m = Ok c)"

lemma with_table_ok:
  "faults s = [] \<Longrightarrow> file_of p s = Some c \<Longrightarrow> with_table p f s = (f c, s)"
  by (simp add: with_table_def fs_simps lift_result_def)

lemma sst_search_holds:
  assumes "sst_env_ok E" and "faults s = []" and "sst_holds E p m s"
  shows "sst_search E p key s = (Ok (bt_get m key), s)"
proof -
  obtain c where c: "bt_wf m" "readable E m" "file_of p s = Some c" "sst_image E m = Ok c"
    using assms(3) by (auto simp: sst_holds_def)
  obtain idx where idx: "fst (read_index E (reader_at c 0)) = Ok idx"
      "list_all2 (\<lambda>e kv. fst e = fst kv \<and> value_at E c (snd e) (snd kv)) idx m"
    using sst_image_index [OF assms(1) c(1,2,4)] by blast
  have "rel_option (value_at E c) (map_of idx key) (map_of m key)"
    by (rule list_all2_keys_get [OF idx(2)])
  with assms(1) idx(1) show ?thesis
    by (cases "map_of idx key"; cases "map_of m key")
      (simp_all add: sst_search_def with_table_ok [OF assms(2) c(3)] read_value_at)
qed

lemma sst_scan_holds:
  assumes "sst_env_ok E" and "faults s = []" and "sst_holds E p m s" and "a \<le> b"
  shows "sst_scan E p a b s = (Ok (filter (\<lambda>e. in_range a b (fst e)) m), s)"
proof -
  obtain c where c: "bt_wf m" "readable E m" "file_of p s = Some c" "sst_image E m = Ok c"
    using assms(3) by (auto simp: sst_holds_def)
  obtain idx where idx: "fst (read_index E (reader_at c 0)) = Ok idx"
      "list_all2 (\<lambda>e kv. fst e = fst kv \<and> value_at E c (snd e) (snd kv)) idx m"
    using sst_image_index [OF assms(1) c(1,2,4)] by blast
  have "read_entries E c (filter (\<lambda>e. in_range a b (fst e)) idx) =
      Ok (filter (\<lambda>e. in_range a b (fst e)) m)"
    by (rule read_entries_at [OF assms(1) list_all2_keys_filter [OF idx(2)]])
  with idx(1) assms(4) show ?thesis
    by (simp add: sst_scan_def with_table_ok [OF assms(2) c(3)] bt_range_def)
qed

lemma sst_keys_holds:
  assumes "sst_env_ok E" and "faults s = []" and "sst_holds E p m s"
  shows "sst_keys E p s = (Ok (map fst m), s)"
proof -
  obtain c where c: "bt_wf m" "readable E m" "file_of p s = Some c" "sst_image E m = Ok c"
    using assms(3) by (auto simp: sst_holds_def)
  obtain idx where idx: "fst (read_index E (reader_at c 0)) = Ok idx"
      "list_all2 (\<lambda>e kv. fst e = fst kv \<and> value_at E c (snd e) (snd kv)) idx m"
    using sst_image_index [OF assms(1) c(1,2,4)] by blast
  then show ?thesis
    by (simp add: sst_keys_def with_table_ok [OF assms(2) c(3)] list_all2_keys [OF idx(2)])
qed

section \<open>Properties of tables\<close>

subsection \<open>An instance of the serializers\<close>

fun enc_value :: "lsm_value \<Rightarrow> bytes" where
  "enc_value (Data d) = le_bytes 4 0 @ enc_bytes d"
| "enc_value Tombstone = le_bytes 4 1"

definition p_value :: "lsm_value parser" where
  "p_value = p_bind (p_int 4) (\<lambda>t.
     if t = 0 then p_bind p_bytes (\<lambda>d. p_return (Data d))
     else if t = 1 then p_return Tombstone
     else p_fail)"

definition enc_entry :: "rstring \<times> index_entry \<Rightarrow> bytes" where
  "enc_entry ke = enc_bytes (fst ke) @ enc_word 8 (entry_offset (snd ke)) @ enc_word 8 (entry_size (snd ke))"

definition p_entry :: "(rstring \<times> index_entry) parser" where
  "p_entry = p_bind p_bytes (\<lambda>k. p_bind (p_word 8) (\<lambda>off. p_bind (p_word 8) (\<lambda>sz.
     p_return (k, \<lparr>entry_offset = off, entry_size = sz\<rparr>))))"

definition value_bincode :: "lsm_value codec" where
  "value_bincode = codec_of enc_value p_value"

definition index_bincode :: "index codec" where
  "index_bincode = codec_of (enc_list enc_entry) (p_list p_entry)"

definition ex_sst :: sst_env where
  "ex_sst = \<lparr>value_codec = value_bincode, index_codec = index_bincode, read_env = (\<lambda>_ n. Inr n)\<rparr>"

lemma reads_value: "reads p_value enc_value"
  unfolding reads_def
proof (intro allI impI)
  fix v r assume "length (enc_value v) < 2 ^ 64"
  then show "p_value (enc_value v @ r) = Some (v, r)"
    by (cases v) (auto simp: p_value_def layout readsD [OF reads_bytes] p_return_def)
qed

lemma reads_entry: "reads p_entry enc_entry"
  unfolding reads_def
proof (intro allI impI)
  fix ke r assume len: "length (enc_entry ke) < 2 ^ 64"
  have w: "p_word 8 (enc_word 8 (w :: u64) @ r) = Some (w, r)" for w r
    by (rule readsD [OF reads_word]) (simp_all add: enc_word_def)
  have "p_bytes (enc_bytes (fst ke) @ r) = Some (fst ke, r)" for r
    using len by (intro readsD [OF reads_bytes]) (simp add: enc_entry_def)
  then show "p_entry (enc_entry ke @ r) = Some (ke, r)"
    by (simp add: p_entry_def enc_entry_def layout w p_return_def prod_eq_iff)
qed

lemma length_enc_index:
  "length (enc_list enc_entry i) = 8 + sum_list (map (\<lambda>k. 24 + length k) (map fst i))"
  by (induction i) (auto simp: enc_list_def enc_entry_def)

lemma index_bincode_stable: "index_size_stable index_bincode"
  by (auto simp: index_size_stable_def index_bincode_def codec_of_def length_enc_index
      simp del: map_map)

lemma ex_sst_ok: "sst_env_ok ex_sst"
proof -
  have "enc_entry ke \<noteq> []" for ke
    by (simp add: enc_entry_def enc_bytes_def enc_word_def le_bytes_def flip: length_0_conv)
  then have "codec_ok index_bincode"
    unfolding index_bincode_def by (intro codec_of_ok reads_list [OF reads_entry])
  then show ?thesis
    using index_bincode_stable codec_of_ok [OF reads_value]
    by (simp add: sst_env_ok_def ex_sst_def value_bincode_def full_read_def read_whole_def)
qed

lemma readable_ex_sst: "readable ex_sst m"
  by (simp add: readable_def ex_sst_def full_read_def read_whole_def)

definition ex_table :: memtable where
  "ex_table = [(bs ''bar'', Data (bs ''qux'')), (bs ''foo'', Data (bs ''bar'')), (bs ''zip'', Tombstone)]"

definition ex_disk :: fs where
  "ex_disk = \<lparr>files = [], clock = 0, faults = []\<rparr>"

lemma ex_keys:
  "bs ''foo'' < bs ''bar'' \<longleftrightarrow> False" "bs ''foo'' = bs ''bar'' \<longleftrightarrow> False"
  "bs ''zip'' < bs ''foo'' \<longleftrightarrow> False" "bs ''zip'' = bs ''foo'' \<longleftrightarrow> False"
  "bs ''zip'' < bs ''bar'' \<longleftrightarrow> False" "bs ''zip'' = bs ''bar'' \<longleftrightarrow> False"
  by code_simp+

lemma ex_table_wf: "bt_wf ex_table"
  by code_simp

lemma ex_table_written:
  "\<exists>c. sst_write ex_sst [bs ''1.sst''] ex_table ex_disk = (Ok (), put_file [bs ''1.sst''] c ex_disk)"
proof -
  obtain c where c: "sst_image ex_sst ex_table = Ok c"
    by (simp add: sst_image_def ex_sst_def ex_table_def value_bincode_def index_bincode_def codec_of_def
        checked_add_def length_enc_index ex_keys del: bs_append)
  then show ?thesis
    using sst_write_image [OF _ _ _ c, of ex_disk "[bs ''1.sst'']"]
    by (auto simp: ex_disk_def file_of_def)
qed

lemma sst_write_holds:
  assumes "faults s = []" and "bt_wf (files s)" and "bt_wf m" and "readable E m"
    and "sst_write E p m s = (Ok (), s')"
  shows "sst_holds E p m s' \<and> faults s' = [] \<and> bt_wf (files s')"
  using sst_write_OkD [OF assms(1,2,5)] assms by (auto simp: sst_holds_def)

subsection \<open>Round trips\<close>

text \<open>
  C14: after a memtable was written as a table, a search for any key in the table returns what
  the memtable holds for the key (a value, a tombstone, or nothing).
\<close>

theorem written_then_searched:
  assumes "sst_env_ok E" and "faults s = []" and "bt_wf (files s)" and "bt_wf m"
    and "readable E m" and "sst_write E p m s = (Ok (), s')"
  shows "sst_search E p key s' = (Ok (bt_get m key), s')"
  using sst_write_holds [OF assms(2-6)] by (auto intro: sst_search_holds [OF assms(1)])

theorem written_then_searched_witness:
  "\<exists>s'. sst_write ex_sst [bs ''1.sst''] ex_table ex_disk = (Ok (), s') \<and>
     sst_search ex_sst [bs ''1.sst''] (bs ''zip'') s' = (Ok (Some Tombstone), s') \<and>
     sst_search ex_sst [bs ''1.sst''] (bs ''missing'') s' = (Ok None, s')"
proof -
  obtain s' where s': "sst_write ex_sst [bs ''1.sst''] ex_table ex_disk = (Ok (), s')"
    using ex_table_written by blast
  have get: "bt_get ex_table (bs ''zip'') = Some Tombstone" "bt_get ex_table (bs ''missing'') = None"
    by code_simp+
  show ?thesis
    using written_then_searched [OF ex_sst_ok _ _ ex_table_wf readable_ex_sst s'] s' get by (simp add: ex_disk_def)
qed

text \<open>
  C15: after a memtable was written as a table, a scan of the table returns the entries of the
  memtable whose keys lie in the half-open range, in key order, and the key listing returns
  all its keys in order.
\<close>

theorem written_then_scanned:
  assumes "sst_env_ok E" and "faults s = []" and "bt_wf (files s)" and "bt_wf m"
    and "readable E m" and "sst_write E p m s = (Ok (), s')"
  shows "(a \<le> b \<longrightarrow> sst_scan E p a b s' = (Ok (filter (\<lambda>kv. a \<le> fst kv \<and> fst kv < b) m), s')) \<and>
     sst_keys E p s' = (Ok (map fst m), s')"
  using sst_write_holds [OF assms(2-6)] sst_scan_holds [OF assms(1), of s' p m a b]
    sst_keys_holds [OF assms(1), of s' p m]
  by (auto simp: in_range_def)

theorem written_then_scanned_witness:
  "\<exists>s'. sst_write ex_sst [bs ''1.sst''] ex_table ex_disk = (Ok (), s') \<and>
     sst_scan ex_sst [bs ''1.sst''] (bs ''bar'') (bs ''qux'') s' =
       (Ok [(bs ''bar'', Data (bs ''qux'')), (bs ''foo'', Data (bs ''bar''))], s') \<and>
     sst_keys ex_sst [bs ''1.sst''] s' = (Ok [bs ''bar'', bs ''foo'', bs ''zip''], s')"
proof -
  obtain s' where s': "sst_write ex_sst [bs ''1.sst''] ex_table ex_disk = (Ok (), s')"
    using ex_table_written by blast
  have sc: "filter (\<lambda>kv. bs ''bar'' \<le> fst kv \<and> fst kv < bs ''qux'') ex_table =
      [(bs ''bar'', Data (bs ''qux'')), (bs ''foo'', Data (bs ''bar''))]"
    "map fst ex_table = [bs ''bar'', bs ''foo'', bs ''zip'']" "bs ''bar'' \<le> bs ''qux''"
    by code_simp+
  show ?thesis
    using written_then_scanned [OF ex_sst_ok _ _ ex_table_wf readable_ex_sst s', of "bs ''bar''" "bs ''qux''"] s' sc
    by (simp add: ex_disk_def)
qed

text \<open>
  Writing a table refuses a path that is already taken, and changes nothing then.
\<close>

theorem existing_table_kept:
  assumes "faults s = []" and "file_of p s = Some c"
  shows "sst_write E p m s = (Err (Err_E (bs ''File '' @ path_str p @ bs '' already exists'')), s)"
  using assms by (auto simp: sst_write_def fs_simps file_of_Some_iff)

theorem existing_table_kept_witness:
  "sst_write ex_sst [bs ''1.sst''] ex_table (put_file [bs ''1.sst''] [1, 2, 3] ex_disk) =
     (Err (Err_E (bs ''File 1.sst already exists'')), put_file [bs ''1.sst''] [1, 2, 3] ex_disk)"
  using existing_table_kept [of "put_file [bs ''1.sst''] [1, 2, 3] ex_disk" "[bs ''1.sst'']" "[1, 2, 3]"
      ex_sst ex_table]
  by (simp add: ex_disk_def bs_def)

end
