(* ===== verification/Utils.thy ===== *)
theory Utils
  imports Kave_Prelude
begin

text \<open>
  \<^verbatim>\<open>src/utils.rs\<close>: the time since the epoch, and the text of a random identifier that names a
  session in messages.  The clock and the random numbers are arguments.
\<close>

section \<open>Time\<close>

text \<open>
  \<^verbatim>\<open>SystemTime::now\<close> is a number of nanoseconds, negative before the epoch.
\<close>

definition time_since_epoch :: "int \<Rightarrow> nat result" where
  "time_since_epoch now = (if now < 0 then Panic ''Time went backwards'' else Ok (nat now))"

lemma time_since_epoch_clock [simp]: "time_since_epoch (int t) = Ok t"
  by (simp add: time_since_epoch_def)

section \<open>Session identifiers\<close>

text \<open>
  \<^verbatim>\<open>Uuid::simple\<close> in lower case: the 128 bits as 32 hexadecimal digits, the most significant
  first.
\<close>

definition hex_digit :: "nat \<Rightarrow> u8" where
  "hex_digit d = (if d < 10 then 48 + of_nat d else 87 + of_nat d)"

fun hex_digits :: "nat \<Rightarrow> nat \<Rightarrow> rstring" where
  "hex_digits 0 x = []"
| "hex_digits (Suc n) x = hex_digits n (x div 16) @ [hex_digit (x mod 16)]"

definition session_id :: "uuid \<Rightarrow> rstring" where
  "session_id u = hex_digits 32 (unat u)"

lemma hex_digit_values: "d < 16 \<Longrightarrow> unat (hex_digit d) = (if d < 10 then 48 + d else 87 + d)"
  by (auto simp: hex_digit_def unat_word_ariths unat_of_nat)

lemma hex_digit_inj:
  assumes "d < 16" and "e < 16" and "hex_digit d = hex_digit e"
  shows "d = e"
proof -
  have "unat (hex_digit d) = unat (hex_digit e)"
    using assms(3) by simp
  with assms(1,2) show ?thesis
    by (simp add: hex_digit_values split: if_splits)
qed

lemma length_hex_digits [simp]: "length (hex_digits n x) = n"
  by (induction n x rule: hex_digits.induct) simp_all

lemma hex_digits_inj: "x < 16 ^ n \<Longrightarrow> y < 16 ^ n \<Longrightarrow> hex_digits n x = hex_digits n y \<Longrightarrow> x = y"
proof (induction n arbitrary: x y)
  case (Suc n)
  have "x mod 16 = y mod 16"
    by (rule hex_digit_inj) (use Suc.prems(3) in simp_all)
  moreover have "x div 16 = y div 16"
    by (rule Suc.IH) (use Suc.prems in \<open>simp_all add: less_mult_imp_div_less mult.commute\<close>)
  ultimately show ?case
    by (metis div_mult_mod_eq)
qed simp

lemma hex_digits_ascii: "list_all (\<lambda>c. 48 \<le> c \<and> c \<le> 57 \<or> 97 \<le> c \<and> c \<le> 102) (hex_digits n x)"
  by (induction n x rule: hex_digits.induct) (auto simp: word_le_nat_alt hex_digit_values)

text \<open>
  The text of an identifier has 32 characters, all of them digits or letters from a to f, and
  different identifiers have different texts.
\<close>

lemma session_id_text:
  "length (session_id u) = 32"
  "list_all (\<lambda>c. 48 \<le> c \<and> c \<le> 57 \<or> 97 \<le> c \<and> c \<le> 102) (session_id u)"
  "session_id u = session_id v \<longleftrightarrow> u = v"
proof -
  have "unat w < 16 ^ 32" for w :: uuid
    using unsigned_less [of w, where ?'a = nat] by simp
  then show "session_id u = session_id v \<longleftrightarrow> u = v"
    using hex_digits_inj [of "unat u" 32 "unat v"] by (auto simp: session_id_def intro: word_unat_eq_iff [THEN iffD2])
qed (simp_all add: session_id_def hex_digits_ascii)

end
