(* ===== verification/LSM_Store.thy ===== *)
theory LSM_Store
  imports Commit_Log SSTable Utils
begin

text \<open>
  \<^verbatim>\<open>src/store/lsm.rs\<close>: the store backed by a log-structured merge tree.  Its state is the
  memtable with the identifiers of the transactions in it, the commit log, the bloom filters
  of the tables on disk, and the file system it runs on.  The bloom filter (a third-party
  crate) is a parameter: its three operations and the serializer for the map of filters.  This
  theory holds the state and every operation; the theories that follow prove what they do.
\<close>

section \<open>State\<close>

record 'b lsm_env = sst_env +
  line_codec :: "commit_log_line codec"
  log_reads :: read_env
  bloom_codec :: "(path, 'b) btree codec"
  bloom_new :: 'b
  bloom_insert :: "rstring \<Rightarrow> 'b \<Rightarrow> 'b"
  bloom_contains :: "'b \<Rightarrow> rstring \<Rightarrow> bool"

text \<open>What the store announces; the channel of announcements is the list of those sent.\<close>

datatype lsm_event = WriteSSTable path

record 'b lsm_store =
  memtable :: memtable
  tx_ids :: "uuid list"
  lsm_log :: commit_log
  data_dir :: path
  memtable_max_bytes :: nat
  bloom_map :: "(path, 'b) btree"
  bloom_map_path :: path
  event_receivers :: nat
  events_sent :: "lsm_event list"
  is_shutdown :: bool
  lsm_fs :: fs

definition lsm_new :: "path \<Rightarrow> path \<Rightarrow> nat \<Rightarrow> fs \<Rightarrow> 'b lsm_store" where
  "lsm_new dir log_file max_bytes s =
     \<lparr>memtable = [], tx_ids = [], lsm_log = commit_log_new log_file, data_dir = dir,
      memtable_max_bytes = max_bytes, bloom_map = [], bloom_map_path = dir @ [bs ''bloom_map''],
      event_receivers = 0, events_sent = [], is_shutdown = False, lsm_fs = s\<rparr>"

text \<open>Subscribing to the store's events adds a receiver.\<close>

definition lsm_events :: "'b lsm_store \<Rightarrow> 'b lsm_store" where
  "lsm_events s = s\<lparr>event_receivers := event_receivers s + 1\<rparr>"

definition on_disk :: "(fs, 'a) action \<Rightarrow> ('b lsm_store, 'a) action" where
  "on_disk act s = (case act (lsm_fs s) of (r, f) \<Rightarrow> (r, s\<lparr>lsm_fs := f\<rparr>))"

definition on_log :: "(commit_log \<times> fs, 'a) action \<Rightarrow> ('b lsm_store, 'a) action" where
  "on_log act s =
     (case act (lsm_log s, lsm_fs s) of (r, (l, f)) \<Rightarrow> (r, s\<lparr>lsm_log := l, lsm_fs := f\<rparr>))"

section \<open>Tables on disk\<close>

text \<open>\<^verbatim>\<open>Path::extension\<close>: what follows the last dot, unless the dot is the first character.\<close>

definition extension :: "path \<Rightarrow> rstring option" where
  "extension p =
     (if p = [] then None
      else let name = last p; after = rev (takeWhile (\<lambda>c. c \<noteq> 46) (rev name))
           in if name = [46, 46] \<or> length name \<le> length after + 1 then None else Some after)"

definition is_sst :: "path \<Rightarrow> bool" where
  "is_sst p \<longleftrightarrow> extension p = Some (bs ''sst'')"

definition get_sstables_asc :: "('b lsm_store, path list) action" where
  "get_sstables_asc s =
     sbind (on_disk (fs_read_dir (data_dir s))) (\<lambda>ps. sreturn (sort (filter is_sst ps))) s"

definition sstables_for_key :: "('b, 'z) lsm_env_scheme \<Rightarrow> 'b lsm_store \<Rightarrow> rstring \<Rightarrow> path list" where
  "sstables_for_key E s key =
     rev (sort (map fst (filter (\<lambda>pb. bloom_contains E (snd pb) key) (bloom_map s))))"

fun search_loop :: "('b, 'z) lsm_env_scheme \<Rightarrow> rstring \<Rightarrow> path list \<Rightarrow>
    (fs, lsm_value option) action" where
  "search_loop E key [] = sreturn None"
| "search_loop E key (p # ps) =
     sbind (sst_search E p key) (\<lambda>v.
       case v of Some x \<Rightarrow> sreturn (Some x) | None \<Rightarrow> search_loop E key ps)"

definition search_sstables :: "('b, 'z) lsm_env_scheme \<Rightarrow> rstring \<Rightarrow>
    ('b lsm_store, lsm_value option) action" where
  "search_sstables E key s = on_disk (search_loop E key (sstables_for_key E s key)) s"

fun scan_loop :: "('b, 'z) lsm_env_scheme \<Rightarrow> rstring \<Rightarrow> rstring \<Rightarrow> path list \<Rightarrow> memtable \<Rightarrow>
    (fs, memtable) action" where
  "scan_loop E a b [] acc = sreturn acc"
| "scan_loop E a b (p # ps) acc =
     sbind (sst_scan E p a b) (\<lambda>kvs.
     scan_loop E a b ps (fold (\<lambda>(k, v). bt_insert k v) kvs acc))"

definition scan_sstables :: "('b, 'z) lsm_env_scheme \<Rightarrow> rstring \<Rightarrow> rstring \<Rightarrow>
    ('b lsm_store, (rstring \<times> lsm_value) list) action" where
  "scan_sstables E a b =
     sbind get_sstables_asc (\<lambda>ps. on_disk (scan_loop E a b ps []))"

section \<open>Flushing\<close>

text \<open>
  \<^verbatim>\<open>mem::size_of_val\<close> of a \<^verbatim>\<open>BTreeMap\<close> is the size of the map's handle (root pointer,
  height and length), three machine words on a 64-bit target, whatever the map holds.
\<close>

definition size_of_BTreeMap :: nat where
  "size_of_BTreeMap = 24"

definition should_flush_memtable :: "'b lsm_store \<Rightarrow> bool" where
  "should_flush_memtable s \<longleftrightarrow> memtable s \<noteq> [] \<and> memtable_max_bytes s \<le> size_of_BTreeMap"

text \<open>The clock counts nanoseconds; a table is named after the current millisecond.\<close>

definition as_millis :: "nat \<Rightarrow> nat" where
  "as_millis t = t div 1000000"

definition flush_path :: "'b lsm_store \<Rightarrow> path" where
  "flush_path s = data_dir s @ [dec (as_millis (clock (lsm_fs s))) @ bs ''.sst'']"

lemma flush_path_time:
  "rbind (time_since_epoch (int (clock (lsm_fs s)))) (\<lambda>t. Ok (data_dir s @ [dec (as_millis t) @ bs ''.sst''])) =
   Ok (flush_path s)"
  by (simp add: flush_path_def)

fun end_transactions :: "('b, 'z) lsm_env_scheme \<Rightarrow> uuid list \<Rightarrow> ('b lsm_store, unit) action" where
  "end_transactions E [] = sreturn ()"
| "end_transactions E (u # us) =
     sbind (on_log (end_transaction (line_codec E) u)) (\<lambda>_. end_transactions E us)"

definition write_sstable :: "('b, 'z) lsm_env_scheme \<Rightarrow> ('b lsm_store, path option) action" where
  "write_sstable E s =
     (if memtable s = [] then (Ok None, s)
      else let p = flush_path s in
        sbind (on_disk (sst_write E p (memtable s))) (\<lambda>_ s1.
          let bloom = fold (bloom_insert E) (map fst (memtable s1)) (bloom_new E);
              s2 = s1\<lparr>bloom_map := bt_insert p bloom (bloom_map s1), memtable := []\<rparr>
          in sbind (end_transactions E (tx_ids s2)) (\<lambda>_ s3.
               (Ok (Some p), s3\<lparr>tx_ids := []\<rparr>)) s2) s)"

definition write_bloom_map :: "('b, 'z) lsm_env_scheme \<Rightarrow> ('b lsm_store, unit) action" where
  "write_bloom_map E s =
     (if bloom_map s = [] then (Ok (), s)
      else
        sbind (lift_result (of_option Err_Bincode (ser (bloom_codec E) (bloom_map s)))) (\<lambda>buf.
        sbind (on_disk (fs_open_truncate (bloom_map_path s))) (\<lambda>_.
        sbind (on_disk (fs_write_all (bloom_map_path s) 0 buf)) (\<lambda>_.
        on_disk fs_sync_all))) s)"

definition lsm_shutdown :: "('b, 'z) lsm_env_scheme \<Rightarrow> ('b lsm_store, unit) action" where
  "lsm_shutdown E s =
     sbind (write_sstable E) (\<lambda>_. write_bloom_map E) (s\<lparr>is_shutdown := True\<rparr>)"

text \<open>
  One turn of the background loop: stop after shutdown, flush when the memtable counts as
  full, and announce the new table.  Sending on a broadcast channel with no receiver is an
  error, which the code turns into a panic.
\<close>

datatype tick = Stopped | Running

definition background_tick :: "('b, 'z) lsm_env_scheme \<Rightarrow> ('b lsm_store, tick) action" where
  "background_tick E s =
     (if is_shutdown s then (Ok Stopped, s)
      else if should_flush_memtable s then
        (case write_sstable E s of
           (Ok (Some p), s') \<Rightarrow>
             if event_receivers s' = 0 then (Panic ''Failed to send memtable flush event'', s')
             else (Ok Running, s'\<lparr>events_sent := events_sent s' @ [WriteSSTable p]\<rparr>)
         | (Ok None, s') \<Rightarrow> (Ok Running, s')
         | (_, s') \<Rightarrow> (Panic ''Failed to flush memtable'', s'))
      else (Ok Running, s))"

section \<open>Transactions and queries\<close>

fun memtable_instruction :: "operation \<Rightarrow> memtable \<Rightarrow> memtable" where
  "memtable_instruction (Set key val) m = bt_insert key (Data val) m"
| "memtable_instruction (Delete key) m = bt_insert key Tombstone m"

definition do_transact :: "('b, 'z) lsm_env_scheme \<Rightarrow> transaction \<Rightarrow> bool \<Rightarrow>
    ('b lsm_store, unit) action" where
  "do_transact E tx log_commit =
     sbind (if log_commit then on_log (begin_transaction (line_codec E) tx) else sreturn ())
       (\<lambda>_ s. (Ok (), s\<lparr>tx_ids := tx_ids s @ [tx_id tx],
                       memtable := fold memtable_instruction (operations tx) (memtable s)\<rparr>))"

definition lsm_get :: "('b, 'z) lsm_env_scheme \<Rightarrow> rstring \<Rightarrow> ('b lsm_store, bytes option) action" where
  "lsm_get E k s =
     (case Option.bind (bt_get (memtable s) k) as_option of
        Some d \<Rightarrow> (Ok (Some d), s)
      | None \<Rightarrow> sbind (search_sstables E k) (\<lambda>v. sreturn (Option.bind v as_option)) s)"

definition lsm_scan :: "('b, 'z) lsm_env_scheme \<Rightarrow> rstring \<Rightarrow> rstring \<Rightarrow>
    ('b lsm_store, bytes list) action" where
  "lsm_scan E from_inclusive to_exclusive =
     sbind (scan_sstables E from_inclusive to_exclusive) (\<lambda>kvs s.
     sbind (lift_result (bt_range from_inclusive to_exclusive (memtable s))) (\<lambda>mem.
       let scan_result = fold (\<lambda>(k, v). bt_insert k v) mem (fold (\<lambda>(k, v). bt_insert k v) kvs [])
       in sreturn (List.map_filter (\<lambda>kv. as_option (snd kv)) scan_result)) s)"

definition lsm_transact :: "('b, 'z) lsm_env_scheme \<Rightarrow> transaction \<Rightarrow> ('b lsm_store, unit) action" where
  "lsm_transact E tx = do_transact E tx True"

section \<open>Startup\<close>

definition restore_bloom_map_from_file ::
    "('b, 'z) lsm_env_scheme \<Rightarrow> ('b lsm_store, (path, 'b) btree option) action" where
  "restore_bloom_map_from_file E s =
     (case fs_exists (bloom_map_path s) (lsm_fs s) of
        (False, f) \<Rightarrow> (Ok None, s\<lparr>lsm_fs := f\<rparr>)
      | (True, f) \<Rightarrow>
          sbind (on_disk (fs_metadata (log_path (lsm_log s)))) (\<lambda>commit_log_mod.
          sbind (on_disk (fs_metadata (bloom_map_path s))) (\<lambda>filter_file_mod.
            if filter_file_mod < commit_log_mod then sreturn None
            else
              sbind (on_disk (fs_open_read (bloom_map_path s))) (\<lambda>_ s'.
                lift_result
                  (case file_of (bloom_map_path s') (lsm_fs s') of
                     None \<Rightarrow> Err (Err_IO NotFound)
                   | Some buf \<Rightarrow>
                       rbind (of_option Err_Bincode (de (bloom_codec E) buf)) (\<lambda>m. Ok (Some m))) s')))
            (s\<lparr>lsm_fs := f\<rparr>))"

fun reconstruct_loop :: "('b, 'z) lsm_env_scheme \<Rightarrow> path list \<Rightarrow> (path, 'b) btree \<Rightarrow>
    (fs, (path, 'b) btree) action" where
  "reconstruct_loop E [] acc = sreturn acc"
| "reconstruct_loop E (p # ps) acc =
     sbind (sst_keys E p) (\<lambda>keys.
     reconstruct_loop E ps (bt_insert p (fold (bloom_insert E) keys (bloom_new E)) acc))"

definition reconstruct_bloom_map_from_sstables ::
    "('b, 'z) lsm_env_scheme \<Rightarrow> ('b lsm_store, (path, 'b) btree) action" where
  "reconstruct_bloom_map_from_sstables E =
     sbind get_sstables_asc (\<lambda>ps. on_disk (reconstruct_loop E ps []))"

definition restore_bloom_map :: "('b, 'z) lsm_env_scheme \<Rightarrow> ('b lsm_store, unit) action" where
  "restore_bloom_map E =
     sbind (restore_bloom_map_from_file E) (\<lambda>m.
       case m of
         Some bloom \<Rightarrow> (\<lambda>s. (Ok (), s\<lparr>bloom_map := bloom\<rparr>))
       | None \<Rightarrow> sbind (reconstruct_bloom_map_from_sstables E) (\<lambda>bloom s.
                  (Ok (), s\<lparr>bloom_map := bloom\<rparr>)))"

fun restore_loop :: "('b, 'z) lsm_env_scheme \<Rightarrow> transaction list \<Rightarrow> ('b lsm_store, unit) action" where
  "restore_loop E [] = sreturn ()"
| "restore_loop E (tx # txs) = sbind (do_transact E tx False) (\<lambda>_. restore_loop E txs)"

definition restore_previous_txs :: "('b, 'z) lsm_env_scheme \<Rightarrow> ('b lsm_store, unit) action" where
  "restore_previous_txs E s =
     sbind (on_disk (get_unfinished_transactions (line_codec E) (log_reads E) (lsm_log s)))
       (restore_loop E) s"

definition lsm_initialize :: "('b, 'z) lsm_env_scheme \<Rightarrow> ('b lsm_store, unit) action" where
  "lsm_initialize E = sbind (restore_bloom_map E) (\<lambda>_. restore_previous_txs E)"

end
