(* ===== verification/LSM_View.thy ===== *)
theory LSM_View
  imports LSM_Store
begin

text \<open>
  What the store holds: the tables on disk, oldest first, then the memtable, each overriding
  what comes before it.  The invariant \<open>lsm_inv\<close> says that the tables are readable and
  that the bloom filters cover them; under it searching the tables newest first, skipping those
  whose filter does not contain the key, finds what the overriding union holds, and a scan
  returns the live values of the range.
\<close>

section \<open>The abstract state\<close>

definition sst_paths :: "path \<Rightarrow> fs \<Rightarrow> path list" where
  "sst_paths dir f = filter is_sst (filter (in_dir dir) (map fst (files f)))"

definition table_at :: "'z sst_env_scheme \<Rightarrow> fs \<Rightarrow> path \<Rightarrow> memtable" where
  "table_at E f p =
     (case file_of p f of
        None \<Rightarrow> []
      | Some c \<Rightarrow>
          (case rbind (fst (read_index E (reader_at c 0))) (read_entries E c) of
             Ok m \<Rightarrow> m
           | _ \<Rightarrow> []))"

definition lsm_paths :: "'b lsm_store \<Rightarrow> path list" where
  "lsm_paths s = sst_paths (data_dir s) (lsm_fs s)"

definition overlay :: "memtable list \<Rightarrow> rstring \<rightharpoonup> lsm_value" where
  "overlay ms = fold (\<lambda>m acc. acc ++ map_of m) ms Map.empty"

definition disk_map :: "('b, 'z) lsm_env_scheme \<Rightarrow> 'b lsm_store \<Rightarrow> rstring \<rightharpoonup> lsm_value" where
  "disk_map E s = overlay (map (table_at E (lsm_fs s)) (lsm_paths s))"

definition lsm_map :: "('b, 'z) lsm_env_scheme \<Rightarrow> 'b lsm_store \<Rightarrow> rstring \<rightharpoonup> lsm_value" where
  "lsm_map E s = disk_map E s ++ map_of (memtable s)"

definition lsm_view :: "('b, 'z) lsm_env_scheme \<Rightarrow> 'b lsm_store \<Rightarrow> view" where
  "lsm_view E s = (\<lambda>k. Option.bind (lsm_map E s k) as_option)"

section \<open>Invariant\<close>

text \<open>
  What the store relies on outside the crate: lawful serializers (which accept every end line), reads of
  sizes in the log that do not fail, and bloom filters without false negatives.
\<close>

definition lsm_env_ok :: "('b, 'z) lsm_env_scheme \<Rightarrow> bool" where
  "lsm_env_ok E \<longleftrightarrow> sst_env_ok E \<and> codec_ok (line_codec E) \<and> codec_ok (bloom_codec E) \<and>
     (\<forall>u. ser (line_codec E) (EndTx u) \<noteq> None) \<and> size_reads (log_reads E) \<and>
     (\<forall>k b. bloom_contains E (bloom_insert E k b) k) \<and>
     (\<forall>k k' b. bloom_contains E b k \<longrightarrow> bloom_contains E (bloom_insert E k' b) k)"

text \<open>The log of a store can be replayed.\<close>

abbreviation log_replays :: "('b, 'z) lsm_env_scheme \<Rightarrow> 'b lsm_store \<Rightarrow> bool" where
  "log_replays E s \<equiv> log_readable (log_reads E) (log_bytes (lsm_log s) (lsm_fs s))"

text \<open>A map of filters covers the tables: one filter per table, with all its keys.\<close>

definition blooms_cover :: "('b, 'z) lsm_env_scheme \<Rightarrow> path \<Rightarrow> fs \<Rightarrow> (path, 'b) btree \<Rightarrow> bool" where
  "blooms_cover E dir f bm \<longleftrightarrow> map fst bm = sst_paths dir f \<and>
     (\<forall>p b k. bt_get bm p = Some b \<longrightarrow> k \<in> fst ` set (table_at E f p) \<longrightarrow> bloom_contains E b k)"

definition tables_ok :: "('b, 'z) lsm_env_scheme \<Rightarrow> path \<Rightarrow> fs \<Rightarrow> bool" where
  "tables_ok E dir f \<longleftrightarrow> (\<forall>p \<in> set (sst_paths dir f). sst_holds E p (table_at E f p) f)"

text \<open>The log and the filter file do not look like tables and are different files.\<close>

definition paths_ok :: "'b lsm_store \<Rightarrow> bool" where
  "paths_ok s \<longleftrightarrow> bloom_map_path s = data_dir s @ [bs ''bloom_map''] \<and>
     \<not> (in_dir (data_dir s) (log_path (lsm_log s)) \<and> is_sst (log_path (lsm_log s))) \<and>
     log_path (lsm_log s) \<noteq> bloom_map_path s"

definition disk_ok :: "('b, 'z) lsm_env_scheme \<Rightarrow> 'b lsm_store \<Rightarrow> bool" where
  "disk_ok E s \<longleftrightarrow> lsm_env_ok E \<and> faults (lsm_fs s) = [] \<and> bt_wf (files (lsm_fs s)) \<and>
     tables_ok E (data_dir s) (lsm_fs s) \<and> paths_ok s \<and> log_ready (lsm_log s) (lsm_fs s)"

definition lsm_inv :: "('b, 'z) lsm_env_scheme \<Rightarrow> 'b lsm_store \<Rightarrow> bool" where
  "lsm_inv E s \<longleftrightarrow> disk_ok E s \<and> bt_wf (memtable s) \<and>
     blooms_cover E (data_dir s) (lsm_fs s) (bloom_map s)"

lemma disk_okD:
  assumes "disk_ok E s"
  shows "lsm_env_ok E" "sst_env_ok E" "faults (lsm_fs s) = []" "bt_wf (files (lsm_fs s))"
    "tables_ok E (data_dir s) (lsm_fs s)" "paths_ok s" "log_ready (lsm_log s) (lsm_fs s)"
  using assms by (simp_all add: disk_ok_def lsm_env_ok_def)

lemma lsm_invD:
  assumes "lsm_inv E s"
  shows "disk_ok E s" "bt_wf (memtable s)" "blooms_cover E (data_dir s) (lsm_fs s) (bloom_map s)"
  using assms by (simp_all add: lsm_inv_def)

section \<open>Reading through the model of the disk\<close>

lemma on_disk_same: "act (lsm_fs s) = (r, lsm_fs s) \<Longrightarrow> on_disk act s = (r, s)"
  by (cases s) (simp add: on_disk_def)

lemma table_at_holds:
  assumes "sst_env_ok E" and "sst_holds E p m f"
  shows "table_at E f p = m"
proof -
  obtain c where c: "bt_wf m" "readable E m" "file_of p f = Some c" "sst_image E m = Ok c"
    using assms(2) by (auto simp: sst_holds_def)
  obtain idx where idx: "fst (read_index E (reader_at c 0)) = Ok idx"
      "list_all2 (\<lambda>e kv. fst e = fst kv \<and> value_at E c (snd e) (snd kv)) idx m"
    using sst_image_index [OF assms(1) c(1,2,4)] by blast
  with c(3) read_entries_at [OF assms(1) idx(2)] show ?thesis
    by (simp add: table_at_def)
qed

lemma sorted_sst_paths: "bt_wf (files f) \<Longrightarrow> sorted_wrt (<) (sst_paths dir f)"
  by (simp add: sst_paths_def bt_wf_def sorted_wrt_filter)

lemma sort_sst_paths: "bt_wf (files f) \<Longrightarrow> sort (sst_paths dir f) = sst_paths dir f"
  using sorted_sst_paths [of f dir] by (simp add: strict_sorted_iff sorted_sort_id)

lemma get_sstables_asc_ok:
  assumes "faults (lsm_fs s) = []" and "bt_wf (files (lsm_fs s))"
  shows "get_sstables_asc s = (Ok (lsm_paths s), s)"
proof -
  have "on_disk (fs_read_dir (data_dir s)) s =
      (Ok (filter (in_dir (data_dir s)) (map fst (files (lsm_fs s)))), s)"
    by (rule on_disk_same) (simp add: fs_simps assms)
  then show ?thesis
    using sort_sst_paths [OF assms(2), of "data_dir s"]
    by (simp add: get_sstables_asc_def sreturn_def lsm_paths_def sst_paths_def)
qed

text \<open>The newest table that has a key decides.\<close>

fun first_some :: "'a option list \<Rightarrow> 'a option" where
  "first_some [] = None"
| "first_some (Some x # xs) = Some x"
| "first_some (None # xs) = first_some xs"

lemma first_some_append:
  "first_some (xs @ ys) = (case first_some xs of None \<Rightarrow> first_some ys | Some x \<Rightarrow> Some x)"
  by (induction xs rule: first_some.induct) auto

lemma first_some_filter:
  "(\<And>p. p \<in> set ps \<Longrightarrow> \<not> P p \<Longrightarrow> g p = None) \<Longrightarrow>
   first_some (map g (filter P ps)) = first_some (map g ps)"
proof (induction ps)
  case (Cons p ps)
  then show ?case by (cases "g p") auto
qed simp

lemma fold_overlay:
  "fold (\<lambda>m acc. acc ++ map_of m) ms acc k =
     (case first_some (map (\<lambda>m. map_of m k) (rev ms)) of None \<Rightarrow> acc k | Some v \<Rightarrow> Some v)"
proof (induction ms arbitrary: acc)
  case (Cons m ms)
  then show ?case
    by (cases "map_of m k") (auto simp: first_some_append map_add_def split: option.splits)
qed simp

lemma overlay_first_some: "overlay ms k = first_some (map (\<lambda>m. map_of m k) (rev ms))"
  by (auto simp: overlay_def fold_overlay split: option.splits)

lemma overlay_snoc: "overlay (ms @ [m]) = overlay ms ++ map_of m"
  by (simp add: overlay_def)

lemma search_loop_tables:
  assumes "sst_env_ok E" and "faults f = []"
  shows "\<forall>p \<in> set ps. sst_holds E p (table_at E f p) f \<Longrightarrow>
     search_loop E key ps f = (Ok (first_some (map (\<lambda>p. map_of (table_at E f p) key) ps)), f)"
proof (induction ps)
  case Nil
  then show ?case by (simp add: sreturn_def)
next
  case (Cons p ps)
  have "sst_search E p key f = (Ok (bt_get (table_at E f p) key), f)"
    using Cons.prems by (intro sst_search_holds [OF assms]) simp
  with Cons show ?case
    by (cases "map_of (table_at E f p) key") (simp_all add: sreturn_def)
qed

lemma sstables_for_key_eq:
  assumes "bt_wf (files (lsm_fs s))" and "blooms_cover E (data_dir s) (lsm_fs s) (bloom_map s)"
  shows "sstables_for_key E s key =
    rev (filter (\<lambda>p. bloom_contains E (the (bt_get (bloom_map s) p)) key) (lsm_paths s))"
proof -
  have keys: "map fst (bloom_map s) = lsm_paths s"
    using assms(2) by (simp add: blooms_cover_def lsm_paths_def)
  then have wf: "bt_wf (bloom_map s)"
    using sorted_sst_paths [OF assms(1)] by (simp add: bt_wf_def lsm_paths_def)
  have eq: "filter (\<lambda>pb. bloom_contains E (snd pb) key) (bloom_map s) =
      filter (\<lambda>pb. bloom_contains E (the (bt_get (bloom_map s) (fst pb))) key) (bloom_map s)"
    using wf by (intro filter_cong) (auto simp: bt.entries_iff)
  have "map fst (filter (\<lambda>pb. bloom_contains E (snd pb) key) (bloom_map s)) =
      filter (\<lambda>p. bloom_contains E (the (bt_get (bloom_map s) p)) key) (lsm_paths s)"
    unfolding eq keys [symmetric] by (simp add: filter_map comp_def)
  moreover have "sorted (filter (\<lambda>p. bloom_contains E (the (bt_get (bloom_map s) p)) key) (lsm_paths s))"
    using sorted_sst_paths [OF assms(1), of "data_dir s"]
    by (simp add: lsm_paths_def strict_sorted_iff sorted_wrt_filter)
  ultimately show ?thesis
    by (simp add: sstables_for_key_def sorted_sort_id)
qed

lemma search_sstables_ok:
  assumes "lsm_inv E s"
  shows "search_sstables E key s = (Ok (disk_map E s key), s)"
proof -
  note d = disk_okD [OF lsm_invD(1) [OF assms]]
  note bc = lsm_invD(3) [OF assms]
  let ?C = "\<lambda>p. bloom_contains E (the (bt_get (bloom_map s) p)) key"
  let ?g = "\<lambda>p. map_of (table_at E (lsm_fs s) p) key"
  have keys: "map fst (bloom_map s) = lsm_paths s"
    using bc by (simp add: blooms_cover_def lsm_paths_def)
  have miss: "?g p = None" if p: "p \<in> set (rev (lsm_paths s))" and c: "\<not> ?C p" for p
  proof -
    have "p \<in> fst ` set (bloom_map s)"
      using p keys by (metis set_map set_rev)
    then obtain b where "bt_get (bloom_map s) p = Some b"
      by (metis map_of_eq_None_iff option.exhaust)
    with bc c have "key \<notin> fst ` set (table_at E (lsm_fs s) p)"
      by (auto simp: blooms_cover_def)
    then show ?thesis by (simp add: map_of_eq_None_iff)
  qed
  have "search_loop E key (sstables_for_key E s key) (lsm_fs s) =
      (Ok (first_some (map ?g (filter ?C (rev (lsm_paths s))))), lsm_fs s)"
    unfolding sstables_for_key_eq [OF d(4) bc] rev_filter
    using d(5) by (intro search_loop_tables [OF d(2,3)]) (auto simp: tables_ok_def lsm_paths_def)
  also have "first_some (map ?g (filter ?C (rev (lsm_paths s)))) = first_some (map ?g (rev (lsm_paths s)))"
    using miss by (rule first_some_filter)
  also have "\<dots> = disk_map E s key"
    by (simp add: disk_map_def overlay_first_some rev_map comp_def)
  finally show ?thesis
    by (simp add: search_sstables_def on_disk_same)
qed

text \<open>The exact result of a get.\<close>

lemma lsm_get_ok:
  assumes "lsm_inv E s"
  shows "lsm_get E k s =
    (Ok (case bt_get (memtable s) k of
           Some (Data d) \<Rightarrow> Some d
         | _ \<Rightarrow> Option.bind (disk_map E s k) as_option), s)"
  using search_sstables_ok [OF assms, of k]
  by (auto simp: lsm_get_def sreturn_def split: option.splits lsm_value.splits)

section \<open>Scans\<close>

lemma scan_loop_tables:
  assumes "sst_env_ok E" and "faults f = []" and "a \<le> b"
  shows "\<forall>p \<in> set ps. sst_holds E p (table_at E f p) f \<Longrightarrow> bt_wf acc \<Longrightarrow>
     \<exists>r. scan_loop E a b ps acc f = (Ok r, f) \<and> bt_wf r \<and>
       (\<forall>k. in_range a b k \<longrightarrow>
          map_of r k = fold (\<lambda>m acc. acc ++ map_of m) (map (table_at E f) ps) (map_of acc) k) \<and>
       (\<forall>k. \<not> in_range a b k \<longrightarrow> map_of r k = map_of acc k)"
proof (induction ps arbitrary: acc)
  case Nil
  then show ?case by (simp add: sreturn_def)
next
  case (Cons p ps)
  let ?m = "table_at E f p"
  let ?kvs = "filter (\<lambda>e. in_range a b (fst e)) ?m"
  let ?acc = "fold (\<lambda>(k, v). bt_insert k v) ?kvs acc"
  have sc: "sst_scan E p a b f = (Ok ?kvs, f)"
    using Cons.prems by (intro sst_scan_holds [OF assms(1,2) _ assms(3)]) simp
  have wfm: "bt_wf ?m"
    using Cons.prems(1) by (simp add: sst_holds_def)
  have "distinct (map fst ?kvs)"
    using wfm by (intro bt.distinct_entries) simp
  then have "map_of (rev ?kvs) = map_of ?kvs"
    by (intro map_of_rev_distinct)
  then have acc: "map_of ?acc k = (if in_range a b k then (map_of acc ++ map_of ?m) k else map_of acc k)" for k
    using bt.get_fold_insert [OF Cons.prems(2), of ?kvs]
    by (simp add: map_add_def map_of_filter_key split: option.splits)
  obtain r where r: "scan_loop E a b ps ?acc f = (Ok r, f)" "bt_wf r"
      "\<forall>k. in_range a b k \<longrightarrow>
         map_of r k = fold (\<lambda>m acc. acc ++ map_of m) (map (table_at E f) ps) (map_of ?acc) k"
      "\<forall>k. \<not> in_range a b k \<longrightarrow> map_of r k = map_of ?acc k"
    using Cons.IH [of ?acc] Cons.prems bt.inv_fold_insert by auto
  have "map_of r k = fold (\<lambda>m acc. acc ++ map_of m) (map (table_at E f) (p # ps)) (map_of acc) k"
    if "in_range a b k" for k
    using r(3) acc that by (simp add: fold_overlay split: option.splits)
  with r sc acc show ?case
    by auto
qed

lemma lsm_scan_ok:
  assumes "lsm_inv E s" and "a \<le> b"
  shows "lsm_scan E a b s = (Ok (range_values (lsm_view E s) a b), s)"
proof -
  note d = disk_okD [OF lsm_invD(1) [OF assms(1)]]
  note wfm = lsm_invD(2) [OF assms(1)]
  let ?f = "lsm_fs s"
  obtain r where r: "scan_loop E a b (lsm_paths s) [] ?f = (Ok r, ?f)" "bt_wf r"
      "\<forall>k. in_range a b k \<longrightarrow> map_of r k = disk_map E s k"
      "\<forall>k. \<not> in_range a b k \<longrightarrow> map_of r k = None"
    using scan_loop_tables [OF d(2,3) assms(2), of "lsm_paths s" "[]"] d(5)
    by (auto simp: tables_ok_def lsm_paths_def disk_map_def overlay_def)
  let ?mem = "filter (\<lambda>e. in_range a b (fst e)) (memtable s)"
  define R where "R = fold (\<lambda>(k, v). bt_insert k v) ?mem (fold (\<lambda>(k, v). bt_insert k v) r [])"
  have "bt_wf (fold (\<lambda>(k, v). bt_insert k v) r []) \<and> map_of (fold (\<lambda>(k, v). bt_insert k v) r []) = map_of r"
    using bt_get_insert_all [of "[]" r] r(2) by simp
  then have R: "bt_wf R" "map_of R = map_of r ++ map_of ?mem"
    using bt_get_insert_all [of "fold (\<lambda>(k, v). bt_insert k v) r []" ?mem] wfm by (simp_all add: R_def)
  have get: "map_of R k = (if in_range a b k then lsm_map E s k else None)" for k
    using R(2) r(3,4) by (simp add: map_add_def map_of_filter_key lsm_map_def split: option.splits)
  have "List.map_filter (\<lambda>kv. as_option (snd kv)) R =
      List.map_filter (\<lambda>kv. as_option (snd kv)) (filter (\<lambda>e. in_range a b (fst e)) R)"
    using bt_filter_all [OF R(1), of "in_range a b"] get by simp
  also have "\<dots> = range_values (\<lambda>k. Option.bind (map_of R k) as_option) a b"
    by (rule map_filter_range_values [OF R(1)])
  also have "\<dots> = range_values (lsm_view E s) a b"
    by (rule range_values_cong) (simp add: get lsm_view_def)
  finally have res: "List.map_filter (\<lambda>kv. as_option (snd kv)) R = range_values (lsm_view E s) a b" .
  have "scan_sstables E a b s = (Ok r, s)"
    using get_sstables_asc_ok [OF d(3,4)] 
      on_disk_same [where act = "scan_loop E a b (lsm_paths s) []" and s = s, OF r(1)]
    by (simp add: scan_sstables_def)
  moreover have "bt_range a b (memtable s) = Ok ?mem"
    using assms(2) by (simp add: bt_range_def)
  ultimately show ?thesis
    using res by (simp add: lsm_scan_def sbind_def lift_result_def sreturn_def Let_def flip: R_def)
qed

section \<open>Transactions\<close>

fun value_op :: "operation \<Rightarrow> (rstring \<rightharpoonup> lsm_value) \<Rightarrow> rstring \<rightharpoonup> lsm_value" where
  "value_op (Set k v) m = m(k \<mapsto> Data v)"
| "value_op (Delete k) m = m(k \<mapsto> Tombstone)"

lemma fold_memtable_instruction:
  "bt_wf m \<Longrightarrow> bt_wf (fold memtable_instruction ops m) \<and>
     map_of (fold memtable_instruction ops m) = fold value_op ops (map_of m)"
proof (induction ops arbitrary: m)
  case (Cons op ops)
  then show ?case by (cases op) (simp_all add: fun_upd_def)
qed simp

lemma value_op_add: "f ++ value_op op g = value_op op (f ++ g)"
  by (cases op) (auto simp: map_add_def fun_eq_iff)

lemma fold_value_op_add: "f ++ fold value_op ops g = fold value_op ops (f ++ g)"
  by (induction ops arbitrary: g) (simp_all add: value_op_add)

lemma view_value_op:
  "(\<lambda>k. Option.bind (value_op op m k) as_option) = apply_op op (\<lambda>k. Option.bind (m k) as_option)"
  by (cases op) (auto simp: fun_eq_iff)

lemma view_fold_value_op:
  "(\<lambda>k. Option.bind (fold value_op ops m k) as_option) =
   apply_ops ops (\<lambda>k. Option.bind (m k) as_option)"
  by (induction ops arbitrary: m) (simp_all add: apply_ops_def view_value_op)

text \<open>The view depends on the disk through its tables only.\<close>

lemma sst_paths_cong:
  assumes "bt_wf (files f)" and "bt_wf (files f')"
    and "\<And>q. in_dir dir q \<Longrightarrow> is_sst q \<Longrightarrow> bt_get (files f') q = bt_get (files f) q"
  shows "sst_paths dir f' = sst_paths dir f"
proof -
  have sst: "sst_paths dir g = map fst (filter (\<lambda>e. in_dir dir (fst e) \<and> is_sst (fst e)) (files g))" for g
    by (simp add: sst_paths_def filter_map comp_def conj_commute)
  have "filter (\<lambda>e. in_dir dir (fst e) \<and> is_sst (fst e)) (files f') =
      filter (\<lambda>e. in_dir dir (fst e) \<and> is_sst (fst e)) (files f)"
    using assms
    by (intro bt.entries_cong)
      (auto simp: fun_eq_iff map_of_filter_key [where P = "\<lambda>k. in_dir dir k \<and> is_sst k"])
  then show ?thesis by (simp add: sst)
qed

lemma in_sst_paths: "p \<in> set (sst_paths dir f) \<longleftrightarrow> in_dir dir p \<and> is_sst p \<and> file_of p f \<noteq> None"
  by (auto simp: sst_paths_def file_of_def map_of_eq_None_iff)

lemma table_at_cong: "bt_get (files f') p = bt_get (files f) p \<Longrightarrow> table_at E f' p = table_at E f p"
  by (simp add: table_at_def file_of_def)

lemma sst_holds_cong:
  "bt_get (files f') p = bt_get (files f) p \<Longrightarrow> sst_holds E p m f' \<longleftrightarrow> sst_holds E p m f"
  by (simp add: sst_holds_def file_of_def)

text \<open>Two file systems with the same tables.\<close>

definition same_tables :: "path \<Rightarrow> fs \<Rightarrow> fs \<Rightarrow> bool" where
  "same_tables dir f f' \<longleftrightarrow> bt_wf (files f) \<and> bt_wf (files f') \<and>
     (\<forall>q. in_dir dir q \<longrightarrow> is_sst q \<longrightarrow> bt_get (files f') q = bt_get (files f) q)"

lemma same_tablesD:
  assumes "same_tables dir f f'"
  shows "sst_paths dir f' = sst_paths dir f"
    and "p \<in> set (sst_paths dir f) \<Longrightarrow> table_at E f' p = table_at E f p"
    and "tables_ok E dir f \<Longrightarrow> tables_ok E dir f'"
    and "blooms_cover E dir f bm \<Longrightarrow> blooms_cover E dir f' bm"
proof -
  have get: "bt_get (files f') q = bt_get (files f) q" if "q \<in> set (sst_paths dir f)" for q
    using assms that by (auto simp: same_tables_def in_sst_paths)
  show paths: "sst_paths dir f' = sst_paths dir f"
    using assms by (intro sst_paths_cong) (auto simp: same_tables_def)
  show tab: "table_at E f' p = table_at E f p" if "p \<in> set (sst_paths dir f)" for p
    using get [OF that] by (rule table_at_cong)
  show "tables_ok E dir f'" if "tables_ok E dir f"
    using that unfolding tables_ok_def paths
    by (auto simp: tab sst_holds_cong [OF get])
  show "blooms_cover E dir f' bm" if bc: "blooms_cover E dir f bm"
  proof -
    have "p \<in> set (sst_paths dir f)" if "bt_get bm p = Some b" for p b
      using bc that by (metis blooms_cover_def map_of_SomeD fst_conv image_eqI set_map)
    with bc show ?thesis
      by (auto simp: blooms_cover_def paths tab)
  qed
qed

lemma disk_map_same_tables:
  "same_tables (data_dir s) (lsm_fs s) (lsm_fs s') \<Longrightarrow> data_dir s' = data_dir s \<Longrightarrow>
   disk_map E s' = disk_map E s"
  by (auto simp: disk_map_def lsm_paths_def same_tablesD(1) same_tablesD(2)
      intro!: arg_cong [of _ _ overlay] map_cong)

end
