(* ===== verification/LSM_Flush.thy ===== *)
theory LSM_Flush
  imports LSM_View
begin

text \<open>
  What the operations that change the store do to its contents: a transaction extends the log by
  one line and applies its operations to the memtable; a flush moves the memtable into a new
  table, which is the newest because tables are named after the current millisecond, and leaves
  the contents as they were; writing the bloom filters touches neither.
\<close>

section \<open>The log\<close>

lemma disk_step_ok:
  assumes "disk_ok E s" and "\<forall>q. q \<noteq> log_path (lsm_log s) \<longrightarrow> bt_get (files f) q = bt_get (files (lsm_fs s)) q"
    and "faults f = []" and "bt_wf (files f)" and "log_path cl = log_path (lsm_log s)" and "log_ready cl f"
  shows "disk_ok E (s\<lparr>lsm_log := cl, lsm_fs := f\<rparr>) \<and> same_tables (data_dir s) (lsm_fs s) f"
proof -
  have "q \<noteq> log_path (lsm_log s)" if "in_dir (data_dir s) q" "is_sst q" for q
    using that disk_okD(6) [OF assms(1)] by (auto simp: paths_ok_def)
  then have st: "same_tables (data_dir s) (lsm_fs s) f"
    using assms(2,4) disk_okD(4) [OF assms(1)] by (simp add: same_tables_def)
  with assms show ?thesis
    using same_tablesD(3) [OF st, of E] by (auto simp: disk_ok_def paths_ok_def)
qed

lemma log_append_ok:
  assumes "disk_ok E s" and "encode (line_codec E) l = Ok b"
  shows "\<exists>cl f. on_log (append_line (line_codec E) l) s = (Ok (), s\<lparr>lsm_log := cl, lsm_fs := f\<rparr>) \<and>
     disk_ok E (s\<lparr>lsm_log := cl, lsm_fs := f\<rparr>) \<and> same_tables (data_dir s) (lsm_fs s) f \<and>
     cl = (lsm_log s)\<lparr>logfile := True\<rparr> \<and>
     log_bytes cl f = log_bytes (lsm_log s) (lsm_fs s) @ b \<and> clock f = clock (lsm_fs s) \<and>
     (\<forall>q. q \<noteq> log_path (lsm_log s) \<longrightarrow> bt_get (files f) q = bt_get (files (lsm_fs s)) q) \<and>
     map_option mtime (bt_get (files f) (log_path cl)) = Some (clock (lsm_fs s))"
proof -
  let ?cl = "(lsm_log s)\<lparr>logfile := True\<rparr>"
  obtain f where f: "append_line (line_codec E) l (lsm_log s, lsm_fs s) = (Ok (), (?cl, f))"
      "file_of (log_path (lsm_log s)) f = Some (log_bytes (lsm_log s) (lsm_fs s) @ b)"
      "\<forall>q. q \<noteq> log_path (lsm_log s) \<longrightarrow> bt_get (files f) q = bt_get (files (lsm_fs s)) q"
      "map_option mtime (bt_get (files f) (log_path (lsm_log s))) = Some (clock (lsm_fs s))"
      "faults f = []" "clock f = clock (lsm_fs s)" "bt_wf (files f)"
    using append_line_ok [OF disk_okD(3,7) [OF assms(1)] assms(2)] disk_okD(4) [OF assms(1)] by auto
  have "disk_ok E (s\<lparr>lsm_log := ?cl, lsm_fs := f\<rparr>) \<and> same_tables (data_dir s) (lsm_fs s) f"
    using f by (intro disk_step_ok [OF assms(1)]) (simp_all add: log_ready_def)
  with f show ?thesis
    by (intro exI [of _ ?cl] exI [of _ f]) (simp add: on_log_def log_bytes_def)
qed

lemma end_line_encoded: "lsm_env_ok E \<Longrightarrow> \<exists>b. encode (line_codec E) (EndTx u) = Ok b"
proof -
  assume "lsm_env_ok E"
  then have C: "codec_ok (line_codec E)" and "ser (line_codec E) (EndTx u) \<noteq> None"
    by (simp_all add: lsm_env_ok_def)
  then obtain c where "ser (line_codec E) (EndTx u) = Some c"
    by auto
  with codec_okD(3) [OF C this] C show ?thesis
    by (auto simp: encode_eq_Ok)
qed

lemma end_transactions_ok:
  "disk_ok E s \<Longrightarrow>
   \<exists>cl f b. end_transactions E us s = (Ok (), s\<lparr>lsm_log := cl, lsm_fs := f\<rparr>) \<and>
     disk_ok E (s\<lparr>lsm_log := cl, lsm_fs := f\<rparr>) \<and> same_tables (data_dir s) (lsm_fs s) f \<and>
     log_path cl = log_path (lsm_log s) \<and> encode_all (line_codec E) (map EndTx us) = Ok b \<and>
     log_bytes cl f = log_bytes (lsm_log s) (lsm_fs s) @ b \<and> clock f = clock (lsm_fs s) \<and>
     (\<forall>q. q \<noteq> log_path (lsm_log s) \<longrightarrow> bt_get (files f) q = bt_get (files (lsm_fs s)) q) \<and>
     (us \<noteq> [] \<longrightarrow> map_option mtime (bt_get (files f) (log_path cl)) = Some (clock (lsm_fs s)))"
proof (induction us arbitrary: s)
  case Nil
  then have "same_tables (data_dir s) (lsm_fs s) (lsm_fs s)"
    by (simp add: same_tables_def disk_okD(4))
  with Nil show ?case
    by (intro exI [of _ "lsm_log s"] exI [of _ "lsm_fs s"]) (simp add: sreturn_def)
next
  case (Cons u us)
  obtain b where b: "encode (line_codec E) (EndTx u) = Ok b"
    using end_line_encoded [OF disk_okD(1) [OF Cons.prems]] by blast
  obtain cl f where 1: "on_log (append_line (line_codec E) (EndTx u)) s = (Ok (), s\<lparr>lsm_log := cl, lsm_fs := f\<rparr>)"
      "disk_ok E (s\<lparr>lsm_log := cl, lsm_fs := f\<rparr>)" "same_tables (data_dir s) (lsm_fs s) f"
      "log_path cl = log_path (lsm_log s)"
      "log_bytes cl f = log_bytes (lsm_log s) (lsm_fs s) @ b" "clock f = clock (lsm_fs s)"
      "\<forall>q. q \<noteq> log_path (lsm_log s) \<longrightarrow> bt_get (files f) q = bt_get (files (lsm_fs s)) q"
      "map_option mtime (bt_get (files f) (log_path cl)) = Some (clock (lsm_fs s))"
    using log_append_ok [OF Cons.prems b] by auto
  obtain cl' f' b' where 2: "end_transactions E us (s\<lparr>lsm_log := cl, lsm_fs := f\<rparr>) =
        (Ok (), s\<lparr>lsm_log := cl', lsm_fs := f'\<rparr>)"
      "disk_ok E (s\<lparr>lsm_log := cl', lsm_fs := f'\<rparr>)" "same_tables (data_dir s) f f'"
      "log_path cl' = log_path cl" "encode_all (line_codec E) (map EndTx us) = Ok b'"
      "log_bytes cl' f' = log_bytes cl f @ b'" "clock f' = clock f"
      "\<forall>q. q \<noteq> log_path cl \<longrightarrow> bt_get (files f') q = bt_get (files f) q"
      "us \<noteq> [] \<longrightarrow> map_option mtime (bt_get (files f') (log_path cl')) = Some (clock f)"
    using Cons.IH [OF 1(2)] by auto
  have "same_tables (data_dir s) (lsm_fs s) f'"
    using 1(3) 2(3) by (auto simp: same_tables_def)
  moreover have "map_option mtime (bt_get (files f') (log_path cl')) = Some (clock (lsm_fs s))"
  proof (cases "us = []")
    case True
    then have "s\<lparr>lsm_log := cl', lsm_fs := f'\<rparr> = s\<lparr>lsm_log := cl, lsm_fs := f\<rparr>"
      using 2(1) by (simp add: sreturn_def)
    then have "f' = f" "cl' = cl"
      by (metis lsm_store.select_convs(3,11) lsm_store.update_convs(3,11) lsm_store.surjective)+
    with 1 show ?thesis by simp
  qed (use 1 2 in simp)
  ultimately show ?case
    using 1 2 b
    by (intro exI [of _ cl'] exI [of _ f'] exI [of _ "b @ b'"]) (simp add: end_transaction_def)
qed

section \<open>Transactions\<close>

lemma lsm_transact_ok:
  assumes "lsm_inv E s" and "encode (line_codec E) (BeginTx tx) = Ok b"
  shows "\<exists>cl f. lsm_transact E tx s =
       (Ok (), s\<lparr>lsm_log := cl, lsm_fs := f, tx_ids := tx_ids s @ [tx_id tx],
                 memtable := fold memtable_instruction (operations tx) (memtable s)\<rparr>) \<and>
     same_tables (data_dir s) (lsm_fs s) f \<and> disk_ok E (s\<lparr>lsm_log := cl, lsm_fs := f\<rparr>) \<and>
     cl = (lsm_log s)\<lparr>logfile := True\<rparr> \<and>
     log_bytes cl f = log_bytes (lsm_log s) (lsm_fs s) @ b \<and> clock f = clock (lsm_fs s) \<and>
     (\<forall>q. q \<noteq> log_path (lsm_log s) \<longrightarrow> bt_get (files f) q = bt_get (files (lsm_fs s)) q) \<and>
     map_option mtime (bt_get (files f) (log_path cl)) = Some (clock (lsm_fs s))"
proof -
  obtain cl f where 1: "on_log (append_line (line_codec E) (BeginTx tx)) s = (Ok (), s\<lparr>lsm_log := cl, lsm_fs := f\<rparr>)"
      "disk_ok E (s\<lparr>lsm_log := cl, lsm_fs := f\<rparr>)" "same_tables (data_dir s) (lsm_fs s) f"
      "cl = (lsm_log s)\<lparr>logfile := True\<rparr>"
      "log_bytes cl f = log_bytes (lsm_log s) (lsm_fs s) @ b" "clock f = clock (lsm_fs s)"
      "\<forall>q. q \<noteq> log_path (lsm_log s) \<longrightarrow> bt_get (files f) q = bt_get (files (lsm_fs s)) q"
      "map_option mtime (bt_get (files f) (log_path cl)) = Some (clock (lsm_fs s))"
    using log_append_ok [OF lsm_invD(1) [OF assms(1)] assms(2)] by blast
  then show ?thesis
    by (intro exI [of _ cl] exI [of _ f])
      (simp add: lsm_transact_def do_transact_def begin_transaction_def)
qed

text \<open>The invariant and the contents depend on the tables, the memtable and the filters.\<close>

lemma lsm_inv_step:
  assumes "lsm_inv E s" and "disk_ok E s'" and "same_tables (data_dir s) (lsm_fs s) (lsm_fs s')"
    and "data_dir s' = data_dir s" and "bloom_map s' = bloom_map s" and "bt_wf (memtable s')"
  shows "lsm_inv E s'" and "lsm_map E s' = disk_map E s ++ map_of (memtable s')"
proof -
  show "lsm_inv E s'"
    using assms(2,4-6) same_tablesD(4) [OF assms(3) lsm_invD(3) [OF assms(1)]]
    by (simp add: lsm_inv_def)
  show "lsm_map E s' = disk_map E s ++ map_of (memtable s')"
    using disk_map_same_tables [OF assms(3,4), of E] by (simp add: lsm_map_def)
qed

lemma disk_ok_memtable [simp]:
  "disk_ok E (s\<lparr>memtable := m\<rparr>) = disk_ok E s" "disk_ok E (s\<lparr>tx_ids := us\<rparr>) = disk_ok E s"
  "disk_ok E (s\<lparr>bloom_map := bm\<rparr>) = disk_ok E s" "disk_ok E (s\<lparr>is_shutdown := b\<rparr>) = disk_ok E s"
  "disk_ok E (s\<lparr>event_receivers := n\<rparr>) = disk_ok E s" "disk_ok E (s\<lparr>events_sent := ps\<rparr>) = disk_ok E s"
  by (simp_all add: disk_ok_def paths_ok_def)

lemma lsm_transact_step:
  assumes "lsm_inv E s" and "encode (line_codec E) (BeginTx tx) = Ok b"
    and "lsm_transact E tx s = (r, s')"
  shows "r = Ok () \<and> lsm_inv E s' \<and> lsm_map E s' = fold value_op (operations tx) (lsm_map E s) \<and>
     memtable s' = fold memtable_instruction (operations tx) (memtable s) \<and>
     lsm_paths s' = lsm_paths s \<and> clock (lsm_fs s') = clock (lsm_fs s) \<and> data_dir s' = data_dir s"
proof -
  obtain cl f where 1: "r = Ok ()" "s' = s\<lparr>lsm_log := cl, lsm_fs := f, tx_ids := tx_ids s @ [tx_id tx],
                 memtable := fold memtable_instruction (operations tx) (memtable s)\<rparr>"
      "same_tables (data_dir s) (lsm_fs s) f" "disk_ok E (s\<lparr>lsm_log := cl, lsm_fs := f\<rparr>)"
      "clock f = clock (lsm_fs s)"
    using lsm_transact_ok [OF assms(1,2)] assms(3) by auto
  have mem: "bt_wf (memtable s')" "map_of (memtable s') = fold value_op (operations tx) (map_of (memtable s))"
    using fold_memtable_instruction [OF lsm_invD(2) [OF assms(1)]] 1(2) by simp_all
  have "disk_ok E s'"
    using 1(2,4) by simp
  then have "lsm_inv E s'" and "lsm_map E s' = disk_map E s ++ map_of (memtable s')"
    using 1(2,3) mem(1) lsm_inv_step [OF assms(1), of s'] by simp_all
  with 1 mem show ?thesis
    by (simp add: lsm_map_def fold_value_op_add lsm_paths_def same_tablesD(1))
qed

section \<open>Names of tables\<close>

lemma list_less_append: "xs < ys \<Longrightarrow> length xs = length ys \<Longrightarrow> xs @ us < ys @ vs"
  for xs ys :: "'a::order list"
  by (simp add: list_less_def lexord_sufI)

lemma list_less_append_left: "xs < ys \<Longrightarrow> us @ xs < us @ ys"
  for xs ys :: "'a::order list"
  by (simp add: list_less_def lexord_append_leftI)

lemma list_less_single [simp]: "[x] < [y] \<longleftrightarrow> x < y"
  for x y :: "'a::order"
  by (simp add: list_less_def)

lemma digit_byte_less: "d < e \<Longrightarrow> e < 10 \<Longrightarrow> digit_byte d < digit_byte e"
  by (simp add: word_less_nat_alt)

lemma length_dec: "length (dec n) = (if n < 10 then 1 else Suc (length (dec (n div 10))))"
  by (subst dec.simps) simp

lemma dec_less: "n < m \<Longrightarrow> length (dec n) = length (dec m) \<Longrightarrow> dec n < dec m"
proof (induction n arbitrary: m rule: dec.induct)
  case (1 n)
  show ?case
  proof (cases "m < 10")
    case True
    with 1 show ?thesis
      by (simp add: dec.simps [of n] dec.simps [of m] digit_byte_less)
  next
    case False
    with "1.prems"(2) have n: "\<not> n < 10"
      by (auto simp: length_dec [of n] length_dec [of m])
    note d = dec.simps [of n] dec.simps [of m]
    have len: "length (dec (n div 10)) = length (dec (m div 10))"
      using "1.prems"(2) n False by (simp add: length_dec [of n] length_dec [of m])
    show ?thesis
    proof (cases "n div 10 = m div 10")
      case True
      then have "n mod 10 < m mod 10"
        using "1.prems"(1) by (metis div_mult_mod_eq nat_add_left_cancel_less)
      with True n False show ?thesis
        by (simp add: d list_less_append_left digit_byte_less)
    next
      case False
      then have "n div 10 < m div 10"
        using "1.prems"(1) by (meson div_le_mono le_neq_implies_less less_imp_le)
      with n \<open>\<not> m < 10\<close> len "1.IH" show ?thesis
        by (simp add: d list_less_append)
    qed
  qed
qed

lemma length_dec_digits: "10 ^ k \<le> n \<Longrightarrow> n < 10 ^ Suc k \<Longrightarrow> length (dec n) = Suc k"
proof (induction k arbitrary: n)
  case (Suc k)
  then have "10 ^ k \<le> n div 10" "n div 10 < 10 ^ Suc k"
    by (simp_all add: div_greater_zero_iff less_mult_imp_div_less mult.commute
        less_eq_div_iff_mult_less_eq)
  moreover have "10 \<le> n"
  proof -
    have "(1 :: nat) \<le> 10 ^ k" by simp
    with Suc.prems(1) show ?thesis unfolding power_Suc by linarith
  qed
  ultimately show ?case
    using Suc.IH [of "n div 10"] by (subst length_dec) simp
qed (simp add: length_dec)

text \<open>
  Tables are named after a millisecond with thirteen digits (from September 2001 to November
  2286) that is not in the future.
\<close>

definition milli_ok :: "nat \<Rightarrow> bool" where
  "milli_ok t \<longleftrightarrow> 10 ^ 12 \<le> t \<and> t < 10 ^ 13"

definition table_path :: "path \<Rightarrow> nat \<Rightarrow> path" where
  "table_path dir t = dir @ [dec t @ bs ''.sst'']"

definition names_ok :: "'b lsm_store \<Rightarrow> bool" where
  "names_ok s \<longleftrightarrow> milli_ok (as_millis (clock (lsm_fs s))) \<and>
     (\<forall>p \<in> set (lsm_paths s). \<exists>t. p = table_path (data_dir s) t \<and> milli_ok t \<and>
        t \<le> as_millis (clock (lsm_fs s)))"

lemma flush_path_eq: "flush_path s = table_path (data_dir s) (as_millis (clock (lsm_fs s)))"
  by (simp add: flush_path_def table_path_def)

lemma table_path_less: "t < u \<Longrightarrow> milli_ok t \<Longrightarrow> milli_ok u \<Longrightarrow> table_path dir t < table_path dir u"
proof -
  assume tu: "t < u" "milli_ok t" "milli_ok u"
  then have "length (dec t) = length (dec u)"
    using length_dec_digits [of 12 t] length_dec_digits [of 12 u] by (simp add: milli_ok_def)
  then have "dec t @ bs ''.sst'' < dec u @ bs ''.sst''"
    using dec_less [OF tu(1)] by (simp add: list_less_append)
  then show ?thesis
    unfolding table_path_def by (intro list_less_append_left) simp
qed

lemma in_dir_table_path [simp]: "in_dir dir (table_path dir t)"
  by (simp add: in_dir_def table_path_def)

lemma is_sst_table_path [simp]: "is_sst (table_path dir t)"
proof -
  have "bs ''.sst'' = [46, 115, 115, 116]" "bs ''sst'' = [115, 115, 116]"
    by (simp_all add: bs_def)
  moreover have "0 < length (dec t)"
    by simp
  ultimately show ?thesis
    unfolding is_sst_def extension_def table_path_def Let_def
    by (simp del: length_greater_0_conv)
qed

section \<open>Flushing\<close>

lemma filter_bt_insert:
  "bt_wf m \<Longrightarrow> P k \<Longrightarrow>
   filter (\<lambda>e. P (fst e)) (bt_insert k v m) = bt_insert k v (filter (\<lambda>e. P (fst e)) m)"
  by (rule bt.entries_cong) (auto simp: map_of_filter_key fun_eq_iff)

lemma sst_paths_filter:
  "sst_paths dir f = map fst (filter (\<lambda>e. in_dir dir (fst e) \<and> is_sst (fst e)) (files f))"
  by (simp add: sst_paths_def filter_map comp_def conj_commute)

lemma sst_paths_new_table:
  assumes "bt_wf (files f)" and "in_dir dir p" and "is_sst p" and "\<forall>q \<in> set (sst_paths dir f). q < p"
  shows "sst_paths dir (put_file p c f) = sst_paths dir f @ [p]"
proof -
  let ?F = "filter (\<lambda>e. in_dir dir (fst e) \<and> is_sst (fst e)) (files f)"
  have "filter (\<lambda>e. in_dir dir (fst e) \<and> is_sst (fst e)) (files (put_file p c f)) =
      bt_insert p \<lparr>content = c, mtime = clock f\<rparr> ?F"
    using filter_bt_insert [OF assms(1), where P = "\<lambda>q. in_dir dir q \<and> is_sst q"] assms(2,3)
    by (simp add: put_file_def)
  also have "\<dots> = ?F @ [(p, \<lparr>content = c, mtime = clock f\<rparr>)]"
    using assms(4) by (intro bt_insert_snoc) (simp add: sst_paths_filter)
  finally show ?thesis
    by (simp add: sst_paths_filter)
qed

lemma bloom_fold_contains:
  assumes "lsm_env_ok E"
  shows "bloom_contains E b k \<or> k \<in> set ks \<Longrightarrow> bloom_contains E (fold (bloom_insert E) ks b) k"
proof (induction ks arbitrary: b)
  case (Cons k' ks)
  then show ?case
    using assms by (auto simp: lsm_env_ok_def)
qed simp

text \<open>The state right after the table was written and before the log is updated.\<close>

lemma blooms_cover_new:
  assumes env: "lsm_env_ok E" and bc: "blooms_cover E dir g bm" and paths: "sst_paths dir f = sst_paths dir g @ [p]"
    and tq: "\<forall>q \<in> set (sst_paths dir g). table_at E f q = table_at E g q" and tp: "table_at E f p = m"
  shows "blooms_cover E dir f (bm @ [(p, fold (bloom_insert E) (map fst m) (bloom_new E))])"
  unfolding blooms_cover_def
proof (intro conjI allI impI)
  let ?b = "fold (bloom_insert E) (map fst m) (bloom_new E)"
  show "map fst (bm @ [(p, ?b)]) = sst_paths dir f"
    using bc by (simp add: paths blooms_cover_def)
  fix q b k
  assume q: "bt_get (bm @ [(p, ?b)]) q = Some b" and k: "k \<in> fst ` set (table_at E f q)"
  show "bloom_contains E b k"
  proof (cases "bt_get bm q")
    case (Some b')
    then have "q \<in> set (sst_paths dir g)"
      using bc by (metis blooms_cover_def map_of_SomeD fst_conv image_eqI set_map)
    with Some q k bc tq show ?thesis
      by (auto simp: blooms_cover_def map_add_def)
  next
    case None
    with q have "q = p" and b: "b = ?b"
      by (auto simp: map_add_def split: if_splits)
    with k tp have "k \<in> set (map fst m)"
      by simp
    then show ?thesis
      unfolding b using bloom_fold_contains [OF env] by blast
  qed
qed

lemma new_table_step:
  assumes inv: "lsm_inv E s" and rd: "readable E (memtable s)" and p: "in_dir (data_dir s) p" "is_sst p"
    and newest: "\<forall>q \<in> set (lsm_paths s). q < p"
    and w: "sst_write E p (memtable s) (lsm_fs s) = (Ok (), f)"
    and s': "s' = s\<lparr>lsm_fs := f,
       bloom_map := bt_insert p (fold (bloom_insert E) (map fst (memtable s)) (bloom_new E)) (bloom_map s),
       memtable := []\<rparr>"
  shows "lsm_inv E s' \<and> lsm_map E s' = lsm_map E s \<and> lsm_paths s' = lsm_paths s @ [p] \<and> clock f = clock (lsm_fs s)"
proof -
  note d = disk_okD [OF lsm_invD(1) [OF inv]]
  note wfm = lsm_invD(2) [OF inv]
  note bc = lsm_invD(3) [OF inv]
  let ?f = "lsm_fs s" and ?dir = "data_dir s"
  obtain c where c: "file_of p ?f = None" "f = put_file p c ?f"
    using sst_write_OkD [OF d(3,4) w] by blast
  have holds: "sst_holds E p (memtable s) f"
    using sst_write_holds [OF d(3,4) wfm rd w] by simp
  have tp: "table_at E f p = memtable s"
    by (rule table_at_holds [OF d(2) holds])
  have paths: "sst_paths ?dir f = sst_paths ?dir ?f @ [p]"
    unfolding c(2) using newest by (intro sst_paths_new_table [OF d(4) p]) (simp add: lsm_paths_def)
  have other: "bt_get (files f) q = bt_get (files ?f) q" if "q \<in> set (sst_paths ?dir ?f)" for q
    using that newest c(2) by (auto simp: lsm_paths_def)
  have tq: "table_at E f q = table_at E ?f q" if "q \<in> set (sst_paths ?dir ?f)" for q
    by (rule table_at_cong [OF other [OF that]])
  have "tables_ok E ?dir f"
    using d(5) holds tp by (auto simp: tables_ok_def paths tq sst_holds_cong [OF other])
  moreover have "log_ready (lsm_log s) f"
    using d(7) c(2) by (auto simp: log_ready_def)
  moreover have "paths_ok s'"
    using d(6) s' by (auto simp: paths_ok_def)
  ultimately have "disk_ok E s'"
    using d c(2) s' by (simp add: disk_ok_def)
  moreover have bm: "bloom_map s' = bloom_map s @ [(p, fold (bloom_insert E) (map fst (memtable s)) (bloom_new E))]"
    using newest bc s' by (simp add: bt_insert_snoc blooms_cover_def lsm_paths_def flip: set_map)
  have "blooms_cover E ?dir f (bloom_map s')"
    unfolding bm using tq by (intro blooms_cover_new [OF d(1) bc paths _ tp]) simp
  ultimately have "lsm_inv E s'"
    using s' by (simp add: lsm_inv_def)
  moreover have "disk_map E s' = disk_map E s ++ map_of (memtable s)"
    using s' by (simp add: disk_map_def lsm_paths_def paths overlay_snoc tp tq cong: map_cong)
  moreover have "clock f = clock ?f"
    using c(2) by simp
  ultimately show ?thesis
    using s' by (simp add: lsm_map_def lsm_paths_def paths)
qed

lemma write_sstable_wrote:
  "write_sstable E s = (Ok r, s') \<Longrightarrow> memtable s \<noteq> [] \<Longrightarrow>
   \<exists>f. sst_write E (flush_path s) (memtable s) (lsm_fs s) = (Ok (), f)"
  by (cases "sst_write E (flush_path s) (memtable s) (lsm_fs s)")
    (auto simp: write_sstable_def on_disk_def sbind_def Let_def split: result.splits)

lemma write_sstable_step:
  assumes inv: "lsm_inv E s" and rd: "readable E (memtable s)"
    and newest: "\<forall>q \<in> set (lsm_paths s). q < flush_path s"
    and w: "write_sstable E s = (Ok r, s')"
  shows "lsm_inv E s' \<and> lsm_map E s' = lsm_map E s \<and> memtable s' = [] \<and>
     (memtable s = [] \<longrightarrow> r = None \<and> s' = s) \<and>
     (memtable s \<noteq> [] \<longrightarrow> r = Some (flush_path s) \<and> lsm_paths s' = lsm_paths s @ [flush_path s] \<and> tx_ids s' = []) \<and>
     clock (lsm_fs s') = clock (lsm_fs s) \<and> data_dir s' = data_dir s"
proof (cases "memtable s = []")
  case True
  with inv w show ?thesis
    by (auto simp: write_sstable_def)
next
  case False
  let ?p = "flush_path s"
  obtain f where f: "sst_write E ?p (memtable s) (lsm_fs s) = (Ok (), f)"
    using write_sstable_wrote [OF w False] by blast
  define s1 where "s1 = s\<lparr>lsm_fs := f,
       bloom_map := bt_insert ?p (fold (bloom_insert E) (map fst (memtable s)) (bloom_new E)) (bloom_map s),
       memtable := []\<rparr>"
  have 1: "lsm_inv E s1" "lsm_map E s1 = lsm_map E s" "lsm_paths s1 = lsm_paths s @ [?p]"
      "clock f = clock (lsm_fs s)"
    using new_table_step [OF inv rd _ _ newest f s1_def] by (simp_all add: flush_path_eq)
  obtain cl g where 2: "end_transactions E (tx_ids s1) s1 = (Ok (), s1\<lparr>lsm_log := cl, lsm_fs := g\<rparr>)"
      "disk_ok E (s1\<lparr>lsm_log := cl, lsm_fs := g\<rparr>)" "same_tables (data_dir s1) (lsm_fs s1) g"
      "clock g = clock (lsm_fs s1)"
    using end_transactions_ok [OF lsm_invD(1) [OF 1(1)]] by blast
  have s': "r = Some ?p" "s' = s1\<lparr>lsm_log := cl, lsm_fs := g, tx_ids := []\<rparr>"
    using w False f 2(1) by (simp_all add: write_sstable_def on_disk_def s1_def Let_def)
  have "lsm_inv E s'" and "lsm_map E s' = disk_map E s1 ++ map_of (memtable s')"
    using lsm_inv_step [OF 1(1), of s'] 2 s' lsm_invD(2) [OF 1(1)] by simp_all
  moreover have "memtable s1 = []"
    by (simp add: s1_def)
  ultimately show ?thesis
    using 1 2 s' False by (simp add: lsm_map_def lsm_paths_def same_tablesD(1) s1_def)
qed

lemma write_sstable_table:
  assumes inv: "lsm_inv E s" and rd: "readable E (memtable s)"
    and newest: "\<forall>q \<in> set (lsm_paths s). q < flush_path s"
    and w: "write_sstable E s = (Ok r, s')" and ne: "memtable s \<noteq> []"
  shows "table_at E (lsm_fs s') (flush_path s) = memtable s"
proof -
  let ?p = "flush_path s"
  note d = disk_okD [OF lsm_invD(1) [OF inv]]
  obtain f where f: "sst_write E ?p (memtable s) (lsm_fs s) = (Ok (), f)"
    using write_sstable_wrote [OF w ne] by blast
  define s1 where "s1 = s\<lparr>lsm_fs := f,
       bloom_map := bt_insert ?p (fold (bloom_insert E) (map fst (memtable s)) (bloom_new E)) (bloom_map s),
       memtable := []\<rparr>"
  have inv1: "lsm_inv E s1" and p1: "lsm_paths s1 = lsm_paths s @ [?p]"
    using new_table_step [OF inv rd _ _ newest f s1_def] by (simp_all add: flush_path_eq)
  obtain cl g where 2: "end_transactions E (tx_ids s1) s1 = (Ok (), s1\<lparr>lsm_log := cl, lsm_fs := g\<rparr>)"
      "same_tables (data_dir s1) (lsm_fs s1) g"
    using end_transactions_ok [OF lsm_invD(1) [OF inv1]] by blast
  have "s' = s1\<lparr>lsm_log := cl, lsm_fs := g, tx_ids := []\<rparr>"
    using w ne f 2(1) by (simp add: write_sstable_def on_disk_def s1_def Let_def)
  moreover have "?p \<in> set (sst_paths (data_dir s1) (lsm_fs s1))"
    using p1 by (simp add: lsm_paths_def)
  moreover have "table_at E f ?p = memtable s"
    using sst_write_holds [OF d(3,4) lsm_invD(2) [OF inv] rd f] by (simp add: table_at_holds [OF d(2)])
  ultimately show ?thesis
    using same_tablesD(2) [OF 2(2), of ?p E] by (simp add: s1_def)
qed

text \<open>A flush succeeds when the memtable can be serialized and the name is free.\<close>

lemma write_sstable_succeeds:
  assumes inv: "lsm_inv E s" and rd: "readable E (memtable s)" and ne: "memtable s \<noteq> []"
    and newest: "\<forall>q \<in> set (lsm_paths s). q < flush_path s"
    and new: "file_of (flush_path s) (lsm_fs s) = None" and c: "sst_image E (memtable s) = Ok c"
  shows "\<exists>s'. write_sstable E s = (Ok (Some (flush_path s)), s')"
proof -
  let ?p = "flush_path s"
  note d = disk_okD [OF lsm_invD(1) [OF inv]]
  have w: "sst_write E ?p (memtable s) (lsm_fs s) = (Ok (), put_file ?p c (lsm_fs s))"
    by (rule sst_write_image [OF d(3,4) new c])
  define s1 where "s1 = s\<lparr>lsm_fs := put_file ?p c (lsm_fs s),
       bloom_map := bt_insert ?p (fold (bloom_insert E) (map fst (memtable s)) (bloom_new E)) (bloom_map s),
       memtable := []\<rparr>"
  have "lsm_inv E s1"
    using new_table_step [OF inv rd _ _ newest w s1_def] by (simp add: flush_path_eq)
  then obtain cl g where "end_transactions E (tx_ids s1) s1 = (Ok (), s1\<lparr>lsm_log := cl, lsm_fs := g\<rparr>)"
    using end_transactions_ok [OF lsm_invD(1)] by blast
  with w ne show ?thesis
    by (simp add: write_sstable_def on_disk_def s1_def Let_def)
qed

lemma newest_name:
  assumes "names_ok s" and "file_of (flush_path s) (lsm_fs s) = None"
  shows "\<forall>q \<in> set (lsm_paths s). q < flush_path s"
proof
  fix q assume q: "q \<in> set (lsm_paths s)"
  then obtain t where t: "q = table_path (data_dir s) t" "milli_ok t" "t \<le> as_millis (clock (lsm_fs s))"
    using assms(1) by (auto simp: names_ok_def)
  have "t \<noteq> as_millis (clock (lsm_fs s))"
    using q assms(2) t(1) by (auto simp: lsm_paths_def in_sst_paths flush_path_eq)
  with t assms(1) show "q < flush_path s"
    by (simp add: flush_path_eq names_ok_def table_path_less)
qed

lemma write_sstable_names:
  assumes "names_ok s" and "faults (lsm_fs s) = []" and "bt_wf (files (lsm_fs s))"
    and "write_sstable E s = (Ok r, s')" and "memtable s \<noteq> []"
  shows "file_of (flush_path s) (lsm_fs s) = None"
proof -
  obtain f where "sst_write E (flush_path s) (memtable s) (lsm_fs s) = (Ok (), f)"
    using write_sstable_wrote [OF assms(4,5)] by blast
  then show ?thesis
    using sst_write_OkD [OF assms(2,3)] by blast
qed

end
