(* ===== verification/LSM_Instance.thy ===== *)
theory LSM_Instance
  imports LSM_Flush
begin

text \<open>
  An instance of everything the LSM store takes as a parameter: serializers in the documented
  layout, complete reads for tables, the buffered reads of the log, and a
  bloom filter that is an exact set of keys.  The examples of the following theories run on it,
  from a store over an empty directory.
\<close>

definition enc_filter :: "path \<times> rstring list \<Rightarrow> bytes" where
  "enc_filter pb = enc_list enc_bytes (fst pb) @ enc_list enc_bytes (snd pb)"

definition p_filter :: "(path \<times> rstring list) parser" where
  "p_filter = p_bind (p_list p_bytes) (\<lambda>p. p_bind (p_list p_bytes) (\<lambda>b. p_return (p, b)))"

definition bloom_bincode :: "(path, rstring list) btree codec" where
  "bloom_bincode = codec_of (enc_list enc_filter) (p_list p_filter)"

definition ex_lsm :: "rstring list lsm_env" where
  "ex_lsm =
     \<lparr>value_codec = value_bincode, index_codec = index_bincode, read_env = whole_reads,
      line_codec = line_bincode, log_reads = buffered_reads, bloom_codec = bloom_bincode,
      bloom_new = [], bloom_insert = (#), bloom_contains = (\<lambda>b k. k \<in> set b)\<rparr>"

lemma enc_bytes_not_Nil: "enc_bytes xs \<noteq> []"
  by (simp add: enc_bytes_def flip: length_0_conv)

lemma reads_filter: "reads p_filter enc_filter"
  unfolding reads_def
proof (intro allI impI)
  fix pb r assume len: "length (enc_filter pb) < 2 ^ 64"
  have rl: "length (enc_list enc_bytes xs) < 2 ^ 64 \<Longrightarrow>
      p_list p_bytes (enc_list enc_bytes xs @ r) = Some (xs, r)" for xs r
    by (rule readsD [OF reads_list [OF reads_bytes enc_bytes_not_Nil]])
  from len show "p_filter (enc_filter pb @ r) = Some (pb, r)"
    by (simp add: p_filter_def enc_filter_def layout rl p_return_def)
qed

lemma bloom_bincode_ok: "codec_ok bloom_bincode"
  unfolding bloom_bincode_def
proof (intro codec_of_ok reads_list [OF reads_filter])
  fix pb show "enc_filter pb \<noteq> []"
    by (simp add: enc_filter_def enc_list_def flip: length_0_conv)
qed

lemma ex_lsm_ok: "lsm_env_ok ex_lsm"
proof -
  have "sst_env_ok ex_lsm"
    using ex_sst_ok by (simp add: sst_env_ok_def ex_lsm_def ex_sst_def full_read_def read_whole_def whole_reads_def)
  moreover have "ser line_bincode (EndTx u) \<noteq> None" for u
    by (simp add: line_bincode_def codec_of_def enc_uuid_def)
  ultimately show ?thesis
    by (simp add: lsm_env_ok_def ex_lsm_def line_bincode_ok bloom_bincode_ok)
qed

lemma readable_ex_lsm [simp]: "readable ex_lsm m"
  by (simp add: readable_def ex_lsm_def)

text \<open>A store over an empty directory, in July 2024.\<close>

definition empty_disk :: fs where
  "empty_disk = \<lparr>files = [], clock = 1720000000000000000, faults = []\<rparr>"

definition ex_store :: "rstring list lsm_store" where
  "ex_store = lsm_new [bs ''data''] [bs ''data'', bs ''commit_log''] 1 empty_disk"

lemma lsm_new_inv:
  assumes "lsm_env_ok E" and "faults f = []" and "bt_wf (files f)" and "sst_paths dir f = []"
    and "\<not> (in_dir dir lp \<and> is_sst lp)" and "lp \<noteq> dir @ [bs ''bloom_map'']"
  shows "lsm_inv E (lsm_new dir lp n f)" and "lsm_map E (lsm_new dir lp n f) = Map.empty"
    and "names_ok (lsm_new dir lp n f) \<longleftrightarrow> milli_ok (as_millis (clock f))"
  using assms
  by (auto simp: lsm_inv_def disk_ok_def lsm_new_def tables_ok_def paths_ok_def log_ready_def
      commit_log_new_def blooms_cover_def lsm_map_def disk_map_def lsm_paths_def overlay_def names_ok_def)

lemma ex_store_inv: "lsm_inv ex_lsm ex_store" "lsm_map ex_lsm ex_store = Map.empty" "names_ok ex_store"
proof -
  have lp: "\<not> is_sst [bs ''data'', bs ''commit_log'']"
      "[bs ''data'', bs ''commit_log''] \<noteq> [bs ''data''] @ [bs ''bloom_map'']"
    by (simp_all add: is_sst_def extension_def bs_def)
  have "milli_ok (as_millis 1720000000000000000)"
    by (simp add: milli_ok_def as_millis_def)
  then show "lsm_inv ex_lsm ex_store" "lsm_map ex_lsm ex_store = Map.empty" "names_ok ex_store"
    using lp lsm_new_inv [OF ex_lsm_ok, of empty_disk "[bs ''data'']" "[bs ''data'', bs ''commit_log'']" 1]
    by (simp_all add: ex_store_def empty_disk_def sst_paths_def)
qed

lemma encode_ex_lsm: "encode (line_codec ex_lsm) = encode line_bincode"
  by (simp add: ex_lsm_def)

lemma length_enc_set: "length (enc_line (BeginTx (ex_set i k v))) = 56 + length k + length v"
  by (simp add: enc_tx_def enc_uuid_def ex_set_def with_random_id_def operation_set_def enc_list_def)

text \<open>Small transactions are accepted by the serializer.\<close>

definition ex_delete :: "uuid \<Rightarrow> string \<Rightarrow> transaction" where
  "ex_delete i k = with_random_id i [operation_delete (bs k)]"

lemma length_enc_delete: "length (enc_line (BeginTx (ex_delete i k))) = 48 + length k"
  by (simp add: enc_tx_def enc_uuid_def ex_delete_def with_random_id_def operation_delete_def enc_list_def)

lemma encode_ex_set:
  "length k + length v < 1000 \<Longrightarrow> \<exists>b. encode (line_codec ex_lsm) (BeginTx (ex_set i k v)) = Ok b"
  using encode_line_bincode [of "BeginTx (ex_set i k v)"]
  by (auto simp: encode_ex_lsm length_enc_set simp del: enc_line.simps)

lemma ex_set_line:
  assumes "length k + length v < 1000"
  shows "encode (line_codec ex_lsm) (BeginTx (ex_set i k v)) =
      Ok (u64_to_be (of_nat (56 + length k + length v)) @ enc_line (BeginTx (ex_set i k v)))"
  using assms by (simp add: encode_ex_lsm encode_line_bincode length_enc_set del: enc_line.simps)

lemma encode_ex_end: "encode (line_codec ex_lsm) (EndTx u) = Ok (u64_to_be 28 @ enc_line (EndTx u))"
  using encode_line_bincode [of "EndTx u"] by (simp add: encode_ex_lsm enc_uuid_def)

text \<open>Logs of small transactions can be replayed.\<close>

lemma small_log_ex [simp]:
  "small_log (line_codec ex_lsm) []"
  "small_log (line_codec ex_lsm) (BeginTx (ex_set i k v) # ls) \<longleftrightarrow>
     length k + length v \<le> 8 \<and> small_log (line_codec ex_lsm) ls"
  "small_log (line_codec ex_lsm) (EndTx u # ls) \<longleftrightarrow> small_log (line_codec ex_lsm) ls"
proof -
  have "ser (line_codec ex_lsm) (BeginTx (ex_set i k v)) =
      (if 56 + length k + length v < 2 ^ 64 then Some (enc_line (BeginTx (ex_set i k v))) else None)"
    "ser (line_codec ex_lsm) (EndTx u) = Some (enc_line (EndTx u))" for i k v u
    by (simp_all add: ex_lsm_def line_bincode_def codec_of_def length_enc_set enc_uuid_def del: enc_line.simps(1))
  then show
    "small_log (line_codec ex_lsm) []"
    "small_log (line_codec ex_lsm) (BeginTx (ex_set i k v) # ls) \<longleftrightarrow>
       length k + length v \<le> 8 \<and> small_log (line_codec ex_lsm) ls"
    "small_log (line_codec ex_lsm) (EndTx u # ls) \<longleftrightarrow> small_log (line_codec ex_lsm) ls"
    by (simp_all add: small_log_def length_enc_set enc_uuid_def del: enc_line.simps(1))
qed

lemma ex_log_readable:
  "encode_all (line_codec ex_lsm) ls = Ok b \<Longrightarrow> small_log (line_codec ex_lsm) ls \<Longrightarrow> length b \<le> 8192 \<Longrightarrow>
   log_readable (log_reads ex_lsm) b"
  using buffered_log [of line_bincode ls b] line_bincode_ok by (simp add: ex_lsm_def)

lemma encode_ex_delete:
  "length k < 1000 \<Longrightarrow> \<exists>b. encode (line_codec ex_lsm) (BeginTx (ex_delete i k)) = Ok b"
  using encode_line_bincode [of "BeginTx (ex_delete i k)"]
  by (auto simp: encode_ex_lsm length_enc_delete simp del: enc_line.simps)

lemma ex_image: "\<exists>c. sst_image ex_lsm [(bs ''foo'', Data (bs ''bar''))] = Ok c"
  by (simp add: sst_image_def ex_lsm_def value_bincode_def index_bincode_def codec_of_def
        checked_add_def length_enc_index)

text \<open>
  The store after one key was set and flushed, and after the key was deleted.
\<close>

definition ex_flushed :: "rstring list lsm_store" where
  "ex_flushed = snd (write_sstable ex_lsm (snd (lsm_transact ex_lsm (ex_set 1 ''foo'' ''bar'') ex_store)))"

definition ex_deleted :: "rstring list lsm_store" where
  "ex_deleted = snd (lsm_transact ex_lsm (ex_delete 2 ''foo'') ex_flushed)"

lemma ex_set_step:
  "\<exists>s. lsm_transact ex_lsm (ex_set 1 ''foo'' ''bar'') ex_store = (Ok (), s) \<and> lsm_inv ex_lsm s \<and>
     memtable s = [(bs ''foo'', Data (bs ''bar''))] \<and> lsm_paths s = [] \<and> names_ok s \<and>
     lsm_map ex_lsm s = [bs ''foo'' \<mapsto> Data (bs ''bar'')]"
proof -
  obtain b where b: "encode (line_codec ex_lsm) (BeginTx (ex_set 1 ''foo'' ''bar'')) = Ok b"
    using encode_ex_set [of "''foo''" "''bar''" 1] by auto
  obtain r s where t: "lsm_transact ex_lsm (ex_set 1 ''foo'' ''bar'') ex_store = (r, s)"
    by (cases "lsm_transact ex_lsm (ex_set 1 ''foo'' ''bar'') ex_store")
  have "memtable ex_store = []" "lsm_paths ex_store = []"
    by (simp_all add: ex_store_def lsm_new_def lsm_paths_def sst_paths_def empty_disk_def)
  then show ?thesis
    using lsm_transact_step [OF ex_store_inv(1) b t] t ex_store_inv(2,3)
    by (auto simp: ex_set_def with_random_id_def operation_set_def names_ok_def)
qed

lemma ex_flushed_step:
  "\<exists>p. write_sstable ex_lsm (snd (lsm_transact ex_lsm (ex_set 1 ''foo'' ''bar'') ex_store)) =
     (Ok (Some p), ex_flushed) \<and> lsm_inv ex_lsm ex_flushed \<and> memtable ex_flushed = [] \<and> names_ok ex_flushed \<and>
     lsm_map ex_lsm ex_flushed = [bs ''foo'' \<mapsto> Data (bs ''bar'')]"
proof -
  obtain s where s: "lsm_transact ex_lsm (ex_set 1 ''foo'' ''bar'') ex_store = (Ok (), s)" "lsm_inv ex_lsm s"
      "memtable s = [(bs ''foo'', Data (bs ''bar''))]" "lsm_paths s = []" "names_ok s"
      "lsm_map ex_lsm s = [bs ''foo'' \<mapsto> Data (bs ''bar'')]"
    using ex_set_step by blast
  have "file_of (flush_path s) (lsm_fs s) = None"
    using s(4) in_sst_paths [of "flush_path s" "data_dir s" "lsm_fs s"]
    by (simp add: lsm_paths_def flush_path_eq)
  moreover obtain c where "sst_image ex_lsm (memtable s) = Ok c"
    using ex_image s(3) by auto
  ultimately obtain s' where w: "write_sstable ex_lsm s = (Ok (Some (flush_path s)), s')"
    using write_sstable_succeeds [OF s(2) readable_ex_lsm] s(3,4) by auto
  then have "ex_flushed = s'"
    using s(1) by (simp add: ex_flushed_def)
  moreover have "lsm_inv ex_lsm s' \<and> lsm_map ex_lsm s' = lsm_map ex_lsm s \<and> memtable s' = [] \<and>
      lsm_paths s' = [flush_path s] \<and> clock (lsm_fs s') = clock (lsm_fs s) \<and> data_dir s' = data_dir s"
    using write_sstable_step [OF s(2) readable_ex_lsm _ w] s(3,4) by simp
  ultimately show ?thesis
    using w s(1,5,6) by (auto simp: names_ok_def flush_path_eq)
qed

lemma ex_deleted_step:
  "lsm_transact ex_lsm (ex_delete 2 ''foo'') ex_flushed = (Ok (), ex_deleted) \<and> lsm_inv ex_lsm ex_deleted \<and>
   memtable ex_deleted = [(bs ''foo'', Tombstone)] \<and>
   lsm_map ex_lsm ex_deleted = [bs ''foo'' \<mapsto> Tombstone] \<and>
   disk_map ex_lsm ex_deleted = [bs ''foo'' \<mapsto> Data (bs ''bar'')]"
proof -
  have f: "lsm_inv ex_lsm ex_flushed" "memtable ex_flushed = []"
      "lsm_map ex_lsm ex_flushed = [bs ''foo'' \<mapsto> Data (bs ''bar'')]"
    using ex_flushed_step by blast+
  obtain b where b: "encode (line_codec ex_lsm) (BeginTx (ex_delete 2 ''foo'')) = Ok b"
    using encode_ex_delete [of "''foo''" 2] by auto
  obtain r s where t: "lsm_transact ex_lsm (ex_delete 2 ''foo'') ex_flushed = (r, s)"
    by (cases "lsm_transact ex_lsm (ex_delete 2 ''foo'') ex_flushed")
  obtain cl g where "s = ex_flushed\<lparr>lsm_log := cl, lsm_fs := g, tx_ids := tx_ids ex_flushed @ [2],
        memtable := fold memtable_instruction (operations (ex_delete 2 ''foo'')) (memtable ex_flushed)\<rparr>"
      "same_tables (data_dir ex_flushed) (lsm_fs ex_flushed) g"
    using lsm_transact_ok [OF f(1) b] t by (auto simp: ex_delete_def with_random_id_def)
  then have "disk_map ex_lsm s = disk_map ex_lsm ex_flushed"
    by (intro disk_map_same_tables) simp_all
  then have "disk_map ex_lsm s = [bs ''foo'' \<mapsto> Data (bs ''bar'')]"
    using f(2,3) by (simp add: lsm_map_def)
  moreover have "s = ex_deleted"
    using t by (simp add: ex_deleted_def)
  ultimately show ?thesis
    using lsm_transact_step [OF f(1) b t] t f(2,3)
    by (simp add: ex_delete_def with_random_id_def operation_delete_def)
qed

end
