(* ===== verification/LSM_Contract.thy ===== *)
theory LSM_Contract
  imports LSM_Instance
begin

text \<open>
  The LSM store as a store.  It satisfies the contract of transactions and scans under every
  interleaving with its own background work (flushes, writing of the bloom filters, shutdown,
  the passing of time), deletions included; it satisfies the contract with \<^verbatim>\<open>get\<close> as well
  as long as no transaction deletes, and then it cannot be told apart from the in-memory store.
  A deletion is where \<^verbatim>\<open>get\<close> departs from \<^verbatim>\<open>scan\<close>: a key whose value lies in a table
  keeps that value for \<^verbatim>\<open>get\<close> until the tombstone is flushed as well.
\<close>

section \<open>Writing the bloom filters\<close>

lemma not_is_sst_bloom_map: "\<not> is_sst (dir @ [bs ''bloom_map''])"
  by (simp add: is_sst_def extension_def bs_def)

lemma write_bloom_map_eq:
  assumes "faults (lsm_fs s) = []" and "bt_wf (files (lsm_fs s))" and "bloom_map s \<noteq> []"
  shows "write_bloom_map E s =
    (case ser (bloom_codec E) (bloom_map s) of
       None \<Rightarrow> (Err Err_Bincode, s)
     | Some buf \<Rightarrow> (Ok (), s\<lparr>lsm_fs := put_file (bloom_map_path s) buf (lsm_fs s)\<rparr>))"
  using assms fs_write_all_end [of "put_file (bloom_map_path s) [] (lsm_fs s)" "bloom_map_path s" "[]"]
  by (auto simp: write_bloom_map_def lift_result_def on_disk_def fs_open_truncate_def fs_simps
      split: option.splits)

lemma write_bloom_map_step:
  assumes inv: "lsm_inv E s" and w: "write_bloom_map E s = (Ok (), s')"
  shows "lsm_inv E s' \<and> lsm_map E s' = lsm_map E s \<and> memtable s' = memtable s \<and> tx_ids s' = tx_ids s \<and>
     lsm_paths s' = lsm_paths s \<and> disk_map E s' = disk_map E s \<and>
     clock (lsm_fs s') = clock (lsm_fs s) \<and> data_dir s' = data_dir s"
proof (cases "bloom_map s = []")
  case True
  with inv w show ?thesis
    by (simp add: write_bloom_map_def)
next
  case False
  note d = disk_okD [OF lsm_invD(1) [OF inv]]
  obtain buf where s': "s' = s\<lparr>lsm_fs := put_file (bloom_map_path s) buf (lsm_fs s)\<rparr>"
    using w write_bloom_map_eq [OF d(3,4) False, of E] by (auto split: option.splits)
  have "bloom_map_path s = data_dir s @ [bs ''bloom_map'']"
    using d(6) by (simp add: paths_ok_def)
  then have st: "same_tables (data_dir s) (lsm_fs s) (lsm_fs s')"
    using d(4) s' not_is_sst_bloom_map by (auto simp: same_tables_def)
  have "paths_ok s'"
    using d(6) s' by (auto simp: paths_ok_def)
  then have "disk_ok E s'"
    using d s' same_tablesD(3) [OF st, of E] by (auto simp: disk_ok_def log_ready_def)
  then show ?thesis
    using lsm_inv_step [OF inv _ st] lsm_invD(2) [OF inv] disk_map_same_tables [OF st, of E] s'
      same_tablesD(1) [OF st]
    by (simp add: lsm_map_def lsm_paths_def)
qed

section \<open>Live stores and their background work\<close>

definition lsm_live :: "('b, 'z) lsm_env_scheme \<Rightarrow> 'b lsm_store \<Rightarrow> bool" where
  "lsm_live E s \<longleftrightarrow> lsm_inv E s \<and> names_ok s"

inductive lsm_internal :: "('b, 'z) lsm_env_scheme \<Rightarrow> 'b lsm_store \<Rightarrow> 'b lsm_store \<Rightarrow> bool"
  for E where
  int_flush: "write_sstable E s = (Ok r, s') \<Longrightarrow> readable E (memtable s) \<Longrightarrow> lsm_internal E s s'"
| int_tick: "background_tick E s = (Ok t, s') \<Longrightarrow> readable E (memtable s) \<Longrightarrow> lsm_internal E s s'"
| int_filters: "write_bloom_map E s = (Ok (), s') \<Longrightarrow> lsm_internal E s s'"
| int_shutdown: "lsm_shutdown E s = (Ok (), s') \<Longrightarrow> readable E (memtable s) \<Longrightarrow> lsm_internal E s s'"
| int_time: "clock (lsm_fs s) \<le> t \<Longrightarrow> milli_ok (as_millis t) \<Longrightarrow>
    lsm_internal E s (s\<lparr>lsm_fs := (lsm_fs s)\<lparr>clock := t\<rparr>\<rparr>)"
| int_subscribe: "lsm_internal E s (lsm_events s)"

text \<open>What every step of the background work keeps.\<close>

definition same_contents :: "('b, 'z) lsm_env_scheme \<Rightarrow> 'b lsm_store \<Rightarrow> 'b lsm_store \<Rightarrow> bool" where
  "same_contents E s s' \<longleftrightarrow> lsm_live E s' \<and> lsm_map E s' = lsm_map E s \<and>
     (memtable s' = [] \<or> memtable s' = memtable s \<and> disk_map E s' = disk_map E s)"

lemma live_fields:
  "lsm_live E s \<Longrightarrow> lsm_live E (s\<lparr>is_shutdown := b\<rparr>)"
  "lsm_live E s \<Longrightarrow> lsm_live E (s\<lparr>events_sent := ps\<rparr>)"
  "lsm_live E s \<Longrightarrow> lsm_live E (s\<lparr>event_receivers := n\<rparr>)"
  by (simp_all add: lsm_live_def lsm_inv_def names_ok_def lsm_paths_def)

lemma map_fields [simp]:
  "disk_map E (s\<lparr>is_shutdown := b\<rparr>) = disk_map E s" "disk_map E (s\<lparr>events_sent := ps\<rparr>) = disk_map E s"
  "disk_map E (s\<lparr>event_receivers := n\<rparr>) = disk_map E s"
  "lsm_map E (s\<lparr>is_shutdown := b\<rparr>) = lsm_map E s" "lsm_map E (s\<lparr>events_sent := ps\<rparr>) = lsm_map E s"
  "lsm_map E (s\<lparr>event_receivers := n\<rparr>) = lsm_map E s"
  by (simp_all add: lsm_map_def disk_map_def lsm_paths_def)

lemma flush_same:
  assumes "lsm_live E s" and "readable E (memtable s)" and "write_sstable E s = (Ok r, s')"
  shows "same_contents E s s' \<and> memtable s' = []"
proof (cases "memtable s = []")
  case True
  with assms show ?thesis
    by (auto simp: write_sstable_def same_contents_def)
next
  case False
  have inv: "lsm_inv E s" and nm: "names_ok s"
    using assms(1) by (simp_all add: lsm_live_def)
  have newest: "\<forall>q \<in> set (lsm_paths s). q < flush_path s"
    using write_sstable_names [OF nm disk_okD(3,4) [OF lsm_invD(1) [OF inv]] assms(3) False]
    by (rule newest_name [OF nm])
  have st: "lsm_inv E s'" "lsm_map E s' = lsm_map E s" "memtable s' = []"
      "lsm_paths s' = lsm_paths s @ [flush_path s]"
      "clock (lsm_fs s') = clock (lsm_fs s)" "data_dir s' = data_dir s"
    using write_sstable_step [OF inv assms(2) newest assms(3)] False by simp_all
  have "names_ok s'"
    using nm st(4-6) by (auto simp: names_ok_def flush_path_eq)
  with st show ?thesis
    by (simp add: same_contents_def lsm_live_def)
qed

lemma filters_same:
  assumes "lsm_live E s" and "write_bloom_map E s = (Ok (), s')"
  shows "same_contents E s s'"
  using write_bloom_map_step [OF _ assms(2)] assms(1)
  by (auto simp: same_contents_def lsm_live_def names_ok_def)

lemma time_same:
  assumes "lsm_live E s" and "clock (lsm_fs s) \<le> t" and "milli_ok (as_millis t)"
  shows "same_contents E s (s\<lparr>lsm_fs := (lsm_fs s)\<lparr>clock := t\<rparr>\<rparr>)"
proof -
  let ?s = "s\<lparr>lsm_fs := (lsm_fs s)\<lparr>clock := t\<rparr>\<rparr>"
  have inv: "lsm_inv E s"
    using assms(1) by (simp add: lsm_live_def)
  have st: "same_tables (data_dir s) (lsm_fs s) (lsm_fs ?s)"
    using disk_okD(4) [OF lsm_invD(1) [OF inv]] by (simp add: same_tables_def)
  have "paths_ok ?s"
    using disk_okD(6) [OF lsm_invD(1) [OF inv]] by (auto simp: paths_ok_def)
  then have "disk_ok E ?s"
    using lsm_invD(1) [OF inv] same_tablesD(3) [OF st, of E]
    by (simp add: disk_ok_def log_ready_def file_of_def)
  moreover have "as_millis (clock (lsm_fs s)) \<le> as_millis t"
    using assms(2) by (simp add: as_millis_def div_le_mono)
  then have "names_ok ?s"
    using assms(1,3) same_tablesD(1) [OF st]
    by (fastforce simp: lsm_live_def names_ok_def lsm_paths_def)
  ultimately show ?thesis
    using lsm_inv_step [OF inv _ st] lsm_invD(2) [OF inv] disk_map_same_tables [OF st, of E]
    by (simp add: same_contents_def lsm_live_def lsm_map_def)
qed

lemma same_contents_trans:
  "same_contents E s s' \<Longrightarrow> same_contents E s' s'' \<Longrightarrow> same_contents E s s''"
  by (auto simp: same_contents_def)

lemma tick_same:
  assumes "lsm_live E s" and "readable E (memtable s)" and "background_tick E s = (Ok t, s')"
  shows "same_contents E s s'"
proof (cases "\<not> is_shutdown s \<and> should_flush_memtable s")
  case False
  with assms show ?thesis
    by (auto simp: background_tick_def same_contents_def split: if_splits)
next
  case True
  then obtain r s1 where w: "write_sstable E s = (Ok r, s1)"
      "s' = s1 \<or> (\<exists>ps. s' = s1\<lparr>events_sent := ps\<rparr>)"
    using assms(3)
    by (auto simp: background_tick_def split: prod.splits result.splits option.splits if_splits)
  then show ?thesis
    using flush_same [OF assms(1,2) w(1)]
    by (auto simp: same_contents_def live_fields)
qed

lemma shutdown_same:
  assumes "lsm_live E s" and "readable E (memtable s)" and "lsm_shutdown E s = (Ok (), s')"
  shows "same_contents E s s'"
proof -
  obtain r s1 where w: "write_sstable E (s\<lparr>is_shutdown := True\<rparr>) = (Ok r, s1)"
      "write_bloom_map E s1 = (Ok (), s')"
    using assms(3) by (auto simp: lsm_shutdown_def sbind_eq_Ok_iff)
  have 1: "same_contents E (s\<lparr>is_shutdown := True\<rparr>) s1"
    using flush_same [OF live_fields(1) [OF assms(1)] _ w(1)] assms(2) by simp
  then have "same_contents E s1 s'"
    using filters_same [OF _ w(2)] by (simp add: same_contents_def)
  with 1 show ?thesis
    by (auto simp: same_contents_def)
qed

lemma internal_same: "lsm_internal E s s' \<Longrightarrow> lsm_live E s \<Longrightarrow> same_contents E s s'"
proof (induction rule: lsm_internal.induct)
  case (int_subscribe s)
  then show ?case
    by (simp add: same_contents_def lsm_events_def live_fields)
qed (blast intro: flush_same [THEN conjunct1] tick_same filters_same shutdown_same time_same)+

lemma end_transactions_receivers:
  "end_transactions E us s = (r, s') \<Longrightarrow> event_receivers s' = event_receivers s"
proof (induction us arbitrary: s)
  case (Cons u us)
  obtain r1 l f where "end_transaction (line_codec E) u (lsm_log s, lsm_fs s) = (r1, (l, f))"
    by (metis prod.exhaust)
  with Cons show ?case
    by (cases r1) (fastforce simp: on_log_def sbind_def)+
qed (simp add: sreturn_def)

lemma write_sstable_receivers:
  assumes "write_sstable E s = (Ok r, s')"
  shows "event_receivers s' = event_receivers s"
proof (cases "memtable s = []")
  case False
  then obtain f where f: "sst_write E (flush_path s) (memtable s) (lsm_fs s) = (Ok (), f)"
    using write_sstable_wrote [OF assms] by blast
  obtain r1 s1 where e: "end_transactions E (tx_ids s) (s\<lparr>lsm_fs := f,
       bloom_map := bt_insert (flush_path s) (fold (bloom_insert E) (map fst (memtable s)) (bloom_new E)) (bloom_map s),
       memtable := []\<rparr>) = (r1, s1)"
    by fastforce
  have "s' = s1\<lparr>tx_ids := []\<rparr>"
    using assms False f e
    by (cases r1) (simp_all add: write_sstable_def on_disk_def Let_def sbind_def)
  then show ?thesis
    using end_transactions_receivers [OF e] by simp
qed (use assms in \<open>simp add: write_sstable_def\<close>)

section \<open>The contracts\<close>

definition loggable :: "('b, 'z) lsm_env_scheme \<Rightarrow> transaction \<Rightarrow> bool" where
  "loggable E tx \<longleftrightarrow> (\<exists>b. encode (line_codec E) (BeginTx tx) = Ok b)"

lemma lsm_transact_live:
  assumes "lsm_live E s" and "loggable E tx"
  shows "\<exists>s'. lsm_transact E tx s = (Ok (), s') \<and> lsm_live E s' \<and>
     lsm_view E s' = apply_ops (operations tx) (lsm_view E s)"
proof -
  obtain b where b: "encode (line_codec E) (BeginTx tx) = Ok b"
    using assms(2) by (auto simp: loggable_def)
  obtain r s' where t: "lsm_transact E tx s = (r, s')"
    by (cases "lsm_transact E tx s")
  have "r = Ok () \<and> lsm_live E s' \<and> lsm_map E s' = fold value_op (operations tx) (lsm_map E s)"
    using lsm_transact_step [OF _ b t] assms(1) by (auto simp: lsm_live_def names_ok_def)
  with t show ?thesis
    by (auto simp: lsm_view_def view_fold_value_op)
qed

interpretation lsm_txn: txn_store "lsm_live E" "lsm_view E" "loggable E" "lsm_internal E"
    "lsm_scan E" "lsm_transact E"
  for E :: "('b, 'z) lsm_env_scheme"
proof
  fix s :: "'b lsm_store" and a b :: rstring
  assume "lsm_live E s" and "a \<le> b"
  then show "lsm_scan E a b s = (Ok (range_values (lsm_view E s) a b), s)"
    by (simp add: lsm_live_def lsm_scan_ok)
next
  fix s s' :: "'b lsm_store"
  assume "lsm_live E s" and "lsm_internal E s s'"
  then show "lsm_live E s' \<and> lsm_view E s' = lsm_view E s"
    using internal_same by (auto simp: same_contents_def lsm_view_def)
qed (rule lsm_transact_live)

text \<open>Without deletions no tombstone of the memtable hides a value in a table.\<close>

definition unmasked :: "('b, 'z) lsm_env_scheme \<Rightarrow> 'b lsm_store \<Rightarrow> bool" where
  "unmasked E s \<longleftrightarrow> (\<forall>k. bt_get (memtable s) k = Some Tombstone \<longrightarrow>
     Option.bind (disk_map E s k) as_option = None)"

fun is_set :: "operation \<Rightarrow> bool" where
  "is_set (Set k v) = True"
| "is_set (Delete k) = False"

lemma get_unmasked:
  assumes "lsm_inv E s" and "unmasked E s"
  shows "lsm_get E k s = (Ok (lsm_view E s k), s)"
proof (cases "bt_get (memtable s) k")
  case (Some v)
  with assms show ?thesis
    by (cases v) (simp_all add: lsm_get_ok lsm_view_def lsm_map_def unmasked_def)
next
  case None
  with assms(1) show ?thesis
    by (simp add: lsm_get_ok lsm_view_def lsm_map_def map_add_def)
qed

lemma set_ops_tombstone:
  "list_all is_set ops \<Longrightarrow> fold value_op ops f k = Some Tombstone \<Longrightarrow> f k = Some Tombstone"
proof (induction ops arbitrary: f)
  case (Cons op ops)
  obtain x v where op: "op = Set x v"
    using Cons.prems(1) by (cases op) auto
  have "list_all is_set ops" and "fold value_op ops (f(x \<mapsto> Data v)) k = Some Tombstone"
    using Cons.prems op by simp_all
  then have "(f(x \<mapsto> Data v)) k = Some Tombstone"
    by (rule Cons.IH)
  then show ?case
    by (auto split: if_splits)
qed simp

lemma internal_unmasked:
  "lsm_live E s \<Longrightarrow> unmasked E s \<Longrightarrow> lsm_internal E s s' \<Longrightarrow> unmasked E s'"
  using internal_same by (fastforce simp: same_contents_def unmasked_def)

lemma transact_unmasked:
  assumes "lsm_live E s" and "unmasked E s" and "loggable E tx" and "list_all is_set (operations tx)"
    and t: "lsm_transact E tx s = (r, s')"
  shows "unmasked E s'"
proof -
  obtain b where b: "encode (line_codec E) (BeginTx tx) = Ok b"
    using assms(3) by (auto simp: loggable_def)
  have inv: "lsm_inv E s"
    using assms(1) by (simp add: lsm_live_def)
  obtain cl f where s': "s' = s\<lparr>lsm_log := cl, lsm_fs := f, tx_ids := tx_ids s @ [tx_id tx],
                 memtable := fold memtable_instruction (operations tx) (memtable s)\<rparr>"
      "same_tables (data_dir s) (lsm_fs s) f"
    using lsm_transact_ok [OF inv b] t by auto
  have "disk_map E s' = disk_map E s"
    using disk_map_same_tables [of s s' E] s' by simp
  moreover have "map_of (memtable s') = fold value_op (operations tx) (map_of (memtable s))"
    using fold_memtable_instruction [OF lsm_invD(2) [OF inv]] s' by simp
  ultimately show ?thesis
    using set_ops_tombstone [OF assms(4), of "map_of (memtable s)"] assms(2)
    unfolding unmasked_def by metis
qed

definition lsm_plain :: "('b, 'z) lsm_env_scheme \<Rightarrow> 'b lsm_store \<Rightarrow> bool" where
  "lsm_plain E s \<longleftrightarrow> lsm_live E s \<and> unmasked E s"

definition plain_tx :: "('b, 'z) lsm_env_scheme \<Rightarrow> transaction \<Rightarrow> bool" where
  "plain_tx E tx \<longleftrightarrow> loggable E tx \<and> list_all is_set (operations tx)"

interpretation lsm_kv: kv_store "lsm_plain E" "lsm_view E" "plain_tx E" "lsm_internal E"
    "lsm_scan E" "lsm_transact E" "lsm_get E"
  for E :: "('b, 'z) lsm_env_scheme"
proof
  fix s :: "'b lsm_store" and tx
  assume "lsm_plain E s" and "plain_tx E tx"
  then show "\<exists>s'. lsm_transact E tx s = (Ok (), s') \<and> lsm_plain E s' \<and>
      lsm_view E s' = apply_ops (operations tx) (lsm_view E s)"
    using lsm_transact_live [of E s tx] transact_unmasked [of E s tx]
    by (auto simp: lsm_plain_def plain_tx_def)
next
  fix s s' :: "'b lsm_store"
  assume "lsm_plain E s" and "lsm_internal E s s'"
  then show "lsm_plain E s' \<and> lsm_view E s' = lsm_view E s"
    using internal_unmasked [of E s s'] lsm_txn.internal_law [of E s s'] by (simp add: lsm_plain_def)
qed (simp_all add: lsm_plain_def lsm_live_def lsm_scan_ok get_unmasked)

interpretation mem_lsm: store_pair mem_inv mem_view "\<lambda>_. True" "\<lambda>s s'. s' = s" mem_scan mem_transact mem_get
    "lsm_plain E" "lsm_view E" "plain_tx E" "lsm_internal E" "lsm_scan E" "lsm_transact E" "lsm_get E"
  for E :: "('b, 'z) lsm_env_scheme"
  by unfold_locales

section \<open>Properties of the store\<close>

lemma ex_store_plain: "lsm_plain ex_lsm ex_store" "lsm_view ex_lsm ex_store = Map.empty"
  using ex_store_inv
  by (simp_all add: lsm_plain_def lsm_live_def unmasked_def lsm_view_def ex_store_def lsm_new_def)

lemma ex_set_plain: "plain_tx ex_lsm (ex_set i ''foo'' ''bar'')"
  using encode_ex_set [of "''foo''" "''bar''" i]
  by (simp add: plain_tx_def loggable_def) (simp add: ex_set_def with_random_id_def operation_set_def)

text \<open>
  C3: without deletions the LSM store answers as the in-memory store does: for every sequence of
  gets, scans and transactions there is a run of the LSM store with the replies of the in-memory
  store, and every run has these replies, however flushes, filter writes, shutdown and the
  passing of time are interleaved with the calls.
\<close>

theorem lsm_matches_memory:
  assumes "mem_inv s" and "lsm_plain E t" and "lsm_view E t = mem_view s"
    and "list_all (call_ok (plain_tx E)) cs"
    and "store_run (\<lambda>s s'. s' = s) mem_get mem_scan mem_transact s cs rs s'"
  shows "(\<exists>t'. store_run (lsm_internal E) (lsm_get E) (lsm_scan E) (lsm_transact E) t cs rs t') \<and>
     (\<forall>rs' t'. store_run (lsm_internal E) (lsm_get E) (lsm_scan E) (lsm_transact E) t cs rs' t' \<longrightarrow> rs' = rs)"
proof -
  have calls: "list_all (call_ok (\<lambda>_. True)) cs"
    by (rule call_ok_mono [OF assms(4)]) simp
  have "rs = view_replies (lsm_view E t) cs"
    using mem.run_replies [OF assms(5,1) calls] assms(3) by simp
  then show ?thesis
    using lsm_kv.run_exists [OF assms(2,4)] mem_lsm.same_replies [OF assms(1,2) _ calls assms(4,5)] assms(3)
    by auto
qed

theorem lsm_matches_memory_witness:
  "\<exists>t'. store_run (lsm_internal ex_lsm) (lsm_get ex_lsm) (lsm_scan ex_lsm) (lsm_transact ex_lsm) ex_store
     [Call_transact (ex_set 1 ''foo'' ''bar''), Call_get (bs ''foo''), Call_get (bs ''qux'')]
     [Transacted (Ok ()), Got (Ok (Some (bs ''bar''))), Got (Ok None)] t'"
proof -
  let ?cs = "[Call_transact (ex_set 1 ''foo'' ''bar''), Call_get (bs ''foo''), Call_get (bs ''qux'')]"
  let ?rs = "[Transacted (Ok ()), Got (Ok (Some (bs ''bar''))), Got (Ok None)]"
  have "bs ''qux'' \<noteq> bs ''foo''"
    by code_simp
  then have "view_replies (mem_view memory_store_new) ?cs = ?rs"
    by (simp add: ex_set_def with_random_id_def operation_set_def apply_ops_def)
  then obtain s' where run: "store_run (\<lambda>s s'. s' = s) mem_get mem_scan mem_transact memory_store_new ?cs ?rs s'"
    using mem.run_exists [of memory_store_new ?cs] by auto
  have v: "lsm_view ex_lsm ex_store = mem_view memory_store_new"
    using ex_store_plain(2) by simp
  have calls: "list_all (call_ok (plain_tx ex_lsm)) ?cs"
    using ex_set_plain by simp
  show ?thesis
    using lsm_matches_memory [OF mem_inv_new ex_store_plain(1) v calls run] by blast
qed

text \<open>
  C10: transactions and scans, deletions included: however flushes and the other background work
  are interleaved, a transaction succeeds and applies its operations in order to the contents,
  and a scan returns the live values of its range in key order.
\<close>

theorem lsm_scans_exact:
  assumes "lsm_live E s" and "list_all (call_ok (loggable E)) cs" and "\<forall>k. Call_get k \<notin> set cs"
  shows "(\<exists>t. store_run (lsm_internal E) (lsm_get E) (lsm_scan E) (lsm_transact E) s cs
            (view_replies (lsm_view E s) cs) t) \<and>
     (\<forall>rs t. store_run (lsm_internal E) (lsm_get E) (lsm_scan E) (lsm_transact E) s cs rs t \<longrightarrow>
        rs = view_replies (lsm_view E s) cs \<and> lsm_live E t)"
  using lsm_txn.run_scans_exist [OF assms] lsm_txn.run_scans [OF _ assms] by blast

theorem lsm_scans_exact_witness:
  "\<exists>t. store_run (lsm_internal ex_lsm) (lsm_get ex_lsm) (lsm_scan ex_lsm) (lsm_transact ex_lsm) ex_flushed
     [Call_transact (ex_delete 2 ''foo''), Call_scan (bs ''a'') (bs ''z'')]
     [Transacted (Ok ()), Scanned (Ok [])] t"
proof -
  let ?cs = "[Call_transact (ex_delete 2 ''foo''), Call_scan (bs ''a'') (bs ''z'')]"
  have live: "lsm_live ex_lsm ex_flushed" and v: "lsm_view ex_lsm ex_flushed = [bs ''foo'' \<mapsto> bs ''bar'']"
    using ex_flushed_step by (auto simp: lsm_live_def lsm_view_def fun_eq_iff)
  have "bs ''a'' \<le> bs ''z''"
    by code_simp
  then have ok: "list_all (call_ok (loggable ex_lsm)) ?cs"
    using encode_ex_delete [of "''foo''" 2] by (simp add: loggable_def)
  have "view_replies (lsm_view ex_lsm ex_flushed) ?cs = [Transacted (Ok ()), Scanned (Ok [])]"
    unfolding v
    by (simp add: ex_delete_def with_random_id_def operation_delete_def apply_ops_def range_values_def)
  then show ?thesis
    using lsm_scans_exact [OF live ok] by auto
qed

text \<open>
  C13: a successful flush empties the memtable into one new table that is newer than all others
  and leaves the contents of the store as they were.
\<close>

theorem flush_keeps_contents:
  assumes "lsm_live E s" and "readable E (memtable s)" and "write_sstable E s = (Ok r, s')"
  shows "lsm_live E s' \<and> memtable s' = [] \<and> lsm_view E s' = lsm_view E s \<and>
     (memtable s \<noteq> [] \<longrightarrow> r = Some (flush_path s) \<and> lsm_paths s' = lsm_paths s @ [flush_path s] \<and>
        table_at E (lsm_fs s') (flush_path s) = memtable s \<and> tx_ids s' = [])"
proof -
  have inv: "lsm_inv E s" and nm: "names_ok s"
    using assms(1) by (simp_all add: lsm_live_def)
  have "r = Some (flush_path s) \<and> lsm_paths s' = lsm_paths s @ [flush_path s] \<and>
      table_at E (lsm_fs s') (flush_path s) = memtable s \<and> tx_ids s' = []" if ne: "memtable s \<noteq> []"
    using write_sstable_step [OF inv assms(2) newest_name [OF nm write_sstable_names [OF nm _ _ assms(3) ne]] assms(3)]
      write_sstable_table [OF inv assms(2) newest_name [OF nm write_sstable_names [OF nm _ _ assms(3) ne]] assms(3) ne]
      disk_okD(3,4) [OF lsm_invD(1) [OF inv]] ne
    by blast
  then show ?thesis
    using flush_same [OF assms] by (simp add: same_contents_def lsm_view_def)
qed

theorem flush_keeps_contents_witness:
  "\<exists>p. write_sstable ex_lsm (snd (lsm_transact ex_lsm (ex_set 1 ''foo'' ''bar'') ex_store)) = (Ok (Some p), ex_flushed) \<and>
     memtable ex_flushed = [] \<and> lsm_view ex_lsm ex_flushed = [bs ''foo'' \<mapsto> bs ''bar'']"
proof -
  obtain s where s: "lsm_transact ex_lsm (ex_set 1 ''foo'' ''bar'') ex_store = (Ok (), s)"
      "lsm_live ex_lsm s" "lsm_map ex_lsm s = [bs ''foo'' \<mapsto> Data (bs ''bar'')]"
    using ex_set_step by (auto simp: lsm_live_def)
  obtain p where "write_sstable ex_lsm s = (Ok (Some p), ex_flushed)"
    using ex_flushed_step s(1) by auto
  moreover have "lsm_view ex_lsm s = [bs ''foo'' \<mapsto> bs ''bar'']"
    using s(3) by (auto simp: lsm_view_def)
  ultimately show ?thesis
    using flush_keeps_contents [OF s(2) readable_ex_lsm] s(1) by auto
qed

text \<open>
  C27: a get looks past a tombstone in the memtable: when the key still has a value in a table,
  the get returns that value although the key was deleted, while a scan leaves the key out.
\<close>

theorem deleted_key_still_found:
  assumes "lsm_inv E s" and "bt_get (memtable s) k = Some Tombstone" and "disk_map E s k = Some (Data d)"
    and "a \<le> b"
  shows "lsm_get E k s = (Ok (Some d), s) \<and> lsm_view E s k = None \<and>
     lsm_scan E a b s = (Ok (range_values (lsm_view E s) a b), s)"
  using assms by (simp add: lsm_get_ok lsm_scan_ok lsm_view_def lsm_map_def)

theorem deleted_key_still_found_witness:
  "lsm_transact ex_lsm (ex_delete 2 ''foo'') ex_flushed = (Ok (), ex_deleted) \<and>
   lsm_get ex_lsm (bs ''foo'') ex_deleted = (Ok (Some (bs ''bar'')), ex_deleted) \<and>
   lsm_scan ex_lsm (bs ''a'') (bs ''z'') ex_deleted = (Ok [], ex_deleted)"
proof -
  have az: "bs ''a'' \<le> bs ''z''"
    by code_simp
  have "lsm_view ex_lsm ex_deleted = Map.empty"
    using ex_deleted_step by (auto simp: lsm_view_def)
  then have "range_values (lsm_view ex_lsm ex_deleted) (bs ''a'') (bs ''z'') = []"
    by (simp add: range_values_def)
  then show ?thesis
    using deleted_key_still_found [OF _ _ _ az, of ex_lsm ex_deleted "bs ''foo''" "bs ''bar''"] ex_deleted_step
    by simp
qed

text \<open>
  The check for a full memtable measures the map's handle and not its entries: with a limit
  of at least one megabyte the background loop never flushes, whatever the memtable holds.
\<close>

theorem background_never_flushes:
  assumes "1 \<le> mb" and "memtable_max_bytes s = mb * 1000000" and "\<not> is_shutdown s"
  shows "background_tick E s = (Ok Running, s)"
  using assms by (simp add: background_tick_def should_flush_memtable_def size_of_BTreeMap_def)

theorem background_never_flushes_witness:
  "background_tick ex_lsm (ex_store\<lparr>memtable_max_bytes := 1000000, memtable := [(bs ''foo'', Tombstone)]\<rparr>) =
     (Ok Running, ex_store\<lparr>memtable_max_bytes := 1000000, memtable := [(bs ''foo'', Tombstone)]\<rparr>)"
  by (rule background_never_flushes [of 1]) (simp_all add: ex_store_def lsm_new_def)

text \<open>
  Announcing a new table when nobody subscribed to the store's events panics, after the
  flush has taken place.
\<close>

theorem unheard_flush_panics:
  assumes "\<not> is_shutdown s" and "should_flush_memtable s" and "write_sstable E s = (Ok (Some p), s')"
    and "event_receivers s = 0"
  shows "background_tick E s = (Panic ''Failed to send memtable flush event'', s')"
  using assms write_sstable_receivers [OF assms(3)] by (simp add: background_tick_def)

theorem unheard_flush_panics_witness:
  "\<exists>p. write_sstable ex_lsm (snd (lsm_transact ex_lsm (ex_set 1 ''foo'' ''bar'') ex_store)) = (Ok (Some p), ex_flushed) \<and>
     background_tick ex_lsm (snd (lsm_transact ex_lsm (ex_set 1 ''foo'' ''bar'') ex_store)) =
       (Panic ''Failed to send memtable flush event'', ex_flushed)"
proof -
  let ?s = "snd (lsm_transact ex_lsm (ex_set 1 ''foo'' ''bar'') ex_store)"
  obtain b where b: "encode (line_codec ex_lsm) (BeginTx (ex_set 1 ''foo'' ''bar'')) = Ok b"
    using encode_ex_set [of "''foo''" "''bar''" 1] by auto
  have st: "\<not> is_shutdown ex_store" "event_receivers ex_store = 0" "memtable_max_bytes ex_store = 1"
    by (simp_all add: ex_store_def lsm_new_def)
  then have "\<not> is_shutdown ?s" "event_receivers ?s = 0" "memtable_max_bytes ?s = 1"
    using lsm_transact_ok [OF ex_store_inv(1) b] by auto
  moreover have "memtable ?s \<noteq> []"
    using ex_set_step by auto
  moreover obtain p where p: "write_sstable ex_lsm ?s = (Ok (Some p), ex_flushed)"
    using ex_flushed_step by blast
  ultimately show ?thesis
    using unheard_flush_panics [OF _ _ p]
    by (auto simp: should_flush_memtable_def size_of_BTreeMap_def)
qed

text \<open>
  C21: a transaction that fails, under any schedule of I/O faults, changes neither the memtable
  nor the list of transactions in it; of its line at most a prefix was appended to the log.
\<close>

theorem failed_transact_applies_nothing:
  assumes "log_ready (lsm_log s) (lsm_fs s)" and "encode (line_codec E) (BeginTx tx) = Ok b"
    and "lsm_transact E tx s = (r, s')" and "r \<noteq> Ok ()"
  shows "memtable s' = memtable s \<and> tx_ids s' = tx_ids s \<and> bloom_map s' = bloom_map s \<and>
     (\<exists>n \<le> length b. log_bytes (lsm_log s) (lsm_fs s') = log_bytes (lsm_log s) (lsm_fs s) @ take n b) \<and>
     (\<forall>q. q \<noteq> log_path (lsm_log s) \<longrightarrow> bt_get (files (lsm_fs s')) q = bt_get (files (lsm_fs s)) q)"
proof -
  obtain r1 cl f where a: "append_line (line_codec E) (BeginTx tx) (lsm_log s, lsm_fs s) = (r1, (cl, f))"
    by (metis prod.exhaust)
  have s': "r = r1 \<and> s' = s\<lparr>lsm_log := cl, lsm_fs := f\<rparr>"
    using assms(3,4) a
    by (cases r1) (auto simp: lsm_transact_def do_transact_def begin_transaction_def on_log_def sbind_def)
  show ?thesis
    using append_line_any [OF assms(1,2) a] s' by auto
qed

text \<open>A store on a disk whose second call fails after five bytes.\<close>

definition ex_faulty :: "rstring list lsm_store" where
  "ex_faulty = ex_store\<lparr>lsm_fs := empty_disk\<lparr>faults := [None, Some 5]\<rparr>\<rparr>"

lemma ex_faulty_fails:
  "\<exists>s'. lsm_transact ex_lsm (ex_set 1 ''foo'' ''bar'') ex_faulty = (Err (Err_IO OtherIO), s')"
proof -
  obtain b where b: "encode (line_codec ex_lsm) (BeginTx (ex_set 1 ''foo'' ''bar'')) = Ok b"
    using encode_ex_set [of "''foo''" "''bar''" 1] by auto
  then show ?thesis
    by (simp add: lsm_transact_def do_transact_def begin_transaction_def on_log_def append_line_def
        lift_result_def ex_faulty_def ex_store_def lsm_new_def commit_log_new_def empty_disk_def get_write_handle_def
        fs_open_create_def fs_call_def next_fault_def on_fs_def fs_append_all_def sbind_def)
qed

theorem failed_transact_applies_nothing_witness:
  "\<exists>r s'. lsm_transact ex_lsm (ex_set 1 ''foo'' ''bar'') ex_faulty = (r, s') \<and>
     r = Err (Err_IO OtherIO) \<and> memtable s' = [] \<and> tx_ids s' = []"
proof -
  obtain b where b: "encode (line_codec ex_lsm) (BeginTx (ex_set 1 ''foo'' ''bar'')) = Ok b"
    using encode_ex_set [of "''foo''" "''bar''" 1] by auto
  have st: "memtable ex_faulty = []" "tx_ids ex_faulty = []" "log_ready (lsm_log ex_faulty) (lsm_fs ex_faulty)"
    by (simp_all add: ex_faulty_def ex_store_def lsm_new_def log_ready_def commit_log_new_def)
  obtain s' where t: "lsm_transact ex_lsm (ex_set 1 ''foo'' ''bar'') ex_faulty = (Err (Err_IO OtherIO), s')"
    using ex_faulty_fails by blast
  then show ?thesis
    using failed_transact_applies_nothing [OF st(3) b t] st by auto
qed

end
