(* ===== verification/LSM_Recovery.thy ===== *)
theory LSM_Recovery
  imports LSM_Contract
begin

text \<open>
  Startup after a crash or a shutdown.  The invariant \<open>durable\<close> ties the log to the memtable:
  the log holds complete lines, the unfinished transactions of these lines are the transactions
  in the memtable, and a filter file on disk is either out of date by its modification time or
  covers the tables.  Every operation keeps it, and under it a new store on the same disk comes
  up with the same contents; a crash in the middle of a flush loses nothing either.
\<close>

section \<open>Replaying operations\<close>

definition replay :: "transaction list \<Rightarrow> memtable" where
  "replay txs = fold memtable_instruction (concat (map operations txs)) []"

lemma fold_value_op_eq: "fold value_op ops f = f ++ fold value_op ops Map.empty"
  using fold_value_op_add [of f ops Map.empty] by simp

lemma bt_wf_replay: "bt_wf (replay txs)"
  using fold_memtable_instruction [of "[]"] by (simp add: replay_def)

lemma map_of_replay: "map_of (replay txs) = fold value_op (concat (map operations txs)) Map.empty"
  using fold_memtable_instruction [of "[]"] by (simp add: replay_def)

lemma replay_snoc: "replay (txs @ [tx]) = fold memtable_instruction (operations tx) (replay txs)"
  by (simp add: replay_def)

lemma map_of_replay_append: "map_of (replay (xs @ ys)) = map_of (replay xs) ++ map_of (replay ys)"
  using fold_value_op_eq [of "concat (map operations ys)" "map_of (replay xs)"]
  by (simp add: map_of_replay)

text \<open>Replaying the last transactions again changes nothing.\<close>

lemma replay_suffix_again:
  "m ++ map_of (replay (xs @ ys)) ++ map_of (replay ys) = m ++ map_of (replay (xs @ ys))"
  by (auto simp: map_of_replay_append map_add_def fun_eq_iff split: option.splits)

lemma restore_loop_eq:
  "restore_loop E txs s =
     (Ok (), s\<lparr>tx_ids := tx_ids s @ map tx_id txs,
               memtable := fold memtable_instruction (concat (map operations txs)) (memtable s)\<rparr>)"
  by (induction txs arbitrary: s) (simp_all add: sreturn_def do_transact_def)

section \<open>Filters on startup\<close>

definition filter_of :: "('b, 'z) lsm_env_scheme \<Rightarrow> fs \<Rightarrow> path \<Rightarrow> 'b" where
  "filter_of E f p = fold (bloom_insert E) (map fst (table_at E f p)) (bloom_new E)"

lemma reconstruct_loop_eq:
  assumes "sst_env_ok E" and "faults f = []"
  shows "\<forall>p \<in> set ps. sst_holds E p (table_at E f p) f \<Longrightarrow> sorted_wrt (<) ps \<Longrightarrow>
     \<forall>q \<in> fst ` set acc. \<forall>p \<in> set ps. q < p \<Longrightarrow>
     reconstruct_loop E ps acc f = (Ok (acc @ map (\<lambda>p. (p, filter_of E f p)) ps), f)"
proof (induction ps arbitrary: acc)
  case Nil
  then show ?case by (simp add: sreturn_def)
next
  case (Cons p ps)
  have keys: "sst_keys E p f = (Ok (map fst (table_at E f p)), f)"
    using Cons.prems(1) by (intro sst_keys_holds [OF assms]) simp
  have ins: "bt_insert p (filter_of E f p) acc = acc @ [(p, filter_of E f p)]"
    using Cons.prems(3) by (intro bt_insert_snoc) auto
  have "reconstruct_loop E ps (acc @ [(p, filter_of E f p)]) f =
      (Ok ((acc @ [(p, filter_of E f p)]) @ map (\<lambda>p. (p, filter_of E f p)) ps), f)"
    using Cons.prems by (intro Cons.IH) auto
  with keys ins show ?case
    by (simp add: filter_of_def)
qed

lemma map_of_pair_map: "map_of (map (\<lambda>p. (p, g p)) ps) p = (if p \<in> set ps then Some (g p) else None)"
  by (induction ps) auto

lemma filters_cover:
  assumes "lsm_env_ok E"
  shows "blooms_cover E dir f (map (\<lambda>p. (p, filter_of E f p)) (sst_paths dir f))"
proof -
  have "bloom_contains E (filter_of E f p) k" if "k \<in> fst ` set (table_at E f p)" for p k
    using that bloom_fold_contains [OF assms, of "bloom_new E" k "map fst (table_at E f p)"]
    by (simp add: filter_of_def)
  then show ?thesis
    by (auto simp: blooms_cover_def map_of_pair_map comp_def split: if_splits)
qed

lemma reconstruct_ok:
  assumes "disk_ok E s"
  shows "reconstruct_bloom_map_from_sstables E s =
     (Ok (map (\<lambda>p. (p, filter_of E (lsm_fs s) p)) (lsm_paths s)), s)"
proof -
  note d = disk_okD [OF assms]
  have "reconstruct_loop E (lsm_paths s) [] (lsm_fs s) =
      (Ok ([] @ map (\<lambda>p. (p, filter_of E (lsm_fs s) p)) (lsm_paths s)), lsm_fs s)"
    using d(5) sorted_sst_paths [OF d(4)]
    by (intro reconstruct_loop_eq [OF d(2,3)]) (simp_all add: tables_ok_def lsm_paths_def)
  then show ?thesis
    using get_sstables_asc_ok [OF d(3,4)] on_disk_same [of "reconstruct_loop E (lsm_paths s) []" s]
    by (simp add: reconstruct_bloom_map_from_sstables_def)
qed

text \<open>
  The filter file is usable: absent, older than the log, or a serialization of filters that
  cover the tables.
\<close>

definition filters_fresh :: "('b, 'z) lsm_env_scheme \<Rightarrow> 'b lsm_store \<Rightarrow> bool" where
  "filters_fresh E s \<longleftrightarrow>
     (\<forall>b. bt_get (files (lsm_fs s)) (bloom_map_path s) = Some b \<longrightarrow>
        (\<exists>l. bt_get (files (lsm_fs s)) (log_path (lsm_log s)) = Some l \<and>
           (mtime b < mtime l \<and> mtime l \<le> clock (lsm_fs s) \<or>
            (\<exists>bm. ser (bloom_codec E) bm = Some (content b) \<and>
               blooms_cover E (data_dir s) (lsm_fs s) bm))))"

lemma restore_bloom_map_ok:
  assumes ok: "disk_ok E s" and fr: "filters_fresh E s"
  shows "\<exists>bm. restore_bloom_map E s = (Ok (), s\<lparr>bloom_map := bm\<rparr>) \<and>
     blooms_cover E (data_dir s) (lsm_fs s) bm"
proof -
  note d = disk_okD [OF ok]
  let ?bm = "map (\<lambda>p. (p, filter_of E (lsm_fs s) p)) (lsm_paths s)"
  have same: "s\<lparr>lsm_fs := lsm_fs s\<rparr> = s"
    by simp
  have rebuilt: "restore_bloom_map E s = (Ok (), s\<lparr>bloom_map := ?bm\<rparr>) \<and>
      blooms_cover E (data_dir s) (lsm_fs s) ?bm" if "restore_bloom_map_from_file E s = (Ok None, s)"
    using that reconstruct_ok [OF ok] filters_cover [OF d(1)]
    by (simp add: restore_bloom_map_def lsm_paths_def)
  show ?thesis
  proof (cases "bt_get (files (lsm_fs s)) (bloom_map_path s)")
    case None
    then have "restore_bloom_map_from_file E s = (Ok None, s)"
      by (simp add: restore_bloom_map_from_file_def fs_simps d(3) file_of_def)
    with rebuilt show ?thesis by blast
  next
    case (Some b)
    then obtain l where l: "bt_get (files (lsm_fs s)) (log_path (lsm_log s)) = Some l"
        "mtime b < mtime l \<or>
         (\<exists>bm. ser (bloom_codec E) bm = Some (content b) \<and> blooms_cover E (data_dir s) (lsm_fs s) bm)"
      using fr by (auto simp: filters_fresh_def)
    show ?thesis
    proof (cases "mtime b < mtime l")
      case True
      then have "restore_bloom_map_from_file E s = (Ok None, s)"
        using Some l(1) by (simp add: restore_bloom_map_from_file_def fs_simps d(3) file_of_def on_disk_def sreturn_def)
      with rebuilt show ?thesis by blast
    next
      case False
      then obtain bm where bm: "ser (bloom_codec E) bm = Some (content b)"
          "blooms_cover E (data_dir s) (lsm_fs s) bm"
        using l(2) by blast
      then have "de (bloom_codec E) (content b) = Some bm"
        using d(1) by (auto simp: lsm_env_ok_def dest: codec_okD(2))
      then have "restore_bloom_map_from_file E s = (Ok (Some bm), s)"
        using Some l(1) False
        by (simp add: restore_bloom_map_from_file_def fs_simps d(3) file_of_def on_disk_def
            fs_open_read_def lift_result_def)
      with bm(2) show ?thesis
        by (auto simp: restore_bloom_map_def)
    qed
  qed
qed

section \<open>The log on startup\<close>

definition log_holds :: "('b, 'z) lsm_env_scheme \<Rightarrow> commit_log \<Rightarrow> fs \<Rightarrow> commit_log_line list \<Rightarrow> bool" where
  "log_holds E cl f ls \<longleftrightarrow> encode_all (line_codec E) ls = Ok (log_bytes cl f) \<and>
     log_readable (log_reads E) (log_bytes cl f)"

lemma get_unfinished_ok:
  assumes "lsm_env_ok E" and "faults f = []" and "log_holds E cl f ls" and "bt_wf (files f)"
  shows "\<exists>f'. get_unfinished_transactions (line_codec E) (log_reads E) cl f = (Ok (open_txs ls), f') \<and>
     log_holds E cl f' ls \<and> faults f' = [] \<and> bt_wf (files f') \<and> clock f' = clock f \<and>
     (\<forall>q. q \<noteq> log_path cl \<longrightarrow> bt_get (files f') q = bt_get (files f) q) \<and>
     (f' = f \<or> bt_get (files f) (log_path cl) = None) \<and> bt_get (files f') (log_path cl) \<noteq> None"
proof -
  have E: "codec_ok (line_codec E)" "size_reads (log_reads E)"
    using assms(1) by (simp_all add: lsm_env_ok_def)
  have ls: "encode_all (line_codec E) ls = Ok (log_bytes cl f)"
      "log_readable (log_reads E) (log_bytes cl f)"
    using assms(3) by (auto simp: log_holds_def)
  define f' where "f' = (if file_of (log_path cl) f = None then put_file (log_path cl) [] f else f)"
  have f': "faults f' = []" "file_of (log_path cl) f' = Some (log_bytes cl f @ [])"
    using assms(2) by (auto simp: f'_def log_bytes_def split: option.splits)
  have "get_unfinished_transactions (line_codec E) (log_reads E) cl f' = (Ok (open_txs ls), f')"
    by (rule replay_lines [OF E ls f']) simp
  moreover have "get_unfinished_transactions (line_codec E) (log_reads E) cl f =
      get_unfinished_transactions (line_codec E) (log_reads E) cl f'"
  proof (cases "file_of (log_path cl) f")
    case None
    then show ?thesis
      using assms(2) fs_open_create_old [of "put_file (log_path cl) [] f" "log_path cl" "[]"]
      by (simp add: get_unfinished_transactions_def f'_def sbind_def fs_open_create_new)
  qed (simp add: f'_def)
  ultimately show ?thesis
    using f' assms(2-4)
    by (intro exI [of _ f'])
      (auto simp: f'_def log_holds_def log_bytes_def file_of_None_iff file_of_Some_iff split: if_splits)
qed

section \<open>Durable stores\<close>

definition durable :: "('b, 'z) lsm_env_scheme \<Rightarrow> 'b lsm_store \<Rightarrow> commit_log_line list \<Rightarrow> bool" where
  "durable E s ls \<longleftrightarrow> lsm_live E s \<and> log_holds E (lsm_log s) (lsm_fs s) ls \<and> filters_fresh E s \<and>
     tx_ids s = map tx_id (open_txs ls) \<and> memtable s = replay (open_txs ls) \<and>
     (lsm_paths s \<noteq> [] \<longrightarrow> bt_get (files (lsm_fs s)) (log_path (lsm_log s)) \<noteq> None)"

text \<open>The store that starts on the disk another store left behind.\<close>

definition restart :: "'b lsm_store \<Rightarrow> nat \<Rightarrow> 'b lsm_store" where
  "restart s n = lsm_new (data_dir s) (log_path (lsm_log s)) n (lsm_fs s)"

lemma restart_simps [simp]:
  "data_dir (restart s n) = data_dir s" "lsm_fs (restart s n) = lsm_fs s"
  "log_path (lsm_log (restart s n)) = log_path (lsm_log s)" "memtable (restart s n) = []"
  "tx_ids (restart s n) = []" "bloom_map_path (restart s n) = data_dir s @ [bs ''bloom_map'']"
  "lsm_paths (restart s n) = lsm_paths s"
  by (simp_all add: restart_def lsm_new_def commit_log_new_def lsm_paths_def)

lemma restart_disk_ok: "disk_ok E s \<Longrightarrow> disk_ok E (restart s n)"
  by (auto simp: disk_ok_def paths_ok_def restart_def lsm_new_def commit_log_new_def log_ready_def)

lemma disk_ok_bloom_path: "disk_ok E s \<Longrightarrow> bloom_map_path s = data_dir s @ [bs ''bloom_map'']"
  by (simp add: disk_ok_def paths_ok_def)

lemma initialize_ok:
  assumes ok: "disk_ok E s" and log: "log_holds E (lsm_log s) (lsm_fs s) ls" and fr: "filters_fresh E s"
    and nm: "names_ok s"
  shows "\<exists>s'. lsm_initialize E (restart s n) = (Ok (), s') \<and> durable E s' ls \<and>
     lsm_map E s' = disk_map E s ++ map_of (replay (open_txs ls)) \<and> lsm_paths s' = lsm_paths s \<and>
     (\<exists>bm f. s' = (restart s n)\<lparr>bloom_map := bm, lsm_fs := f, tx_ids := map tx_id (open_txs ls),
        memtable := replay (open_txs ls)\<rparr> \<and> clock f = clock (lsm_fs s))"
proof -
  let ?r = "restart s n"
  note d = disk_okD [OF ok]
  have okr: "disk_ok E ?r"
    by (rule restart_disk_ok [OF ok])
  have "filters_fresh E ?r"
    using fr disk_ok_bloom_path [OF ok] by (simp add: filters_fresh_def)
  then obtain bm where bm: "restore_bloom_map E ?r = (Ok (), ?r\<lparr>bloom_map := bm\<rparr>)"
      "blooms_cover E (data_dir s) (lsm_fs s) bm"
    using restore_bloom_map_ok [OF okr] by auto
  have lr: "log_holds E (lsm_log ?r) (lsm_fs s) ls"
    using log by (simp add: log_holds_def log_bytes_def)
  obtain f where f: "get_unfinished_transactions (line_codec E) (log_reads E) (lsm_log ?r) (lsm_fs s) =
        (Ok (open_txs ls), f)"
      "log_holds E (lsm_log ?r) f ls" "faults f = []" "bt_wf (files f)" "clock f = clock (lsm_fs s)"
      "\<forall>q. q \<noteq> log_path (lsm_log s) \<longrightarrow> bt_get (files f) q = bt_get (files (lsm_fs s)) q"
      "f = lsm_fs s \<or> bt_get (files (lsm_fs s)) (log_path (lsm_log s)) = None"
      "bt_get (files f) (log_path (lsm_log s)) \<noteq> None"
    using get_unfinished_ok [OF d(1,3) lr d(4)] by auto
  define s' where "s' = ?r\<lparr>bloom_map := bm, lsm_fs := f, tx_ids := map tx_id (open_txs ls),
      memtable := replay (open_txs ls)\<rparr>"
  have init: "lsm_initialize E ?r = (Ok (), s')"
    using bm(1) f(1)
    by (simp add: lsm_initialize_def restore_previous_txs_def on_disk_def restore_loop_eq s'_def replay_def)
  have "disk_ok E (?r\<lparr>lsm_log := lsm_log ?r, lsm_fs := f\<rparr>) \<and> same_tables (data_dir ?r) (lsm_fs ?r) f"
    using f(3,4,6) by (intro disk_step_ok [OF okr]) (simp_all add: restart_def lsm_new_def commit_log_new_def log_ready_def)
  then have dk: "disk_ok E s'" and st: "same_tables (data_dir s) (lsm_fs s) (lsm_fs s')"
    by (auto simp: s'_def disk_ok_def paths_ok_def)
  have "lsm_inv E s'"
    using dk bm(2) same_tablesD(4) [OF st bm(2)] bt_wf_replay by (simp add: lsm_inv_def s'_def)
  moreover have paths: "lsm_paths s' = lsm_paths s"
    using same_tablesD(1) [OF st] by (simp add: lsm_paths_def s'_def)
  moreover have "names_ok s'"
    using nm paths f(5) by (simp add: names_ok_def s'_def)
  moreover have "filters_fresh E s'"
    using fr f(6,7) d(6) disk_ok_bloom_path [OF ok] same_tablesD(4) [OF st]
    by (fastforce simp: filters_fresh_def s'_def paths_ok_def)
  moreover have "disk_map E s' = disk_map E s"
    by (rule disk_map_same_tables [OF st]) (simp add: s'_def)
  ultimately show ?thesis
    using init f(2,5,8) by (auto simp: durable_def lsm_live_def lsm_map_def s'_def)
qed

section \<open>Every operation keeps a store durable\<close>

lemma durableD:
  assumes "durable E s ls"
  shows "lsm_inv E s" "names_ok s" "disk_ok E s" "log_holds E (lsm_log s) (lsm_fs s) ls"
    "filters_fresh E s" "tx_ids s = map tx_id (open_txs ls)" "memtable s = replay (open_txs ls)"
  using assms by (auto simp: durable_def lsm_live_def lsm_inv_def)

lemma fresh_log_write:
  assumes "filters_fresh E s" and "same_tables (data_dir s) (lsm_fs s) (lsm_fs s')"
    and "data_dir s' = data_dir s" and "bloom_map_path s' = bloom_map_path s"
    and "log_path (lsm_log s') = log_path (lsm_log s)" and "bloom_map_path s \<noteq> log_path (lsm_log s)"
    and "\<forall>q. q \<noteq> log_path (lsm_log s) \<longrightarrow> bt_get (files (lsm_fs s')) q = bt_get (files (lsm_fs s)) q"
    and "map_option mtime (bt_get (files (lsm_fs s')) (log_path (lsm_log s))) = Some (clock (lsm_fs s))"
    and "clock (lsm_fs s') = clock (lsm_fs s)"
  shows "filters_fresh E s'"
  using assms same_tablesD(4) [OF assms(2), of E] by (fastforce simp: filters_fresh_def)

lemma transact_disk:
  assumes dur: "durable E s ls" and b: "encode (line_codec E) (BeginTx tx) = Ok b"
  shows "\<exists>s'. lsm_transact E tx s = (Ok (), s') \<and> lsm_live E s' \<and> filters_fresh E s' \<and>
     log_bytes (lsm_log s') (lsm_fs s') = log_bytes (lsm_log s) (lsm_fs s) @ b \<and>
     bt_get (files (lsm_fs s')) (log_path (lsm_log s')) \<noteq> None \<and> tx_ids s' = tx_ids s @ [tx_id tx] \<and>
     memtable s' = fold memtable_instruction (operations tx) (memtable s)"
proof -
  note d = durableD [OF dur]
  obtain s' cl f where s': "lsm_transact E tx s = (Ok (), s')" "s' = s\<lparr>lsm_log := cl, lsm_fs := f, tx_ids := tx_ids s @ [tx_id tx],
        memtable := fold memtable_instruction (operations tx) (memtable s)\<rparr>"
      "same_tables (data_dir s) (lsm_fs s) f" "cl = (lsm_log s)\<lparr>logfile := True\<rparr>"
      "log_bytes cl f = log_bytes (lsm_log s) (lsm_fs s) @ b" "clock f = clock (lsm_fs s)"
      "\<forall>q. q \<noteq> log_path (lsm_log s) \<longrightarrow> bt_get (files f) q = bt_get (files (lsm_fs s)) q"
      "map_option mtime (bt_get (files f) (log_path cl)) = Some (clock (lsm_fs s))"
    using lsm_transact_ok [OF d(1) b] by auto
  have "lsm_live E s'"
    using lsm_transact_step [OF d(1) b s'(1)] d(2) by (simp add: lsm_live_def names_ok_def)
  moreover have "filters_fresh E s'"
    using d(3) s' by (intro fresh_log_write [OF d(5)]) (auto simp: disk_ok_def paths_ok_def)
  ultimately show ?thesis
    using s' by (intro exI [of _ s']) auto
qed

lemma transact_durable:
  assumes dur: "durable E s ls" and b: "encode (line_codec E) (BeginTx tx) = Ok b"
    and new: "tx_id tx \<notin> set (tx_ids s)"
    and t: "lsm_transact E tx s = (r, s')" and len: "log_replays E s'"
  shows "r = Ok () \<and> durable E s' (ls @ [BeginTx tx])"
proof -
  note d = durableD [OF dur]
  note s' = transact_disk [OF dur b, unfolded t]
  have "log_holds E (lsm_log s') (lsm_fs s') (ls @ [BeginTx tx])"
    using d(4) s' len encode_all_snoc [OF _ b] by (simp add: log_holds_def)
  moreover have "\<forall>u \<in> set (open_txs ls). tx_id u \<noteq> tx_id tx"
    using new d(6) by (metis image_eqI set_map)
  then have "open_txs (ls @ [BeginTx tx]) = open_txs ls @ [tx]"
    by (simp add: open_txs_snoc_begin)
  ultimately show ?thesis
    using s' d(6,7) by (auto simp: durable_def replay_snoc)
qed

lemma open_txs_ended: "open_txs (ls @ map EndTx us) = filter (\<lambda>t. tx_id t \<notin> set us) (open_txs ls)"
proof (induction us rule: rev_induct)
  case (snoc u us)
  have "open_txs (ls @ map EndTx (us @ [u])) = filter (\<lambda>t. tx_id t \<noteq> u) (open_txs (ls @ map EndTx us))"
    using open_txs_snoc_end [of "ls @ map EndTx us" u] by simp
  with snoc show ?case
    by (simp add: conj_commute)
qed simp

lemma distinct_open_txs: "distinct (map tx_id (open_txs ls))"
  by (induction ls rule: open_txs.induct) (auto dest: open_txs_ids)

lemma open_txs_suffix: "\<exists>xs. open_txs ls = xs @ open_txs (ls @ map EndTx (take k (map tx_id (open_txs ls))))"
proof -
  let ?ts = "open_txs ls"
  have "filter (\<lambda>t. tx_id t \<notin> tx_id ` set (take k ?ts)) (take k ?ts @ drop k ?ts) = drop k ?ts"
  proof -
    have "distinct (map tx_id (take k ?ts @ drop k ?ts))"
      using distinct_open_txs by simp
    then have "\<forall>t \<in> set (drop k ?ts). tx_id t \<notin> tx_id ` set (take k ?ts)"
      unfolding map_append distinct_append by auto
    then show ?thesis
      unfolding filter_append by (simp add: filter_empty_conv)
  qed
  then have "open_txs (ls @ map EndTx (take k (map tx_id ?ts))) = drop k ?ts"
    unfolding open_txs_ended by (simp add: take_map)
  then show ?thesis
    by (metis append_take_drop_id)
qed

text \<open>The disk after a table was written and some of the transactions were ended in the log.\<close>

definition flush_cut :: "('b, 'z) lsm_env_scheme \<Rightarrow> nat \<Rightarrow> 'b lsm_store \<Rightarrow> 'b lsm_store \<Rightarrow> bool" where
  "flush_cut E k s s2 \<longleftrightarrow>
     (\<exists>f. sst_write E (flush_path s) (memtable s) (lsm_fs s) = (Ok (), f) \<and>
       end_transactions E (take k (tx_ids s)) (s\<lparr>lsm_fs := f,
         bloom_map := bt_insert (flush_path s) (fold (bloom_insert E) (map fst (memtable s)) (bloom_new E)) (bloom_map s),
         memtable := []\<rparr>) = (Ok (), s2))"

text \<open>A flush happens later than the last write of the filter file.\<close>

definition filters_old :: "'b lsm_store \<Rightarrow> bool" where
  "filters_old s \<longleftrightarrow> (\<forall>b. bt_get (files (lsm_fs s)) (bloom_map_path s) = Some b \<longrightarrow> mtime b < clock (lsm_fs s))"

text \<open>What such a cut leaves on the disk, and that the new table takes over the contents.\<close>

lemma flush_cut_disk:
  assumes inv: "lsm_inv E s" and nm: "names_ok s" and rd: "readable E (memtable s)" and cut: "flush_cut E k s s2"
  shows "\<exists>cl g b bm. s2 = s\<lparr>lsm_log := cl, lsm_fs := g, bloom_map := bm, memtable := []\<rparr> \<and> lsm_inv E s2 \<and>
     disk_map E s2 = lsm_map E s \<and> lsm_paths s2 = lsm_paths s @ [flush_path s] \<and>
     log_path cl = log_path (lsm_log s) \<and> encode_all (line_codec E) (map EndTx (take k (tx_ids s))) = Ok b \<and>
     log_bytes cl g = log_bytes (lsm_log s) (lsm_fs s) @ b \<and> clock g = clock (lsm_fs s) \<and>
     bt_get (files g) (bloom_map_path s) = bt_get (files (lsm_fs s)) (bloom_map_path s) \<and>
     (take k (tx_ids s) \<noteq> [] \<longrightarrow> map_option mtime (bt_get (files g) (log_path cl)) = Some (clock (lsm_fs s)))"
proof -
  note dk = disk_okD [OF lsm_invD(1) [OF inv]]
  let ?p = "flush_path s" and ?us = "take k (tx_ids s)"
  define bm where "bm = bt_insert ?p (fold (bloom_insert E) (map fst (memtable s)) (bloom_new E)) (bloom_map s)"
  obtain f where w: "sst_write E ?p (memtable s) (lsm_fs s) = (Ok (), f)"
    and e: "end_transactions E ?us (s\<lparr>lsm_fs := f, bloom_map := bm, memtable := []\<rparr>) = (Ok (), s2)"
    using cut by (auto simp: flush_cut_def bm_def)
  obtain c where c: "file_of ?p (lsm_fs s) = None" "f = put_file ?p c (lsm_fs s)"
    using sst_write_OkD [OF dk(3,4) w] by blast
  define s1 where "s1 = s\<lparr>lsm_fs := f, bloom_map := bm, memtable := []\<rparr>"
  have 1: "lsm_inv E s1" "lsm_map E s1 = lsm_map E s" "lsm_paths s1 = lsm_paths s @ [?p]" "clock f = clock (lsm_fs s)"
    using new_table_step [OF inv rd _ _ newest_name [OF nm c(1)] w] s1_def by (simp_all add: flush_path_eq bm_def)
  obtain cl g b where 2: "s2 = s1\<lparr>lsm_log := cl, lsm_fs := g\<rparr>" "disk_ok E s2"
      "same_tables (data_dir s1) (lsm_fs s1) g" "log_path cl = log_path (lsm_log s1)"
      "encode_all (line_codec E) (map EndTx ?us) = Ok b"
      "log_bytes cl g = log_bytes (lsm_log s1) (lsm_fs s1) @ b" "clock g = clock (lsm_fs s1)"
      "\<forall>q. q \<noteq> log_path (lsm_log s1) \<longrightarrow> bt_get (files g) q = bt_get (files (lsm_fs s1)) q"
      "?us \<noteq> [] \<longrightarrow> map_option mtime (bt_get (files g) (log_path cl)) = Some (clock (lsm_fs s1))"
    using end_transactions_ok [OF lsm_invD(1) [OF 1(1)], of ?us] e unfolding s1_def [symmetric] by auto
  have "lsm_inv E s2" "disk_map E s2 = lsm_map E s" "lsm_paths s2 = lsm_paths s @ [?p]"
    using lsm_inv_step [OF 1(1) 2(2)] 2(1,3) lsm_invD(2) [OF 1(1)] 1(2,3) same_tablesD(1) [OF 2(3)]
    by (simp_all add: lsm_map_def lsm_paths_def s1_def)
  moreover have "in_dir (data_dir s) ?p" "is_sst ?p"
    by (simp_all add: flush_path_eq)
  then have "?p \<noteq> log_path (lsm_log s)" "bloom_map_path s \<noteq> log_path (lsm_log s)" "?p \<noteq> bloom_map_path s"
    using dk(6) not_is_sst_bloom_map [of "data_dir s"] by (auto simp: paths_ok_def)
  then have "log_bytes cl g = log_bytes (lsm_log s) (lsm_fs s) @ b"
      and "bt_get (files g) (bloom_map_path s) = bt_get (files (lsm_fs s)) (bloom_map_path s)"
    using 2(4,6,8) c(2) by (simp_all add: s1_def log_bytes_def)
  ultimately show ?thesis
    using 1(4) 2(1,4,5,7,9)
    by (intro exI [of _ cl] exI [of _ g] exI [of _ b] exI [of _ bm]) (simp add: s1_def)
qed

lemma flush_cut_state:
  assumes inv: "lsm_inv E s" and nm: "names_ok s" and log: "log_holds E (lsm_log s) (lsm_fs s) ls"
    and rd: "readable E (memtable s)" and cut: "flush_cut E k s s2"
    and len: "log_replays E s2" and k: "0 < k" "tx_ids s \<noteq> []" and old: "filters_old s"
  shows "disk_ok E s2 \<and> names_ok s2 \<and> filters_fresh E s2 \<and> lsm_inv E s2 \<and>
     log_holds E (lsm_log s2) (lsm_fs s2) (ls @ map EndTx (take k (tx_ids s))) \<and>
     disk_map E s2 = lsm_map E s \<and> memtable s2 = [] \<and> clock (lsm_fs s2) = clock (lsm_fs s) \<and>
     bt_get (files (lsm_fs s2)) (log_path (lsm_log s2)) \<noteq> None"
proof -
  let ?us = "take k (tx_ids s)"
  obtain cl g b bm where c: "s2 = s\<lparr>lsm_log := cl, lsm_fs := g, bloom_map := bm, memtable := []\<rparr>" "lsm_inv E s2"
      "disk_map E s2 = lsm_map E s" "lsm_paths s2 = lsm_paths s @ [flush_path s]"
      "log_path cl = log_path (lsm_log s)" "encode_all (line_codec E) (map EndTx ?us) = Ok b"
      "log_bytes cl g = log_bytes (lsm_log s) (lsm_fs s) @ b" "clock g = clock (lsm_fs s)"
      "bt_get (files g) (bloom_map_path s) = bt_get (files (lsm_fs s)) (bloom_map_path s)"
      "map_option mtime (bt_get (files g) (log_path cl)) = Some (clock (lsm_fs s))"
    using flush_cut_disk [OF inv nm rd cut] k by auto
  have "names_ok s2"
    using nm c(1,4,8) by (auto simp: names_ok_def flush_path_eq)
  moreover have "log_holds E (lsm_log s2) (lsm_fs s2) (ls @ map EndTx ?us)"
    using log c(1,7) len encode_all_append [OF _ c(6)] by (auto simp: log_holds_def)
  moreover have "filters_fresh E s2"
    using old c(1,5,8-10) by (auto simp: filters_fresh_def filters_old_def)
  ultimately show ?thesis
    using c lsm_invD(1) [OF c(2)] by auto
qed

text \<open>A flush that succeeds is a cut after the last transaction, and forgets the transactions.\<close>

lemma write_sstable_cut:
  assumes "write_sstable E s = (Ok r, s')" and "memtable s \<noteq> []"
  shows "\<exists>s2. flush_cut E (length (tx_ids s)) s s2 \<and> s' = s2\<lparr>tx_ids := []\<rparr>"
proof -
  obtain f where f: "sst_write E (flush_path s) (memtable s) (lsm_fs s) = (Ok (), f)"
    using write_sstable_wrote [OF assms] by blast
  obtain r2 s2 where e: "end_transactions E (tx_ids s) (s\<lparr>lsm_fs := f,
         bloom_map := bt_insert (flush_path s) (fold (bloom_insert E) (map fst (memtable s)) (bloom_new E)) (bloom_map s),
         memtable := []\<rparr>) = (r2, s2)"
    by fastforce
  have "r2 = Ok ()" "s' = s2\<lparr>tx_ids := []\<rparr>"
    using assms f e by (cases r2; simp add: write_sstable_def on_disk_def Let_def sbind_def)+
  with f e show ?thesis
    by (auto simp: flush_cut_def)
qed

lemma flush_durable:
  assumes dur: "durable E s ls" and rd: "readable E (memtable s)" and old: "filters_old s"
    and w: "write_sstable E s = (Ok r, s')" and len: "log_replays E s'"
  shows "\<exists>ls'. durable E s' ls' \<and> lsm_map E s' = lsm_map E s"
proof (cases "memtable s = []")
  case True
  with dur w show ?thesis
    by (auto simp: write_sstable_def)
next
  case False
  note d = durableD [OF dur]
  let ?us = "tx_ids s"
  obtain s2 where s2: "flush_cut E (length ?us) s s2" "s' = s2\<lparr>tx_ids := []\<rparr>"
    using write_sstable_cut [OF w False] by blast
  have "open_txs ls \<noteq> []"
    using False d(7) by (auto simp: replay_def)
  then have ne: "?us \<noteq> []"
    using d(6) by simp
  have st: "disk_ok E s2" "names_ok s2" "filters_fresh E s2" "lsm_inv E s2"
      "log_holds E (lsm_log s2) (lsm_fs s2) (ls @ map EndTx ?us)"
      "disk_map E s2 = lsm_map E s" "memtable s2 = []"
      "bt_get (files (lsm_fs s2)) (log_path (lsm_log s2)) \<noteq> None"
    using flush_cut_state [OF d(1,2,4) rd s2(1)] len ne old s2(2) by simp_all
  have "open_txs (ls @ map EndTx ?us) = []"
    unfolding open_txs_ended d(6) by (simp add: filter_empty_conv)
  then have "durable E s' (ls @ map EndTx ?us)"
    using st s2(2)
    by (simp add: durable_def lsm_live_def lsm_inv_def names_ok_def lsm_paths_def filters_fresh_def replay_def)
  moreover have "lsm_map E s' = lsm_map E s"
    using st(6,7) s2(2) by (simp add: lsm_map_def disk_map_def lsm_paths_def)
  ultimately show ?thesis by blast
qed

lemma filters_durable:
  assumes dur: "durable E s ls" and w: "write_bloom_map E s = (Ok (), s')"
  shows "durable E s' ls \<and> lsm_map E s' = lsm_map E s"
proof (cases "bloom_map s = []")
  case True
  with dur w show ?thesis
    by (simp add: write_bloom_map_def)
next
  case False
  note d = durableD [OF dur]
  note dk = disk_okD [OF d(3)]
  obtain buf where buf: "ser (bloom_codec E) (bloom_map s) = Some buf"
      "s' = s\<lparr>lsm_fs := put_file (bloom_map_path s) buf (lsm_fs s)\<rparr>"
    using w write_bloom_map_eq [OF dk(3,4) False, of E] by (auto split: option.splits)
  have st: "lsm_inv E s'" "lsm_map E s' = lsm_map E s" "lsm_paths s' = lsm_paths s"
    using write_bloom_map_step [OF d(1) w] by simp_all
  have bp: "log_path (lsm_log s) \<noteq> bloom_map_path s"
    using dk(6) by (auto simp: paths_ok_def)
  have "lsm_paths s \<noteq> []"
    using False lsm_invD(3) [OF d(1)] by (auto simp: blooms_cover_def lsm_paths_def)
  then have "\<exists>l. bt_get (files (lsm_fs s)) (log_path (lsm_log s)) = Some l"
    using dur by (simp add: durable_def)
  moreover have "blooms_cover E (data_dir s') (lsm_fs s') (bloom_map s')"
    by (rule lsm_invD(3) [OF st(1)])
  ultimately have "filters_fresh E s'"
    using buf bp by (auto simp: filters_fresh_def)
  moreover have "log_holds E (lsm_log s') (lsm_fs s') ls" "names_ok s'"
    using d(2,4) buf(2) bp st(3) by (simp_all add: log_holds_def log_bytes_def names_ok_def)
  ultimately show ?thesis
    using st dur buf(2) bp by (simp add: durable_def lsm_live_def)
qed

lemma time_durable:
  assumes dur: "durable E s ls" and t: "clock (lsm_fs s) \<le> t" "milli_ok (as_millis t)"
  shows "durable E (s\<lparr>lsm_fs := (lsm_fs s)\<lparr>clock := t\<rparr>\<rparr>) ls \<and>
     lsm_map E (s\<lparr>lsm_fs := (lsm_fs s)\<lparr>clock := t\<rparr>\<rparr>) = lsm_map E s"
proof -
  let ?s = "s\<lparr>lsm_fs := (lsm_fs s)\<lparr>clock := t\<rparr>\<rparr>"
  note d = durableD [OF dur]
  have "same_contents E s ?s"
    using dur t by (intro time_same) (simp_all add: durable_def)
  moreover have "same_tables (data_dir s) (lsm_fs s) (lsm_fs ?s)"
    using disk_okD(4) [OF d(3)] by (simp add: same_tables_def)
  then have "filters_fresh E ?s"
    using d(5) t(1) same_tablesD(4) by (fastforce simp: filters_fresh_def)
  moreover have "log_holds E (lsm_log ?s) (lsm_fs ?s) ls"
    using d(4) by (simp add: log_holds_def log_bytes_def file_of_def)
  ultimately show ?thesis
    using dur by (simp add: durable_def same_contents_def lsm_paths_def sst_paths_def)
qed

section \<open>Work with crashes\<close>

text \<open>
  A history of the store: transactions that were acknowledged, flushes, filter writes, the
  passing of time, and crashes, after each of which a new store starts on the disk.  The list
  collects the operations of the acknowledged transactions.
\<close>

inductive history :: "('b, 'z) lsm_env_scheme \<Rightarrow> 'b lsm_store \<Rightarrow> operation list \<Rightarrow> 'b lsm_store \<Rightarrow> bool"
  for E where
  hist_done: "history E s [] s"
| hist_transact:
    "history E s ops s1 \<Longrightarrow> lsm_transact E tx s1 = (Ok (), s2) \<Longrightarrow> loggable E tx \<Longrightarrow>
     tx_id tx \<notin> set (tx_ids s1) \<Longrightarrow>
     log_replays E s2 \<Longrightarrow>
     history E s (ops @ operations tx) s2"
| hist_flush:
    "history E s ops s1 \<Longrightarrow> write_sstable E s1 = (Ok r, s2) \<Longrightarrow> readable E (memtable s1) \<Longrightarrow>
     filters_old s1 \<Longrightarrow> log_replays E s2 \<Longrightarrow>
     history E s ops s2"
| hist_filters: "history E s ops s1 \<Longrightarrow> write_bloom_map E s1 = (Ok (), s2) \<Longrightarrow> history E s ops s2"
| hist_time: "history E s ops s1 \<Longrightarrow> clock (lsm_fs s1) \<le> t \<Longrightarrow> milli_ok (as_millis t) \<Longrightarrow>
     history E s ops (s1\<lparr>lsm_fs := (lsm_fs s1)\<lparr>clock := t\<rparr>\<rparr>)"
| hist_crash: "history E s ops s1 \<Longrightarrow> lsm_initialize E (restart s1 n) = (Ok (), s2) \<Longrightarrow>
     history E s ops s2"

lemma restart_durable:
  assumes "durable E s ls"
  shows "\<exists>s'. lsm_initialize E (restart s n) = (Ok (), s') \<and> durable E s' ls \<and> lsm_map E s' = lsm_map E s"
  using initialize_ok [OF durableD(3,4,5,2) [OF assms], of n] durableD(7) [OF assms]
  by (auto simp: lsm_map_def)

lemma history_durable:
  "history E s ops s' \<Longrightarrow> durable E s ls \<Longrightarrow>
   \<exists>ls'. durable E s' ls' \<and> lsm_map E s' = fold value_op ops (lsm_map E s)"
proof (induction rule: history.induct)
  case (hist_done s)
  then show ?case by auto
next
  case (hist_transact s ops s1 tx s2)
  then obtain ls1 where d: "durable E s1 ls1" "lsm_map E s1 = fold value_op ops (lsm_map E s)"
    by blast
  obtain b where b: "encode (line_codec E) (BeginTx tx) = Ok b"
    using hist_transact.hyps(3) by (auto simp: loggable_def)
  have "durable E s2 (ls1 @ [BeginTx tx])"
    using transact_durable [OF d(1) b] hist_transact.hyps by blast
  moreover have "lsm_map E s2 = fold value_op (operations tx) (lsm_map E s1)"
    using lsm_transact_step [OF durableD(1) [OF d(1)] b hist_transact.hyps(2)] by simp
  ultimately show ?case
    using d(2) by auto
next
  case (hist_flush s ops s1 r s2)
  then show ?case using flush_durable by metis
next
  case (hist_filters s ops s1 s2)
  then show ?case using filters_durable by metis
next
  case (hist_time s ops s1 t)
  then show ?case using time_durable by metis
next
  case (hist_crash s ops s1 n s2)
  then obtain ls1 where "durable E s1 ls1" "lsm_map E s1 = fold value_op ops (lsm_map E s)"
    by blast
  with restart_durable [OF this(1), of n] hist_crash.hyps(2) show ?case
    by auto
qed

section \<open>Properties of startup\<close>

lemma fold_value_view:
  "lsm_map E s' = fold value_op ops (lsm_map E s) \<Longrightarrow> lsm_view E s' = apply_ops ops (lsm_view E s)"
  by (simp add: lsm_view_def view_fold_value_op)

lemma ex_store_durable: "durable ex_lsm ex_store []"
  using ex_store_inv
  by (simp add: durable_def lsm_live_def log_holds_def filters_fresh_def replay_def ex_store_def lsm_new_def
      lsm_paths_def log_bytes_def empty_disk_def sst_paths_def file_of_def commit_log_new_def)

lemma ex_set_history:
  "\<exists>s. lsm_transact ex_lsm (ex_set 1 ''foo'' ''bar'') ex_store = (Ok (), s) \<and>
     history ex_lsm ex_store [Set (bs ''foo'') (bs ''bar'')] s"
proof -
  obtain s where s: "lsm_transact ex_lsm (ex_set 1 ''foo'' ''bar'') ex_store = (Ok (), s)"
    using ex_set_step by blast
  have enc: "encode (line_codec ex_lsm) (BeginTx (ex_set 1 ''foo'' ''bar'')) =
      Ok (u64_to_be 62 @ enc_line (BeginTx (ex_set 1 ''foo'' ''bar'')))"
    using ex_set_line [of "''foo''" "''bar''" 1] by simp
  have "log_bytes (lsm_log s) (lsm_fs s) = u64_to_be 62 @ enc_line (BeginTx (ex_set 1 ''foo'' ''bar''))"
    using lsm_transact_ok [OF ex_store_inv(1) enc] s
    by (auto simp: ex_store_def lsm_new_def log_bytes_def empty_disk_def file_of_def)
  then have "log_replays ex_lsm s"
    using enc by (intro ex_log_readable [where ls = "[BeginTx (ex_set 1 ''foo'' ''bar'')]"])
      (simp_all add: length_enc_set del: enc_line.simps)
  moreover have "tx_ids ex_store = []"
    by (simp add: ex_store_def lsm_new_def)
  ultimately have "history ex_lsm ex_store ([] @ operations (ex_set 1 ''foo'' ''bar'')) s"
    using enc s by (intro hist_transact [OF hist_done s]) (auto simp: loggable_def)
  then show ?thesis
    using s by (simp add: ex_set_def with_random_id_def operation_set_def)
qed




lemma ex_set_state:
  assumes "lsm_transact ex_lsm (ex_set 1 ''foo'' ''bar'') ex_store = (Ok (), s)"
  shows "tx_ids s = [1]" "bloom_map s = []" "data_dir s = [bs ''data'']"
    "clock (lsm_fs s) = 1720000000000000000" "length (log_bytes (lsm_log s) (lsm_fs s)) = 70"
    "encode_all (line_codec ex_lsm) [BeginTx (ex_set 1 ''foo'' ''bar'')] = Ok (log_bytes (lsm_log s) (lsm_fs s))"
proof -
  have enc: "encode (line_codec ex_lsm) (BeginTx (ex_set 1 ''foo'' ''bar'')) =
      Ok (u64_to_be 62 @ enc_line (BeginTx (ex_set 1 ''foo'' ''bar'')))"
    using ex_set_line [of "''foo''" "''bar''" 1] by simp
  have l: "log_bytes (lsm_log s) (lsm_fs s) = u64_to_be 62 @ enc_line (BeginTx (ex_set 1 ''foo'' ''bar''))"
    and "tx_ids s = [tx_id (ex_set 1 ''foo'' ''bar'')]" "bloom_map s = []" "data_dir s = [bs ''data'']"
      "clock (lsm_fs s) = 1720000000000000000"
    using lsm_transact_ok [OF ex_store_inv(1) enc] assms
    by (auto simp: ex_store_def lsm_new_def empty_disk_def log_bytes_def file_of_def simp del: enc_line.simps)
  then show "tx_ids s = [1]" "bloom_map s = []" "data_dir s = [bs ''data'']"
      "clock (lsm_fs s) = 1720000000000000000"
    by (simp_all add: ex_set_def with_random_id_def)
  show "length (log_bytes (lsm_log s) (lsm_fs s)) = 70"
    using l by (simp add: length_enc_set del: enc_line.simps)
  show "encode_all (line_codec ex_lsm) [BeginTx (ex_set 1 ''foo'' ''bar'')] = Ok (log_bytes (lsm_log s) (lsm_fs s))"
    using l enc by (simp del: enc_line.simps)
qed

lemma ex_cut:
  assumes "lsm_transact ex_lsm (ex_set 1 ''foo'' ''bar'') ex_store = (Ok (), s)"
  shows "filters_old s \<and> (\<exists>s2. flush_cut ex_lsm 1 s s2 \<and> log_replays ex_lsm s2)"
proof
  obtain p where w: "write_sstable ex_lsm s = (Ok (Some p), ex_flushed)" and inv: "lsm_inv ex_lsm s"
      and nm: "names_ok s" and m: "memtable s \<noteq> []"
    using ex_flushed_step ex_set_step assms by auto
  have us: "tx_ids s = [1]" "length (log_bytes (lsm_log s) (lsm_fs s)) = 70"
      "encode_all (line_codec ex_lsm) [BeginTx (ex_set 1 ''foo'' ''bar'')] = Ok (log_bytes (lsm_log s) (lsm_fs s))"
    using ex_set_state [OF assms] by auto
  obtain s2 where cut: "flush_cut ex_lsm 1 s s2"
    using write_sstable_cut [OF w m] us(1) by auto
  obtain b where b: "encode_all (line_codec ex_lsm) (map EndTx (take 1 (tx_ids s))) = Ok b"
      "log_bytes (lsm_log s2) (lsm_fs s2) = log_bytes (lsm_log s) (lsm_fs s) @ b"
    using flush_cut_disk [OF inv nm readable_ex_lsm cut] by auto
  have "length b = 36"
    using b(1) us(1) by (auto simp: encode_ex_end enc_uuid_def)
  with cut b us encode_all_append [OF us(3) b(1)] show "\<exists>s2. flush_cut ex_lsm 1 s s2 \<and> log_replays ex_lsm s2"
    by (intro exI [of _ s2] conjI ex_log_readable
        [where ls = "[BeginTx (ex_set 1 ''foo'' ''bar'')] @ map EndTx (take 1 (tx_ids s))"]) simp_all
  obtain b' where b': "encode (line_codec ex_lsm) (BeginTx (ex_set 1 ''foo'' ''bar'')) = Ok b'"
    using encode_ex_set [of "''foo''" "''bar''" 1] by auto
  show "filters_old s"
    using lsm_transact_ok [OF ex_store_inv(1) b'] assms
    by (auto simp: filters_old_def ex_store_def lsm_new_def commit_log_new_def empty_disk_def bs_def)
qed


text \<open>
  C20: a transaction can be acknowledged and still keep the store from ever starting again.  The
  replay reads the body of a log line with one call.  When that call delivers less than the line
  of a transaction has, the transaction succeeds all the same, but every later start on the disk
  fails with a deserialization error and leaves the disk as it is.
\<close>

theorem unread_line_blocks_start:
  assumes "durable E s ls" and "codec_strict (line_codec E)" and "encode (line_codec E) (BeginTx tx) = Ok b"
    and "log_reads E (length (log_bytes (lsm_log s) (lsm_fs s)) + 8) (length b - 8) = Inr m" and "m < length b - 8"
  shows "\<exists>s'. lsm_transact E tx s = (Ok (), s') \<and>
     (\<forall>n. \<exists>s''. lsm_initialize E (restart s' n) = (Err Err_Bincode, s'') \<and> lsm_fs s'' = lsm_fs s')"
proof -
  note d = durableD [OF assms(1)]
  obtain s' where s': "lsm_transact E tx s = (Ok (), s')" "lsm_live E s'" "filters_fresh E s'"
      "log_bytes (lsm_log s') (lsm_fs s') = log_bytes (lsm_log s) (lsm_fs s) @ b"
      "bt_get (files (lsm_fs s')) (log_path (lsm_log s')) \<noteq> None"
    using transact_disk [OF assms(1,3)] by blast
  have ok: "disk_ok E s'"
    using s'(2) by (simp add: lsm_live_def lsm_inv_def)
  note E = disk_okD(1) [OF ok, unfolded lsm_env_ok_def]
  have "\<exists>s''. lsm_initialize E (restart s' n) = (Err Err_Bincode, s'') \<and> lsm_fs s'' = lsm_fs s'" for n
  proof -
    let ?r = "restart s' n"
    have f: "file_of (log_path (lsm_log ?r)) (lsm_fs s') = Some (log_bytes (lsm_log s) (lsm_fs s) @ take (length b) b @ [])"
      using s'(4,5) by (auto simp: log_bytes_def file_of_def)
    have "8 \<le> length b"
      using assms(3) by (auto simp: encode_def rbind_eq_Ok_iff)
    then have "get_unfinished_transactions (line_codec E) (log_reads E) (lsm_log ?r) (lsm_fs s') = (Err Err_Bincode, lsm_fs s')"
      using d(4) assms(2-5) E disk_okD(3) [OF ok] f by (intro replay_part [of _ _ ls]) (auto simp: log_holds_def)
    moreover have "filters_fresh E ?r"
      using s'(3) disk_ok_bloom_path [OF ok] by (simp add: filters_fresh_def)
    then obtain bm where "restore_bloom_map E ?r = (Ok (), ?r\<lparr>bloom_map := bm\<rparr>)"
      using restore_bloom_map_ok [OF restart_disk_ok [OF ok]] by blast
    ultimately show ?thesis
      by (simp add: lsm_initialize_def restore_previous_txs_def on_disk_def sbind_def)
  qed
  with s'(1) show ?thesis by blast
qed

text \<open>A key and a value of nine bytes together, on an empty store.\<close>

theorem unread_line_blocks_start_witness:
  "\<exists>s s'. lsm_transact ex_lsm (ex_set 1 ''foo'' ''barbaz'') ex_store = (Ok (), s) \<and>
     lsm_initialize ex_lsm (restart s 1000) = (Err Err_Bincode, s')"
proof -
  have enc: "encode (line_codec ex_lsm) (BeginTx (ex_set 1 ''foo'' ''barbaz'')) =
      Ok (u64_to_be 65 @ enc_line (BeginTx (ex_set 1 ''foo'' ''barbaz'')))"
    using ex_set_line [of "''foo''" "''barbaz''" 1] by simp
  have "codec_strict (line_codec ex_lsm)"
    using line_bincode_strict by (simp add: ex_lsm_def)
  moreover have "log_bytes (lsm_log ex_store) (lsm_fs ex_store) = []"
    by (simp add: ex_store_def lsm_new_def log_bytes_def empty_disk_def file_of_def)
  moreover have "log_reads ex_lsm = buffered_reads"
    by (simp add: ex_lsm_def)
  ultimately obtain s where "lsm_transact ex_lsm (ex_set 1 ''foo'' ''barbaz'') ex_store = (Ok (), s)"
      "\<forall>n. \<exists>s''. lsm_initialize ex_lsm (restart s n) = (Err Err_Bincode, s'') \<and> lsm_fs s'' = lsm_fs s"
    using unread_line_blocks_start [OF ex_store_durable _ enc, of 64]
    by (auto simp: buffered_reads_def length_enc_set simp del: enc_line.simps)
  then show ?thesis by blast
qed

lemma write_sstable_log:
  assumes inv: "lsm_inv E s" and rd: "readable E (memtable s)"
    and newest: "\<forall>q \<in> set (lsm_paths s). q < flush_path s"
    and w: "write_sstable E s = (Ok r, s')" and ne: "memtable s \<noteq> []"
  shows "\<exists>b. encode_all (line_codec E) (map EndTx (tx_ids s)) = Ok b \<and>
     log_bytes (lsm_log s') (lsm_fs s') = log_bytes (lsm_log s) (lsm_fs s) @ b \<and>
     bloom_map s' = bt_insert (flush_path s) (fold (bloom_insert E) (map fst (memtable s)) (bloom_new E)) (bloom_map s) \<and>
     log_path (lsm_log s') = log_path (lsm_log s)"
proof -
  let ?p = "flush_path s"
  note dk = disk_okD [OF lsm_invD(1) [OF inv]]
  obtain f where f: "sst_write E ?p (memtable s) (lsm_fs s) = (Ok (), f)"
    using write_sstable_wrote [OF w ne] by blast
  obtain c where c: "f = put_file ?p c (lsm_fs s)"
    using sst_write_OkD [OF dk(3,4) f] by blast
  define s1 where "s1 = s\<lparr>lsm_fs := f,
       bloom_map := bt_insert ?p (fold (bloom_insert E) (map fst (memtable s)) (bloom_new E)) (bloom_map s),
       memtable := []\<rparr>"
  have inv1: "lsm_inv E s1"
    using new_table_step [OF inv rd _ _ newest f s1_def] by (simp add: flush_path_eq)
  obtain cl g b where e: "end_transactions E (tx_ids s1) s1 = (Ok (), s1\<lparr>lsm_log := cl, lsm_fs := g\<rparr>)"
      "encode_all (line_codec E) (map EndTx (tx_ids s1)) = Ok b"
      "log_bytes cl g = log_bytes (lsm_log s1) (lsm_fs s1) @ b" "log_path cl = log_path (lsm_log s1)"
    using end_transactions_ok [OF lsm_invD(1) [OF inv1]] by blast
  have "?p \<noteq> log_path (lsm_log s)"
    using dk(6) is_sst_table_path [of "data_dir s"] in_dir_table_path [of "data_dir s"]
    by (metis flush_path_eq paths_ok_def)
  moreover have "s' = s1\<lparr>lsm_log := cl, lsm_fs := g, tx_ids := []\<rparr>"
    using w ne f e(1) by (simp add: write_sstable_def on_disk_def s1_def Let_def)
  ultimately show ?thesis
    using e(2-4) c by (simp add: s1_def log_bytes_def)
qed

lemma write_bloom_map_log:
  assumes "lsm_inv E s" and "write_bloom_map E s = (Ok (), s')"
  shows "log_bytes (lsm_log s') (lsm_fs s') = log_bytes (lsm_log s) (lsm_fs s)"
proof (cases "bloom_map s = []")
  case True
  with assms(2) show ?thesis
    by (simp add: write_bloom_map_def)
next
  case False
  note dk = disk_okD [OF lsm_invD(1) [OF assms(1)]]
  have "log_path (lsm_log s) \<noteq> bloom_map_path s"
    using dk(6) by (auto simp: paths_ok_def)
  with assms(2) write_bloom_map_eq [OF dk(3,4) False, of E] show ?thesis
    by (auto simp: log_bytes_def split: option.splits)
qed

lemma shutdown_durable:
  assumes "durable E s ls" and "readable E (memtable s)" and "filters_old s"
    and "lsm_shutdown E s = (Ok (), s1)" and "log_replays E s1"
  shows "\<exists>ls1. durable E s1 ls1 \<and> lsm_map E s1 = lsm_map E s \<and> replay (open_txs ls1) = []"
proof -
  let ?s = "s\<lparr>is_shutdown := True\<rparr>"
  have d: "durable E ?s ls"
    using assms(1) by (simp add: durable_def live_fields filters_fresh_def lsm_paths_def)
  obtain r s0 where w: "write_sstable E ?s = (Ok r, s0)" "write_bloom_map E s0 = (Ok (), s1)"
    using assms(4) by (auto simp: lsm_shutdown_def sbind_eq_Ok_iff)
  have m0: "memtable s0 = []" and inv0: "lsm_inv E s0"
    using flush_same [OF _ _ w(1)] d assms(2) by (auto simp: durable_def same_contents_def lsm_live_def)
  note b = write_bloom_map_log [OF inv0 w(2)]
  obtain ls0 where d0: "durable E s0 ls0" "lsm_map E s0 = lsm_map E ?s"
    using flush_durable [OF d _ _ w(1)] assms(2,3,5) b by (auto simp: filters_old_def)
  have "durable E s1 ls0" "lsm_map E s1 = lsm_map E s0"
    using filters_durable [OF d0(1) w(2)] by simp_all
  then show ?thesis
    using d0(2) m0 durableD(7) [OF d0(1)] by auto
qed

text \<open>A shutdown succeeds when the memtable and the filters can be serialized.\<close>

lemma shutdown_succeeds:
  assumes live: "lsm_live E s" and rd: "readable E (memtable s)" and ne: "memtable s \<noteq> []" and none: "lsm_paths s = []"
    and c: "sst_image E (memtable s) = Ok c" and bm: "bloom_map s = []"
    and ser: "ser (bloom_codec E) [(flush_path s, fold (bloom_insert E) (map fst (memtable s)) (bloom_new E))] = Some buf"
  shows "\<exists>s1 b. lsm_shutdown E s = (Ok (), s1) \<and> encode_all (line_codec E) (map EndTx (tx_ids s)) = Ok b \<and>
     log_bytes (lsm_log s1) (lsm_fs s1) = log_bytes (lsm_log s) (lsm_fs s) @ b \<and> lsm_paths s1 = [flush_path s] \<and>
     data_dir s1 = data_dir s \<and> log_path (lsm_log s1) = log_path (lsm_log s)"
proof -
  let ?s = "s\<lparr>is_shutdown := True\<rparr>"
  have inv: "lsm_inv E ?s"
    using live_fields(1) [OF live] by (simp add: lsm_live_def)
  have fields: "flush_path ?s = flush_path s" "lsm_paths ?s = []"
    using none by (simp_all add: flush_path_def lsm_paths_def)
  have "file_of (flush_path ?s) (lsm_fs ?s) = None"
    using none in_sst_paths [of "flush_path ?s" "data_dir ?s" "lsm_fs ?s"] by (simp add: lsm_paths_def flush_path_eq)
  then obtain s0 where w: "write_sstable E ?s = (Ok (Some (flush_path s)), s0)"
    using write_sstable_succeeds [OF inv] rd ne c fields by auto
  obtain b where b: "encode_all (line_codec E) (map EndTx (tx_ids s)) = Ok b"
      "log_bytes (lsm_log s0) (lsm_fs s0) = log_bytes (lsm_log s) (lsm_fs s) @ b"
      "bloom_map s0 = [(flush_path s, fold (bloom_insert E) (map fst (memtable s)) (bloom_new E))]"
      "log_path (lsm_log s0) = log_path (lsm_log s)"
    using write_sstable_log [OF inv _ _ w] rd ne bm fields by auto
  have s0: "lsm_inv E s0" "lsm_paths s0 = [flush_path s]" "data_dir s0 = data_dir s"
    using write_sstable_step [OF inv _ _ w] rd ne fields by auto
  then obtain s1 where s1: "write_bloom_map E s0 = (Ok (), s1)" "lsm_log s1 = lsm_log s0"
    using write_bloom_map_eq [of s0 E] disk_okD(3,4) [OF lsm_invD(1) [OF s0(1)]] b(3) ser by auto
  then have "lsm_paths s1 = lsm_paths s0" "data_dir s1 = data_dir s0"
    using write_bloom_map_step [OF s0(1) s1(1)] by simp_all
  with w s1 b s0(2,3) write_bloom_map_log [OF s0(1) s1(1)] show ?thesis
    by (auto simp: lsm_shutdown_def)
qed


lemma ex_shutdown:
  assumes "lsm_transact ex_lsm (ex_set 1 ''foo'' ''bar'') ex_store = (Ok (), s)"
  shows "\<exists>s1. lsm_shutdown ex_lsm s = (Ok (), s1) \<and> log_replays ex_lsm s1"
proof -
  have s: "lsm_live ex_lsm s" "memtable s = [(bs ''foo'', Data (bs ''bar''))]" "lsm_paths s = []"
    using ex_set_step assms by (auto simp: lsm_live_def)
  have us: "tx_ids s = [1]" "bloom_map s = []" "data_dir s = [bs ''data'']" "clock (lsm_fs s) = 1720000000000000000"
      "length (log_bytes (lsm_log s) (lsm_fs s)) = 70"
      "encode_all (line_codec ex_lsm) [BeginTx (ex_set 1 ''foo'' ''bar'')] = Ok (log_bytes (lsm_log s) (lsm_fs s))"
    using ex_set_state [OF assms] by auto
  have "length (dec 1720000000000) = 13"
    using length_dec_digits [of 12 1720000000000] by simp
  then obtain buf where buf: "ser (bloom_codec ex_lsm) [(flush_path s, fold (bloom_insert ex_lsm) (map fst (memtable s)) (bloom_new ex_lsm))] = Some buf"
    using us s(2)
    by (simp add: ex_lsm_def bloom_bincode_def codec_of_def enc_list_def enc_filter_def flush_path_def as_millis_def)
  obtain c where "sst_image ex_lsm (memtable s) = Ok c"
    using ex_image s(2) by auto
  then obtain s1 b where s1: "lsm_shutdown ex_lsm s = (Ok (), s1)"
      "encode_all (line_codec ex_lsm) (map EndTx (tx_ids s)) = Ok b"
      "log_bytes (lsm_log s1) (lsm_fs s1) = log_bytes (lsm_log s) (lsm_fs s) @ b"
    using shutdown_succeeds [OF s(1) readable_ex_lsm _ s(3) _ us(2) buf] s(2) by auto
  have "length b = 36"
    using s1(2) us(1) by (auto simp: encode_ex_end enc_uuid_def)
  then have "log_replays ex_lsm s1"
    using s1(2,3) us(1,5) encode_all_append [OF us(6) s1(2)]
    by (intro ex_log_readable [where ls = "[BeginTx (ex_set 1 ''foo'' ''bar'')] @ map EndTx (tx_ids s)"]) simp_all
  with s1(1) show ?thesis by blast
qed


end
