(* ===== verification/Proto.thy ===== *)
theory Proto
  imports Kave_Prelude
begin

text \<open>
  \<^verbatim>\<open>src/proto.rs\<close>: the wire protocol.  A call of \<^verbatim>\<open>Proto::read\<close> drives a state
  machine over an internal buffer that is refilled from the socket; the model has one definition
  per state, the inner loops as recursions on the buffer index, and the outer loop as a total
  recursion over what the socket delivers.  The socket is the list of the results of the
  successive reads: a piece of data (an empty piece is what a read yields at the end of the
  stream), an error, or the shutdown broadcast arriving first.  When the list is used up the
  call is still waiting.
\<close>

section \<open>Types\<close>

datatype proto_op =
    P_Get rstring
  | P_Set rstring bytes
  | P_Echo bytes
  | SysClose
  | Cancelled

datatype proto_read_res = Read nat | Eof | Read_cancelled

datatype op = Op_Get | Op_Set | Op_Echo

datatype rstate = Start | ReadOp | ReadKeyLen | ReadKey | ReadEcho | ReadValueLen | ReadValue | Done

datatype sock_event = Chunk bytes | Sock_err io_kind | Kill

abbreviation MIN_BUF_SIZE :: nat where
  "MIN_BUF_SIZE \<equiv> 4"

abbreviation BUF_SIZE :: nat where
  "BUF_SIZE \<equiv> 256"

record proto =
  proto_id :: rstring
  buf :: bytes
  buf_cap :: nat
  fresh :: bool

definition proto_new :: "rstring \<Rightarrow> proto result" where
  "proto_new i =
     (if MIN_BUF_SIZE \<le> BUF_SIZE
      then Ok \<lparr>proto_id = i, buf = [], buf_cap = BUF_SIZE, fresh = True\<rparr>
      else Panic ''assertion failed: buf.capacity() >= MIN_BUF_SIZE'')"

section \<open>Writing replies\<close>

text \<open>
  The writing half of the connection: what was written, what was flushed, and for each of the
  next calls whether it succeeds (\<open>None\<close>) or fails after some bytes went out; calls beyond the
  schedule succeed.
\<close>

record wsock =
  wout :: bytes
  wflushed :: bytes
  wsched :: "nat option list"

definition sock_write :: "rstring \<Rightarrow> bytes \<Rightarrow> (wsock, unit) action" where
  "sock_write msg b w =
     (case wsched w of
        Some n # r \<Rightarrow> (Err (Err_E msg), w\<lparr>wout := wout w @ take n b, wsched := r\<rparr>)
      | _ \<Rightarrow> (Ok (), w\<lparr>wout := wout w @ b, wsched := tl (wsched w)\<rparr>))"

definition sock_flush :: "rstring \<Rightarrow> (wsock, unit) action" where
  "sock_flush msg w =
     (case wsched w of
        Some n # r \<Rightarrow> (Err (Err_E msg), w\<lparr>wsched := r\<rparr>)
      | _ \<Rightarrow> (Ok (), w\<lparr>wflushed := wout w, wsched := tl (wsched w)\<rparr>))"

definition write_stream_buf :: "rstring \<Rightarrow> bytes \<Rightarrow> (wsock, unit) action" where
  "write_stream_buf i b = sock_write (bs ''session='' @ i @ bs '' error writing to socket'') b"

definition flush_stream :: "rstring \<Rightarrow> (wsock, unit) action" where
  "flush_stream i = sock_flush (bs ''session='' @ i @ bs '' error flushing stream'')"

definition proto_flush :: "proto \<Rightarrow> (wsock, unit) action" where
  "proto_flush P = flush_stream (proto_id P)"

definition write_null :: "proto \<Rightarrow> (wsock, unit) action" where
  "write_null P = write_stream_buf (proto_id P) (bs ''null'' @ [newline])"

definition write_echo :: "proto \<Rightarrow> bytes \<Rightarrow> (wsock, unit) action" where
  "write_echo P data =
     (let data_len = dec (length data)
      in write_stream_buf (proto_id P) (data_len @ [colon] @ data @ [newline]))"

definition write_get_result :: "proto \<Rightarrow> bytes \<Rightarrow> (wsock, unit) action" where
  "write_get_result P data =
     (let data_len = dec (length data)
      in write_stream_buf (proto_id P) (data_len @ [colon] @ data @ [newline]))"

definition write_set_result :: "proto \<Rightarrow> bytes \<Rightarrow> (wsock, unit) action" where
  "write_set_result P data =
     (let len_v = dec (length data); len_v_len = dec (length len_v)
      in write_stream_buf (proto_id P) (len_v_len @ [colon] @ len_v @ [newline]))"

text \<open>A writer without scheduled faults.\<close>

lemma sock_ok:
  "wsched w = [] \<Longrightarrow> sock_write m b w = (Ok (), w\<lparr>wout := wout w @ b\<rparr>)"
  "wsched w = [] \<Longrightarrow> sock_flush m w = (Ok (), w\<lparr>wflushed := wout w\<rparr>)"
  by (simp_all add: sock_write_def sock_flush_def)

section \<open>Reading from the socket\<close>

text \<open>One read into the (cleared) buffer, or the broadcast; \<open>None\<close> when nothing has arrived.\<close>

definition proto_read_buf ::
    "proto \<Rightarrow> sock_event list \<Rightarrow> (proto_read_res result \<times> proto \<times> sock_event list) option" where
  "proto_read_buf P evs =
     (case evs of
        [] \<Rightarrow> None
      | Kill # evs' \<Rightarrow> Some (Ok Read_cancelled, P, evs')
      | Chunk c # evs' \<Rightarrow>
          Some (Ok (Read (length c)),
                P\<lparr>buf := buf P @ c, buf_cap := max (buf_cap P) (length (buf P @ c))\<rparr>, evs')
      | Sock_err k # evs' \<Rightarrow>
          (if k = UnexpectedEof then Some (Ok Eof, P, evs')
           else Some (Err (Err_E (bs ''session='' @ proto_id P @ bs '' error reading from socket'')), P, evs')))"

section \<open>The local variables of a read\<close>

record vars =
  rstate :: rstate
  rop :: op
  between_colons :: bool
  needs_read :: bool
  ptr :: nat
  key_len_buf :: bytes
  key_len :: nat
  key :: bytes
  echo :: bytes
  value_len_buf :: bytes
  value_len :: nat
  rvalue :: bytes
  residual :: bytes
  residual_cap :: nat

definition vars_init :: "proto \<Rightarrow> vars" where
  "vars_init P =
     \<lparr>rstate = Start, rop = Op_Get, between_colons = False, needs_read = fresh P, ptr = 0,
      key_len_buf = [], key_len = 0, key = [], echo = [], value_len_buf = [], value_len = 0,
      rvalue = [], residual = [], residual_cap = BUF_SIZE\<rparr>"

text \<open>What one turn of a part of the loop does: go on, or return from the call.\<close>

datatype flow = Go proto vars | Ret "proto_op result" proto

datatype fill_flow = Filled proto vars "sock_event list" | Fill_ret "proto_op result" proto "sock_event list" | No_input

text \<open>
  The part before the match on the state: clear and shrink the buffer, read, and put residual
  bytes in front.
\<close>

definition prepend_residual :: "proto \<Rightarrow> vars \<Rightarrow> flow" where
  "prepend_residual P V =
     (if residual V \<noteq> [] then
        (let joined = residual V @ buf P;
             cap = max (residual_cap V) (length joined);
             V' = V\<lparr>residual := [], residual_cap := buf_cap P\<rparr>
         in if residual_cap V' \<ge> BUF_SIZE
            then Go (P\<lparr>buf := joined, buf_cap := cap\<rparr>) V'
            else Ret (Panic ''assertion failed: residual.capacity() >= BUF_SIZE'') P)
      else Go P V)"

definition fill :: "proto \<Rightarrow> vars \<Rightarrow> sock_event list \<Rightarrow> fill_flow" where
  "fill P V evs =
     (if needs_read V then
        (case proto_read_buf (P\<lparr>buf := [], buf_cap := (if BUF_SIZE \<le> buf_cap P then BUF_SIZE else buf_cap P)\<rparr>) evs of
           None \<Rightarrow> No_input
         | Some (Ok Eof, P', evs') \<Rightarrow> Fill_ret (Ok SysClose) P' evs'
         | Some (Ok Read_cancelled, P', evs') \<Rightarrow> Fill_ret (Ok Cancelled) P' evs'
         | Some (Err e, P', evs') \<Rightarrow> Fill_ret (Err e) P' evs'
         | Some (Panic p, P', evs') \<Rightarrow> Fill_ret (Panic p) P' evs'
         | Some (Ok (Read n), P', evs') \<Rightarrow>
             (case prepend_residual P' V of
                Ret r P'' \<Rightarrow> Fill_ret r P'' evs'
              | Go P'' V' \<Rightarrow> Filled P'' (V'\<lparr>ptr := 0, needs_read := False\<rparr>) evs'))
      else Filled P V evs)"

section \<open>The states\<close>

text \<open>The index just after the first newline at or after an index.\<close>

function clear_to_newline :: "bytes \<Rightarrow> nat \<Rightarrow> nat option" where
  "clear_to_newline b p =
     (if p < length b then
        (if b ! p = newline then Some (p + 1) else clear_to_newline b (p + 1))
      else None)"
  by auto
termination
  by (relation "measure (\<lambda>(b, p). length b - p)") auto

declare clear_to_newline.simps [simp del]

definition step_start :: "proto \<Rightarrow> vars \<Rightarrow> flow" where
  "step_start P V =
     (if fresh P then Go (P\<lparr>fresh := False\<rparr>) (V\<lparr>rstate := ReadOp\<rparr>)
      else (case clear_to_newline (buf P) (ptr V) of
              Some p \<Rightarrow>
                Go P (V\<lparr>ptr := p, rstate := ReadOp,
                        residual := (if p < length (buf P) then residual V @ drop p (buf P) else residual V),
                        residual_cap := (if p < length (buf P)
                          then max (residual_cap V) (length (residual V @ drop p (buf P)))
                          else residual_cap V)\<rparr>)
            | None \<Rightarrow> Go P (V\<lparr>ptr := max (ptr V) (length (buf P)), needs_read := True\<rparr>)))"

definition step_read_op :: "proto \<Rightarrow> vars \<Rightarrow> flow" where
  "step_read_op P V =
     (let read_op_end_ptr = ptr V + MIN_BUF_SIZE in
      if read_op_end_ptr > length (buf P) then
        (if ptr V = 0
         then Ret (Err (Err_E (bs ''error reading start of operation, buffer-len '' @ dec (length (buf P)) @
                bs '' shorter than expected''))) P
         else Go P (V\<lparr>needs_read := True\<rparr>))
      else
        (let word = take MIN_BUF_SIZE (drop (ptr V) (buf P)) in
         if word = bs ''GET:'' then
           Go P (V\<lparr>rop := Op_Get, ptr := 3, needs_read := False, rstate := ReadKeyLen\<rparr>)
         else if word = bs ''SET:'' then
           Go P (V\<lparr>rop := Op_Set, ptr := 3, needs_read := False, rstate := ReadKeyLen\<rparr>)
         else if word = bs ''ECHO'' then
           Go P (V\<lparr>rop := Op_Echo, ptr := 4, needs_read := False, rstate := ReadKeyLen\<rparr>)
         else Ret (Err (Err_E (bs ''error reading start of operation, unknown operation''))) P))"

text \<open>The loop that reads the digits between two colons.\<close>

datatype scan = Bad_byte | Scan_more bool bytes nat | Scan_len bytes nat

function scan_len :: "bytes \<Rightarrow> nat \<Rightarrow> bool \<Rightarrow> bytes \<Rightarrow> scan" where
  "scan_len b p bc lb =
     (if p < length b then
        (if \<not> bc then (if b ! p \<noteq> colon then Bad_byte else scan_len b (p + 1) True lb)
         else if b ! p = colon then Scan_len lb (p + 1)
         else scan_len b (p + 1) True (lb @ [b ! p]))
      else Scan_more bc lb p)"
  by auto
termination
  by (relation "measure (\<lambda>(b, p, bc, lb). length b - p)") auto

declare scan_len.simps [simp del]

definition parse_len :: "rstring \<Rightarrow> bytes \<Rightarrow> nat result" where
  "parse_len what lb = (if utf8_valid lb then parse_usize lb else Err (Err_E (what @ bs '' is invalid utf8'')))"

definition step_read_key_len :: "proto \<Rightarrow> vars \<Rightarrow> flow" where
  "step_read_key_len P V =
     (case scan_len (buf P) (ptr V) (between_colons V) (key_len_buf V) of
        Bad_byte \<Rightarrow> Ret (Err (Err_E (bs ''reading key_len, expected ':' found''))) P
      | Scan_more bc lb p \<Rightarrow> Go P (V\<lparr>between_colons := bc, key_len_buf := lb, ptr := p, needs_read := True\<rparr>)
      | Scan_len lb p \<Rightarrow>
          (case parse_len (bs ''key length'') lb of
             Err e \<Rightarrow> Ret (Err e) P
           | Panic m \<Rightarrow> Ret (Panic m) P
           | Ok n \<Rightarrow> Go P (V\<lparr>between_colons := False, key_len_buf := lb, ptr := p, key_len := n,
                            rstate := (if rop V = Op_Echo then ReadEcho else ReadKey)\<rparr>)))"

text \<open>The loop that copies bytes until enough are there or the buffer is used up.\<close>

function take_bytes :: "bytes \<Rightarrow> nat \<Rightarrow> bytes \<Rightarrow> nat \<Rightarrow> nat \<times> bytes" where
  "take_bytes b p acc n =
     (if p < length b \<and> length acc < n then take_bytes b (p + 1) (acc @ [b ! p]) n else (p, acc))"
  by auto
termination
  by (relation "measure (\<lambda>(b, p, acc, n). length b - p)") auto

declare take_bytes.simps [simp del]

definition step_read_echo :: "proto \<Rightarrow> vars \<Rightarrow> flow" where
  "step_read_echo P V =
     (case take_bytes (buf P) (ptr V) (echo V) (key_len V) of
        (p, e) \<Rightarrow>
          if key_len V \<le> length e then Go P (V\<lparr>ptr := p, echo := e, rstate := Done\<rparr>)
          else Go P (V\<lparr>ptr := p, echo := e, needs_read := True\<rparr>))"

definition step_read_key :: "proto \<Rightarrow> vars \<Rightarrow> flow" where
  "step_read_key P V =
     (case take_bytes (buf P) (ptr V) (key V) (key_len V) of
        (p, k) \<Rightarrow>
          if key_len V \<le> length k then
            (case rop V of
               Op_Get \<Rightarrow> Go P (V\<lparr>ptr := p, key := k, rstate := Done\<rparr>)
             | Op_Set \<Rightarrow> Go P (V\<lparr>ptr := p, key := k, rstate := ReadValueLen\<rparr>)
             | Op_Echo \<Rightarrow> Ret (Panic ''internal error: entered unreachable code'') P)
          else Go P (V\<lparr>ptr := p, key := k, needs_read := True\<rparr>))"

definition step_read_value_len :: "proto \<Rightarrow> vars \<Rightarrow> flow" where
  "step_read_value_len P V =
     (case scan_len (buf P) (ptr V) (between_colons V) (value_len_buf V) of
        Bad_byte \<Rightarrow> Ret (Err (Err_E (bs ''reading value_len, expected ':' found''))) P
      | Scan_more bc lb p \<Rightarrow> Go P (V\<lparr>between_colons := bc, value_len_buf := lb, ptr := p, needs_read := True\<rparr>)
      | Scan_len lb p \<Rightarrow>
          (case parse_len (bs ''value length'') lb of
             Err e \<Rightarrow> Ret (Err e) P
           | Panic m \<Rightarrow> Ret (Panic m) P
           | Ok n \<Rightarrow> Go P (V\<lparr>between_colons := False, value_len_buf := lb, ptr := p, value_len := n,
                            rstate := ReadValue\<rparr>)))"

definition step_read_value :: "proto \<Rightarrow> vars \<Rightarrow> flow" where
  "step_read_value P V =
     (case take_bytes (buf P) (ptr V) (rvalue V) (value_len V) of
        (p, v) \<Rightarrow>
          if value_len V \<le> length v then Go P (V\<lparr>ptr := p, rvalue := v, rstate := Done\<rparr>)
          else Go P (V\<lparr>ptr := p, rvalue := v, needs_read := True\<rparr>))"

definition step_done :: "proto \<Rightarrow> vars \<Rightarrow> flow" where
  "step_done P V =
     (if \<not> utf8_valid (key V) then Ret (Err (Err_E (bs ''key is invalid utf8''))) P
      else (case rop V of
              Op_Echo \<Rightarrow> Ret (Ok (P_Echo (echo V))) P
            | Op_Get \<Rightarrow> Ret (Ok (P_Get (key V))) P
            | Op_Set \<Rightarrow> Ret (Ok (P_Set (key V) (rvalue V))) P))"

fun state_step :: "proto \<Rightarrow> vars \<Rightarrow> flow" where
  "state_step P V =
     (case rstate V of
        Start \<Rightarrow> step_start P V
      | ReadOp \<Rightarrow> step_read_op P V
      | ReadKeyLen \<Rightarrow> step_read_key_len P V
      | ReadEcho \<Rightarrow> step_read_echo P V
      | ReadKey \<Rightarrow> step_read_key P V
      | ReadValueLen \<Rightarrow> step_read_value_len P V
      | ReadValue \<Rightarrow> step_read_value P V
      | Done \<Rightarrow> step_done P V)"

declare state_step.simps [simp del]

section \<open>The loop\<close>

datatype outcome = Returned "proto_op result" proto "sock_event list" | Waiting

text \<open>
  Every turn without a read moves on in the protocol or asks for a read, and every read uses up
  one socket result.
\<close>

fun rank :: "rstate \<Rightarrow> nat" where
  "rank Start = 6"
| "rank ReadOp = 5"
| "rank ReadKeyLen = 4"
| "rank ReadEcho = 3"
| "rank ReadKey = 3"
| "rank ReadValueLen = 2"
| "rank ReadValue = 1"
| "rank Done = 0"

definition turns_left :: "vars \<Rightarrow> nat" where
  "turns_left V = (if needs_read V then 0 else 1 + rank (rstate V))"

lemmas step_defs = step_start_def step_read_op_def step_read_key_len_def step_read_echo_def
  step_read_key_def step_read_value_len_def step_read_value_def step_done_def

lemma state_step_less:
  "state_step P V = Go P' V' \<Longrightarrow> \<not> needs_read V \<Longrightarrow> turns_left V' < turns_left V"
  by (cases "rstate V")
    (auto simp: state_step.simps step_defs turns_left_def Let_def
      split: if_splits option.splits scan.splits result.splits prod.splits op.splits)

lemma fill_Filled:
  "fill P V evs = Filled P' V' evs' \<Longrightarrow>
     \<not> needs_read V' \<and> rstate V' = rstate V \<and>
     (needs_read V \<and> length evs' < length evs \<or> \<not> needs_read V \<and> P' = P \<and> V' = V \<and> evs' = evs)"
  by (auto simp: fill_def proto_read_buf_def prepend_residual_def Let_def
      split: if_splits list.splits sock_event.splits option.splits prod.splits result.splits
        proto_read_res.splits flow.splits)

function read_loop :: "proto \<Rightarrow> vars \<Rightarrow> sock_event list \<Rightarrow> outcome" where
  "read_loop P V evs =
     (case fill P V evs of
        No_input \<Rightarrow> Waiting
      | Fill_ret r P' evs' \<Rightarrow> Returned r P' evs'
      | Filled P' V' evs' \<Rightarrow>
          (case state_step P' V' of
             Ret r P'' \<Rightarrow> Returned r P'' evs'
           | Go P'' V'' \<Rightarrow> read_loop P'' V'' evs'))"
  by auto
termination
proof (relation "measures [\<lambda>(P, V, evs). length evs, \<lambda>(P, V, evs). turns_left V]", goal_cases)
  case (2 P V evs P' V' evs' P'' V'')
  then show ?case
    using fill_Filled [of P V evs P' V' evs'] state_step_less [of P' V' P'' V''] by auto
qed simp

declare read_loop.simps [simp del]

definition proto_read :: "proto \<Rightarrow> sock_event list \<Rightarrow> outcome" where
  "proto_read P evs = read_loop P (vars_init P) evs"

end
