(* ===== verification/Proto_Parse.thy ===== *)
theory Proto_Parse
  imports Proto
begin

text \<open>
  A reference parser for requests that works on a byte list, and the proof that the state
  machine of \<^verbatim>\<open>Proto::read\<close> computes the same result from the buffer and the pieces the
  socket delivers, however the bytes are cut into pieces.  The reference parser has the
  streaming property: parsing what arrived first and then the rest is parsing the whole.
\<close>

section \<open>The loops on lists\<close>

lemma drop_nth: "p < length b \<Longrightarrow> drop p b = b ! p # drop (Suc p) b"
  by (simp add: Cons_nth_drop_Suc)

lemma clear_to_newline_None:
  "newline \<notin> set (drop p b) \<Longrightarrow> clear_to_newline b p = None"
proof (induction b p rule: clear_to_newline.induct)
  case (1 b p)
  then show ?case
    by (cases "p < length b") (simp_all add: clear_to_newline.simps [of b p] drop_nth)
qed

lemma clear_to_newline_Some:
  "drop p b = xs @ newline # ys \<Longrightarrow> newline \<notin> set xs \<Longrightarrow>
   clear_to_newline b p = Some (p + length xs + 1)"
proof (induction b p arbitrary: xs rule: clear_to_newline.induct)
  case (1 b p)
  have p: "p < length b"
    using "1.prems"(1) by (metis append_is_Nil_conv drop_eq_Nil list.distinct(1) not_le)
  note dp = drop_nth [OF p]
  show ?case
  proof (cases xs)
    case Nil
    with 1(2) dp p show ?thesis
      by (simp add: clear_to_newline.simps [of b p])
  next
    case (Cons x xs')
    then have x: "b ! p = x" "drop (Suc p) b = xs' @ newline # ys"
      using 1(2) dp by simp_all
    then have "clear_to_newline b (p + 1) = Some (p + 1 + length xs' + 1)"
      using 1 p Cons by (intro "1.IH") auto
    with x(1) p Cons "1.prems"(2) show ?thesis
      by (simp add: clear_to_newline.simps [of b p])
  qed
qed

datatype lscan = LBad | LMore bool bytes | LLen bytes bytes

fun scan_list :: "bool \<Rightarrow> bytes \<Rightarrow> bytes \<Rightarrow> lscan" where
  "scan_list bc lb [] = LMore bc lb"
| "scan_list bc lb (x # xs) =
     (if \<not> bc then (if x \<noteq> colon then LBad else scan_list True lb xs)
      else if x = colon then LLen lb xs
      else scan_list True (lb @ [x]) xs)"

lemma scan_len_list:
  "p \<le> length b \<Longrightarrow> scan_len b p bc lb =
     (case scan_list bc lb (drop p b) of
        LBad \<Rightarrow> Bad_byte
      | LMore bc' lb' \<Rightarrow> Scan_more bc' lb' (length b)
      | LLen lb' rest \<Rightarrow> Scan_len lb' (length b - length rest))"
proof (induction b p bc lb rule: scan_len.induct)
  case (1 b p bc lb)
  show ?case
  proof (cases "p < length b")
    case True
    then have "Suc p \<le> length b" "length b - (length b - Suc p) = Suc p" by simp_all
    with True 1 show ?thesis
      by (simp add: scan_len.simps [of b p] drop_nth)
  next
    case False
    with "1.prems" show ?thesis
      by (simp add: scan_len.simps [of b "length b"])
  qed
qed

lemma scan_list_rest: "scan_list bc lb xs = LLen lb' rest \<Longrightarrow> \<exists>us. xs = us @ rest"
proof (induction bc lb xs rule: scan_list.induct)
  case (2 bc lb x xs)
  then show ?case by (auto split: if_splits)
qed simp

lemma scan_list_append:
  "scan_list bc lb (xs @ ys) =
     (case scan_list bc lb xs of
        LBad \<Rightarrow> LBad
      | LMore bc' lb' \<Rightarrow> scan_list bc' lb' ys
      | LLen lb' rest \<Rightarrow> LLen lb' (rest @ ys))"
  by (induction bc lb xs rule: scan_list.induct) auto

lemma scan_list_digits: "colon \<notin> set ds \<Longrightarrow> scan_list True lb (ds @ colon # xs) = LLen (lb @ ds) xs"
  by (induction ds arbitrary: lb) auto

lemma take_bytes_list:
  "p \<le> length b \<Longrightarrow> length acc \<le> n \<Longrightarrow>
   take_bytes b p acc n =
     (let m = min (n - length acc) (length b - p) in (p + m, acc @ take m (drop p b)))"
proof (induction b p acc n rule: take_bytes.induct)
  case (1 b p acc n)
  show ?case
  proof (cases "p < length b \<and> length acc < n")
    case True
    then have "min (n - length acc) (length b - p) = Suc (min (n - Suc (length acc)) (length b - Suc p))"
      by auto
    with True 1(1) show ?thesis
      by (simp add: take_bytes.simps [of b p] drop_nth Let_def)
  next
    case False
    with 1(2,3) show ?thesis
      by (auto simp: take_bytes.simps [of b p acc n] Let_def min_def)
  qed
qed

section \<open>The reference parser\<close>

record msg =
  mstate :: rstate
  mop :: op
  mcolons :: bool
  mkey_len_buf :: bytes
  mkey_len :: nat
  mkey :: bytes
  mecho :: bytes
  mvalue_len_buf :: bytes
  mvalue_len :: nat
  mvalue :: bytes

definition msg_of :: "vars \<Rightarrow> msg" where
  "msg_of V =
     \<lparr>mstate = rstate V, mop = rop V, mcolons = between_colons V, mkey_len_buf = key_len_buf V,
      mkey_len = key_len V, mkey = key V, mecho = echo V, mvalue_len_buf = value_len_buf V,
      mvalue_len = value_len V, mvalue = rvalue V\<rparr>"

datatype lflow = LGo msg bytes | LNeed msg | LRet "proto_op result"

fun grab :: "nat \<Rightarrow> bytes \<Rightarrow> bytes \<Rightarrow> bytes option \<times> bytes" where
  "grab n acc xs =
     (if n \<le> length (acc @ xs) then (Some (acc @ take (n - length acc) xs), drop (n - length acc) xs)
      else (None, acc @ xs))"

declare grab.simps [simp del]

definition phase :: "msg \<Rightarrow> bytes \<Rightarrow> lflow" where
  "phase M xs =
     (case mstate M of
        ReadKeyLen \<Rightarrow>
          (case scan_list (mcolons M) (mkey_len_buf M) xs of
             LBad \<Rightarrow> LRet (Err (Err_E (bs ''reading key_len, expected ':' found'')))
           | LMore bc lb \<Rightarrow> LNeed (M\<lparr>mcolons := bc, mkey_len_buf := lb\<rparr>)
           | LLen lb rest \<Rightarrow>
               (case parse_len (bs ''key length'') lb of
                  Err e \<Rightarrow> LRet (Err e)
                | Panic m \<Rightarrow> LRet (Panic m)
                | Ok n \<Rightarrow> LGo (M\<lparr>mcolons := False, mkey_len_buf := lb, mkey_len := n,
                                 mstate := (if mop M = Op_Echo then ReadEcho else ReadKey)\<rparr>) rest))
      | ReadEcho \<Rightarrow>
          (case grab (mkey_len M) (mecho M) xs of
             (Some e, rest) \<Rightarrow> LGo (M\<lparr>mecho := e, mstate := Done\<rparr>) rest
           | (None, e) \<Rightarrow> LNeed (M\<lparr>mecho := e\<rparr>))
      | ReadKey \<Rightarrow>
          (case grab (mkey_len M) (mkey M) xs of
             (Some k, rest) \<Rightarrow>
               (case mop M of
                  Op_Get \<Rightarrow> LGo (M\<lparr>mkey := k, mstate := Done\<rparr>) rest
                | Op_Set \<Rightarrow> LGo (M\<lparr>mkey := k, mstate := ReadValueLen\<rparr>) rest
                | Op_Echo \<Rightarrow> LRet (Panic ''internal error: entered unreachable code''))
           | (None, k) \<Rightarrow> LNeed (M\<lparr>mkey := k\<rparr>))
      | ReadValueLen \<Rightarrow>
          (case scan_list (mcolons M) (mvalue_len_buf M) xs of
             LBad \<Rightarrow> LRet (Err (Err_E (bs ''reading value_len, expected ':' found'')))
           | LMore bc lb \<Rightarrow> LNeed (M\<lparr>mcolons := bc, mvalue_len_buf := lb\<rparr>)
           | LLen lb rest \<Rightarrow>
               (case parse_len (bs ''value length'') lb of
                  Err e \<Rightarrow> LRet (Err e)
                | Panic m \<Rightarrow> LRet (Panic m)
                | Ok n \<Rightarrow> LGo (M\<lparr>mcolons := False, mvalue_len_buf := lb, mvalue_len := n, mstate := ReadValue\<rparr>) rest))
      | ReadValue \<Rightarrow>
          (case grab (mvalue_len M) (mvalue M) xs of
             (Some v, rest) \<Rightarrow> LGo (M\<lparr>mvalue := v, mstate := Done\<rparr>) rest
           | (None, v) \<Rightarrow> LNeed (M\<lparr>mvalue := v\<rparr>))
      | _ \<Rightarrow>
          LRet (if \<not> utf8_valid (mkey M) then Err (Err_E (bs ''key is invalid utf8''))
                else (case mop M of
                        Op_Echo \<Rightarrow> Ok (P_Echo (mecho M))
                      | Op_Get \<Rightarrow> Ok (P_Get (mkey M))
                      | Op_Set \<Rightarrow> Ok (P_Set (mkey M) (mvalue M)))))"

datatype parsed = Parsed "proto_op result" | Need msg

lemma phase_rank: "phase M xs = LGo M' ys \<Longrightarrow> rank (mstate M') < rank (mstate M)"
  by (auto simp: phase_def split: rstate.splits lscan.splits result.splits op.splits prod.splits option.splits)

function parse :: "msg \<Rightarrow> bytes \<Rightarrow> parsed" where
  "parse M xs =
     (case phase M xs of
        LGo M' ys \<Rightarrow> parse M' ys
      | LNeed M' \<Rightarrow> Need M'
      | LRet r \<Rightarrow> Parsed r)"
  by auto
termination
  by (relation "measure (\<lambda>(M, xs). rank (mstate M))") (auto dest: phase_rank)

declare parse.simps [simp del]

section \<open>Streaming\<close>

text \<open>The states after the operation is known; collected bytes never exceed the announced length.\<close>

definition msg_ok :: "msg \<Rightarrow> bool" where
  "msg_ok M \<longleftrightarrow> mstate M \<notin> {Start, ReadOp} \<and>
     (mstate M = ReadEcho \<longrightarrow> length (mecho M) \<le> mkey_len M) \<and>
     (mstate M = ReadKey \<longrightarrow> length (mkey M) \<le> mkey_len M) \<and>
     (mstate M = ReadValue \<longrightarrow> length (mvalue M) \<le> mvalue_len M) \<and>
     (mstate M = ReadKeyLen \<longrightarrow> mkey M = [] \<and> mecho M = [] \<and> mvalue M = []) \<and>
     (mstate M = ReadKey \<or> mstate M = ReadValueLen \<longrightarrow> mvalue M = [] \<and> mop M \<noteq> Op_Echo)"

lemma phase_ok:
  assumes "msg_ok M"
  shows "phase M xs = LGo M' ys \<Longrightarrow> msg_ok M'" and "phase M xs = LNeed M' \<Longrightarrow> msg_ok M'"
  using assms
  by (auto simp: phase_def msg_ok_def grab.simps
      split: rstate.splits lscan.splits result.splits op.splits prod.splits option.splits if_splits)

lemma grab_append:
  "length acc \<le> n \<Longrightarrow> grab n acc (xs @ ys) =
     (case grab n acc xs of
        (Some a, rest) \<Rightarrow> (Some a, rest @ ys)
      | (None, a) \<Rightarrow> grab n a ys)"
  by (auto simp: grab.simps)

lemma phase_append:
  assumes "msg_ok M"
  shows "phase M (xs @ ys) =
     (case phase M xs of
        LGo M' zs \<Rightarrow> LGo M' (zs @ ys)
      | LNeed M' \<Rightarrow> phase M' ys
      | LRet r \<Rightarrow> LRet r)"
proof (cases "mstate M")
  case ReadKeyLen
  then show ?thesis
    by (cases "scan_list (mcolons M) (mkey_len_buf M) xs")
      (auto simp: phase_def scan_list_append split: result.splits lscan.splits)
next
  case ReadValueLen
  then show ?thesis
    by (cases "scan_list (mcolons M) (mvalue_len_buf M) xs")
      (auto simp: phase_def scan_list_append split: result.splits lscan.splits)
next
  case ReadKey
  with assms have "length (mkey M) \<le> mkey_len M" by (simp add: msg_ok_def)
  with ReadKey show ?thesis
    by (auto simp: phase_def grab_append split: option.splits prod.splits op.splits)
next
  case ReadEcho
  with assms have "length (mecho M) \<le> mkey_len M" by (simp add: msg_ok_def)
  with ReadEcho show ?thesis
    by (auto simp: phase_def grab_append split: option.splits prod.splits)
next
  case ReadValue
  with assms have "length (mvalue M) \<le> mvalue_len M" by (simp add: msg_ok_def)
  with ReadValue show ?thesis
    by (auto simp: phase_def grab_append split: option.splits prod.splits)
qed (use assms in \<open>simp_all add: phase_def msg_ok_def\<close>)

lemma parse_append:
  "msg_ok M \<Longrightarrow> parse M (xs @ ys) =
     (case parse M xs of Parsed r \<Rightarrow> Parsed r | Need M' \<Rightarrow> parse M' ys)"
proof (induction M xs rule: parse.induct)
  case (1 M xs)
  show ?case
  proof (cases "phase M xs")
    case (LGo M' zs)
    with 1 show ?thesis
      by (simp add: parse.simps [of M] phase_append phase_ok(1))
  next
    case (LNeed M')
    with 1(2) show ?thesis
      by (simp add: parse.simps [of M] parse.simps [of M'] phase_append)
  next
    case (LRet r)
    with 1(2) show ?thesis
      by (simp add: parse.simps [of M] phase_append)
  qed
qed

lemma parse_Need_ok: "msg_ok M \<Longrightarrow> parse M xs = Need M' \<Longrightarrow> msg_ok M'"
proof (induction M xs rule: parse.induct)
  case (1 M xs)
  note ok = phase_ok [OF "1.prems"(1)]
  show ?case
  proof (cases "phase M xs")
    case (LGo M1 zs)
    with 1 ok(1) [OF LGo] show ?thesis
      by (simp add: parse.simps [of M])
  next
    case (LNeed M1)
    with 1(3) ok(2) [OF LNeed] show ?thesis
      by (simp add: parse.simps [of M])
  next
    case (LRet r)
    with 1(3) show ?thesis
      by (simp add: parse.simps [of M])
  qed
qed

section \<open>The state machine computes the reference parser\<close>

lemma drop_suffix: "drop p b = us @ rest \<Longrightarrow> drop (length b - length rest) b = rest"
proof -
  assume "drop p b = us @ rest"
  then have "b = (take p b @ us) @ rest"
    by (metis append.assoc append_take_drop_id)
  then obtain ys where "b = ys @ rest"
    by blast
  then show ?thesis
    by simp
qed

lemma scan_suffix: "scan_list bc lb (drop p b) = LLen lb' rest \<Longrightarrow> drop (length b - length rest) b = rest"
  using scan_list_rest drop_suffix by blast

lemma take_bytes_grab:
  assumes "p \<le> length b" and "length acc \<le> n"
  shows "take_bytes b p acc n =
    (case grab n acc (drop p b) of
       (Some a, rest) \<Rightarrow> (p + (n - length acc), a)
     | (None, a) \<Rightarrow> (length b, a))"
  using assms by (auto simp: take_bytes_list grab.simps Let_def min_def)

lemma grab_Some:
  "grab n acc (drop p b) = (Some a, rest) \<Longrightarrow> length acc \<le> n \<Longrightarrow>
   rest = drop (p + (n - length acc)) b \<and> p + (n - length acc) \<le> max p (length b) \<and> length a = n"
  by (auto simp: grab.simps add.commute split: if_splits)

lemma grab_None: "grab n acc xs = (None, a) \<Longrightarrow> length a < n"
  by (auto simp: grab.simps split: if_splits)

definition simulates :: "proto \<Rightarrow> vars \<Rightarrow> flow \<Rightarrow> lflow \<Rightarrow> bool" where
  "simulates P V fl lf \<longleftrightarrow>
     (case lf of
        LGo M ys \<Rightarrow> (\<exists>V'. fl = Go P V' \<and> msg_of V' = M \<and> \<not> needs_read V' \<and> ptr V' \<le> length (buf P) \<and>
                        drop (ptr V') (buf P) = ys \<and> residual V' = residual V)
      | LNeed M \<Rightarrow> (\<exists>V'. fl = Go P V' \<and> msg_of V' = M \<and> needs_read V' \<and> residual V' = residual V)
      | LRet r \<Rightarrow> fl = Ret r P)"

lemma step_key_len_sim:
  assumes "rstate V = ReadKeyLen" and "\<not> needs_read V" and "ptr V \<le> length (buf P)"
  shows "simulates P V (step_read_key_len P V) (phase (msg_of V) (drop (ptr V) (buf P)))"
  using assms
  by (cases "scan_list (between_colons V) (key_len_buf V) (drop (ptr V) (buf P))")
    (auto simp: simulates_def step_read_key_len_def phase_def msg_of_def scan_len_list scan_suffix
      split: result.splits)

lemma step_value_len_sim:
  assumes "rstate V = ReadValueLen" and "\<not> needs_read V" and "ptr V \<le> length (buf P)"
  shows "simulates P V (step_read_value_len P V) (phase (msg_of V) (drop (ptr V) (buf P)))"
  using assms
  by (cases "scan_list (between_colons V) (value_len_buf V) (drop (ptr V) (buf P))")
    (auto simp: simulates_def step_read_value_len_def phase_def msg_of_def scan_len_list scan_suffix
      split: result.splits)

lemma step_key_sim:
  assumes "rstate V = ReadKey" and "\<not> needs_read V" and "ptr V \<le> length (buf P)" and "msg_ok (msg_of V)"
  shows "simulates P V (step_read_key P V) (phase (msg_of V) (drop (ptr V) (buf P)))"
proof -
  have len: "length (key V) \<le> key_len V"
    using assms(1,4) by (simp add: msg_ok_def msg_of_def)
  obtain a rest where g: "grab (key_len V) (key V) (drop (ptr V) (buf P)) = (a, rest)"
    by fastforce
  show ?thesis
  proof (cases a)
    case None
    with g have lt: "length rest < key_len V"
      using grab_None by simp
    show ?thesis
      using assms(1-3) g len lt None
      by (simp add: simulates_def step_read_key_def phase_def msg_of_def take_bytes_grab)
  next
    case (Some k)
    note gs = grab_Some [OF g [unfolded Some] len]
    show ?thesis
      using assms(1-3) g len gs Some
      by (cases "rop V"; simp add: simulates_def step_read_key_def phase_def msg_of_def take_bytes_grab)
  qed
qed

lemma step_echo_sim:
  assumes "rstate V = ReadEcho" and "\<not> needs_read V" and "ptr V \<le> length (buf P)" and "msg_ok (msg_of V)"
  shows "simulates P V (step_read_echo P V) (phase (msg_of V) (drop (ptr V) (buf P)))"
proof -
  have len: "length (echo V) \<le> key_len V"
    using assms(1,4) by (simp add: msg_ok_def msg_of_def)
  obtain a rest where g: "grab (key_len V) (echo V) (drop (ptr V) (buf P)) = (a, rest)"
    by fastforce
  show ?thesis
  proof (cases a)
    case None
    with g have lt: "length rest < key_len V"
      using grab_None by simp
    show ?thesis
      using assms(1-3) g len lt None
      by (simp add: simulates_def step_read_echo_def phase_def msg_of_def take_bytes_grab)
  next
    case (Some k)
    note gs = grab_Some [OF g [unfolded Some] len]
    show ?thesis
      using assms(1-3) g len gs Some
      by (simp add: simulates_def step_read_echo_def phase_def msg_of_def take_bytes_grab)
  qed
qed

lemma step_value_sim:
  assumes "rstate V = ReadValue" and "\<not> needs_read V" and "ptr V \<le> length (buf P)" and "msg_ok (msg_of V)"
  shows "simulates P V (step_read_value P V) (phase (msg_of V) (drop (ptr V) (buf P)))"
proof -
  have len: "length (rvalue V) \<le> value_len V"
    using assms(1,4) by (simp add: msg_ok_def msg_of_def)
  obtain a rest where g: "grab (value_len V) (rvalue V) (drop (ptr V) (buf P)) = (a, rest)"
    by fastforce
  show ?thesis
  proof (cases a)
    case None
    with g have lt: "length rest < value_len V"
      using grab_None by simp
    show ?thesis
      using assms(1-3) g len lt None
      by (simp add: simulates_def step_read_value_def phase_def msg_of_def take_bytes_grab)
  next
    case (Some k)
    note gs = grab_Some [OF g [unfolded Some] len]
    show ?thesis
      using assms(1-3) g len gs Some
      by (simp add: simulates_def step_read_value_def phase_def msg_of_def take_bytes_grab)
  qed
qed

lemma state_step_sim:
  assumes "\<not> needs_read V" and "ptr V \<le> length (buf P)" and "msg_ok (msg_of V)"
  shows "simulates P V (state_step P V) (phase (msg_of V) (drop (ptr V) (buf P)))"
proof (cases "rstate V")
  case Done
  then show ?thesis
    by (auto simp: state_step.simps step_done_def simulates_def phase_def msg_of_def split: op.splits)
next
  case Start
  with assms(3) show ?thesis by (simp add: msg_ok_def msg_of_def)
next
  case ReadOp
  with assms(3) show ?thesis by (simp add: msg_ok_def msg_of_def)
qed (use assms in \<open>simp_all add: state_step.simps step_key_len_sim step_value_len_sim step_key_sim
      step_echo_sim step_value_sim\<close>)

lemma read_loop_parse:
  assumes "\<not> needs_read V" and "ptr V \<le> length (buf P)" and "msg_ok (msg_of V)"
  shows "case parse (msg_of V) (drop (ptr V) (buf P)) of
      Parsed r \<Rightarrow> read_loop P V evs = Returned r P evs
    | Need M \<Rightarrow> \<exists>V'. read_loop P V evs = read_loop P V' evs \<and> needs_read V' \<and> msg_of V' = M \<and> residual V' = residual V"
  using assms
proof (induction "turns_left V" arbitrary: V rule: less_induct)
  case less
  let ?xs = "drop (ptr V) (buf P)"
  note sim = state_step_sim [OF less.prems(1-3)]
  have fl: "fill P V evs = Filled P V evs"
    using less.prems(1) by (simp add: fill_def)
  show ?case
  proof (cases "phase (msg_of V) ?xs")
    case (LGo M ys)
    then obtain V' where V': "state_step P V = Go P V'" "msg_of V' = M" "\<not> needs_read V'"
        "ptr V' \<le> length (buf P)" "drop (ptr V') (buf P) = ys" "residual V' = residual V"
      using sim by (auto simp: simulates_def)
    have "read_loop P V evs = read_loop P V' evs"
      using fl V'(1) by (simp add: read_loop.simps [of P V])
    moreover have "msg_ok (msg_of V')"
      using phase_ok(1) [OF less.prems(3) LGo] V'(2) by simp
    moreover have "parse (msg_of V) ?xs = parse (msg_of V') (drop (ptr V') (buf P))"
      using LGo V'(2,5) by (simp add: parse.simps [of "msg_of V"])
    ultimately show ?thesis
      using less.hyps [OF state_step_less [OF V'(1) less.prems(1)] V'(3,4)] V'(6)
      by (simp split: parsed.splits)
  next
    case (LNeed M)
    then obtain V' where V': "state_step P V = Go P V'" "msg_of V' = M" "needs_read V'" "residual V' = residual V"
      using sim by (auto simp: simulates_def)
    have "read_loop P V evs = read_loop P V' evs"
      using fl V'(1) by (simp add: read_loop.simps [of P V])
    with LNeed V' show ?thesis
      by (auto simp: parse.simps [of "msg_of V"])
  next
    case (LRet r)
    then have "state_step P V = Ret r P"
      using sim by (simp add: simulates_def)
    with LRet fl show ?thesis
      by (simp add: parse.simps [of "msg_of V"] read_loop.simps [of P V])
  qed
qed

text \<open>Refilling the buffer when nothing is left over.\<close>

definition refilled :: "proto \<Rightarrow> bytes \<Rightarrow> proto" where
  "refilled P c =
     P\<lparr>buf := c, buf_cap := max (if BUF_SIZE \<le> buf_cap P then BUF_SIZE else buf_cap P) (length c)\<rparr>"

lemma refilled_simps [simp]:
  "buf (refilled P c) = c" "fresh (refilled P c) = fresh P" "proto_id (refilled P c) = proto_id P"
  by (simp_all add: refilled_def)

lemma read_loop_refill:
  assumes "needs_read V" and "residual V = []"
  shows "read_loop P V (Chunk c # evs) = read_loop (refilled P c) (V\<lparr>ptr := 0, needs_read := False\<rparr>) evs"
proof -
  have 1: "fill P V (Chunk c # evs) = Filled (refilled P c) (V\<lparr>ptr := 0, needs_read := False\<rparr>) evs"
    using assms by (simp add: fill_def proto_read_buf_def prepend_residual_def refilled_def)
  have 2: "fill (refilled P c) (V\<lparr>ptr := 0, needs_read := False\<rparr>) evs =
      Filled (refilled P c) (V\<lparr>ptr := 0, needs_read := False\<rparr>) evs"
    by (simp add: fill_def)
  show ?thesis
    by (simp add: read_loop.simps [of P V] read_loop.simps [of "refilled P c"] 1 2)
qed

lemma msg_of_refill [simp]: "msg_of (V\<lparr>ptr := p, needs_read := b\<rparr>) = msg_of V"
  by (simp add: msg_of_def)

text \<open>When the bytes at hand are not enough the loop goes on with the next piece.\<close>

lemma read_loop_need:
  assumes "\<not> needs_read V" and "ptr V \<le> length (buf P)" and "msg_ok (msg_of V)" and "residual V = []"
    and "parse (msg_of V) (drop (ptr V) (buf P)) = Need M"
  shows "\<exists>V1. read_loop P V (map Chunk (c # cs) @ es) = read_loop (refilled P c) V1 (map Chunk cs @ es) \<and>
    \<not> needs_read V1 \<and> ptr V1 = 0 \<and> msg_of V1 = M \<and> residual V1 = []"
proof -
  obtain V' where "read_loop P V (map Chunk (c # cs) @ es) = read_loop P V' (map Chunk (c # cs) @ es)"
      "needs_read V'" "msg_of V' = M" "residual V' = []"
    using read_loop_parse [OF assms(1-3), of "map Chunk (c # cs) @ es"] assms(4,5) by auto
  then show ?thesis
    by (intro exI [of _ "V'\<lparr>ptr := 0, needs_read := False\<rparr>"]) (simp add: read_loop_refill)
qed

lemma read_loop_chunks:
  assumes "\<not> needs_read V" and "ptr V \<le> length (buf P)" and "msg_ok (msg_of V)" and "residual V = []"
  shows "case parse (msg_of V) (drop (ptr V) (buf P) @ concat cs) of
      Parsed r \<Rightarrow> \<exists>P' cs0 cs'. cs = cs0 @ cs' \<and>
        read_loop P V (map Chunk cs @ evs) = Returned r P' (map Chunk cs' @ evs) \<and>
        buf P' = last (buf P # cs0) \<and> fresh P' = fresh P \<and> proto_id P' = proto_id P
    | Need M \<Rightarrow> read_loop P V (map Chunk cs) = Waiting"
  using assms
proof (induction cs arbitrary: P V)
  case Nil
  show ?case
  proof (cases "parse (msg_of V) (drop (ptr V) (buf P))")
    case (Parsed r)
    with read_loop_parse [OF Nil(1-3), of evs] show ?thesis
      by simp
  next
    case (Need M)
    with read_loop_parse [OF Nil(1-3), of "[]"] obtain V' where "read_loop P V [] = read_loop P V' []" "needs_read V'"
      by auto
    with Need show ?thesis
      by (simp add: read_loop.simps [of P V'] fill_def proto_read_buf_def)
  qed
next
  case (Cons c cs)
  let ?xs = "drop (ptr V) (buf P)"
  show ?case
  proof (cases "parse (msg_of V) ?xs")
    case (Parsed r)
    with read_loop_parse [OF Cons.prems(1-3), of "map Chunk (c # cs) @ evs"]
    have "read_loop P V (map Chunk (c # cs) @ evs) = Returned r P (map Chunk (c # cs) @ evs)"
      by simp
    with Parsed parse_append [OF Cons.prems(3), of ?xs "concat (c # cs)"] show ?thesis
      by simp (rule exI [of _ "[]"], simp)
  next
    case (Need M)
    have ok: "msg_ok M"
      by (rule parse_Need_ok [OF Cons.prems(3) Need])
    note step = read_loop_need [OF Cons.prems Need]
    have whole: "parse (msg_of V) (?xs @ concat (c # cs)) = parse M (c @ concat cs)"
      using Need parse_append [OF Cons.prems(3), of ?xs "concat (c # cs)"] by simp
    show ?thesis
    proof (cases "parse M (c @ concat cs)")
      case (Parsed r)
      obtain V1 where V1: "read_loop P V (map Chunk (c # cs) @ evs) = read_loop (refilled P c) V1 (map Chunk cs @ evs)"
          "\<not> needs_read V1" "ptr V1 = 0" "msg_of V1 = M" "residual V1 = []"
        using step by blast
      obtain P' cs0 cs' where "cs = cs0 @ cs'"
          "read_loop (refilled P c) V1 (map Chunk cs @ evs) = Returned r P' (map Chunk cs' @ evs)"
          "buf P' = last (c # cs0)" "fresh P' = fresh P" "proto_id P' = proto_id P"
        using Cons.IH [of V1 "refilled P c"] V1(2-5) ok Parsed by auto
      with V1(1) show ?thesis
        unfolding whole Parsed parsed.case
        by (rule_tac x = P' in exI, rule_tac x = "c # cs0" in exI, rule_tac x = cs' in exI) simp
    next
      case (Need M')
      obtain V1 where V1: "read_loop P V (map Chunk (c # cs)) = read_loop (refilled P c) V1 (map Chunk cs)"
          "\<not> needs_read V1" "ptr V1 = 0" "msg_of V1 = M" "residual V1 = []"
        using step [of c cs "[]"] by auto
      then show ?thesis
        using Cons.IH [of V1 "refilled P c"] ok Need whole by auto
    qed
  qed
qed

section \<open>Whole requests\<close>

text \<open>The reference for a request: the operation word, then the rest.\<close>

definition msg_init :: "op \<Rightarrow> msg" where
  "msg_init q =
     \<lparr>mstate = ReadKeyLen, mop = q, mcolons = False, mkey_len_buf = [], mkey_len = 0, mkey = [], mecho = [],
      mvalue_len_buf = [], mvalue_len = 0, mvalue = []\<rparr>"

definition parse_request :: "bytes \<Rightarrow> parsed" where
  "parse_request xs =
     (if take 4 xs = bs ''GET:'' then parse (msg_init Op_Get) (drop 3 xs)
      else if take 4 xs = bs ''SET:'' then parse (msg_init Op_Set) (drop 3 xs)
      else if take 4 xs = bs ''ECHO'' then parse (msg_init Op_Echo) (drop 4 xs)
      else Parsed (Err (Err_E (bs ''error reading start of operation, unknown operation''))))"

lemma msg_init_ok: "msg_ok (msg_init q)"
  by (simp add: msg_ok_def msg_init_def)

text \<open>Variables as they are when a request starts at the beginning of a buffer.\<close>

definition at_op :: "vars \<Rightarrow> bool" where
  "at_op V \<longleftrightarrow> rstate V = ReadOp \<and> residual V = [] \<and> (\<forall>q. msg_of (V\<lparr>rstate := ReadKeyLen, rop := q\<rparr>) = msg_init q)"

text \<open>The words of the operations lead to the parser of the rest.\<close>

lemma read_op_known:
  assumes V: "at_op V" "\<not> needs_read V" and b: "4 \<le> length (buf P)"
    and go: "state_step P V = Go P (V\<lparr>rop := q, ptr := n, needs_read := False, rstate := ReadKeyLen\<rparr>)"
    and whole: "parse_request (buf P @ concat cs) = parse (msg_init q) (drop n (buf P @ concat cs))" and n: "n \<le> 4"
  shows "case parse_request (buf P @ concat cs) of
      Parsed r \<Rightarrow> \<exists>P' cs0 cs'. cs = cs0 @ cs' \<and>
        read_loop P V (map Chunk cs @ evs) = Returned r P' (map Chunk cs' @ evs) \<and>
        buf P' = last (buf P # cs0) \<and> fresh P' = fresh P \<and> proto_id P' = proto_id P
    | Need M \<Rightarrow> read_loop P V (map Chunk cs) = Waiting"
proof -
  let ?V = "V\<lparr>rop := q, ptr := n, needs_read := False, rstate := ReadKeyLen\<rparr>"
  have m: "msg_of ?V = msg_init q"
    using V(1) by (simp add: at_op_def msg_of_def)
  have step: "read_loop P V es = read_loop P ?V es" for es
    using go V(2) by (simp add: read_loop.simps [of P V] fill_def)
  show ?thesis
    unfolding whole step
    using read_loop_chunks [of ?V P cs evs] m n b V(1) msg_init_ok [of q] by (simp add: at_op_def)
qed

lemma read_op_chunks:
  assumes V: "at_op V" "\<not> needs_read V" "ptr V = 0" and b: "4 \<le> length (buf P)"
  shows "case parse_request (buf P @ concat cs) of
      Parsed r \<Rightarrow> \<exists>P' cs0 cs'. cs = cs0 @ cs' \<and>
        read_loop P V (map Chunk cs @ evs) = Returned r P' (map Chunk cs' @ evs) \<and>
        buf P' = last (buf P # cs0) \<and> fresh P' = fresh P \<and> proto_id P' = proto_id P
    | Need M \<Rightarrow> read_loop P V (map Chunk cs) = Waiting"
proof -
  have fl: "fill P V es = Filled P V es" for es
    using V(2) by (simp add: fill_def)
  have word: "take 4 (buf P @ concat cs) = take 4 (buf P)"
    using b by simp
  have st: "rstate V = ReadOp"
    using V(1) by (simp add: at_op_def)
  note known = read_op_known [OF V(1,2) b]
  consider "take 4 (buf P) = bs ''GET:''" | "take 4 (buf P) = bs ''SET:''" | "take 4 (buf P) = bs ''ECHO''"
    | "take 4 (buf P) \<notin> {bs ''GET:'', bs ''SET:'', bs ''ECHO''}"
    by blast
  then show ?thesis
  proof cases
    case 1
    with V b st word show ?thesis
      by (intro known [where q = Op_Get and n = 3]) (simp_all add: state_step.simps step_read_op_def parse_request_def Let_def)
  next
    case 2
    moreover have "bs ''SET:'' \<noteq> bs ''GET:''" by code_simp
    ultimately show ?thesis
      using V b st word
      by (intro known [where q = Op_Set and n = 3]) (simp_all add: state_step.simps step_read_op_def parse_request_def Let_def)
  next
    case 3
    moreover have "bs ''ECHO'' \<noteq> bs ''GET:''" "bs ''ECHO'' \<noteq> bs ''SET:''" by code_simp+
    ultimately show ?thesis
      using V b st word
      by (intro known [where q = Op_Echo and n = 4]) (simp_all add: state_step.simps step_read_op_def parse_request_def Let_def)
  next
    case 4
    with V(3) b st have "state_step P V = Ret (Err (Err_E (bs ''error reading start of operation, unknown operation''))) P"
      by (simp add: state_step.simps step_read_op_def Let_def)
    moreover from 4 have
      "parse_request (buf P @ concat cs) = Parsed (Err (Err_E (bs ''error reading start of operation, unknown operation'')))"
      unfolding parse_request_def word by simp
    ultimately show ?thesis
      using fl by (simp add: read_loop.simps [of P V]) (rule exI [of _ "[]"], simp)
  qed
qed

text \<open>A new reader waits for the first piece; a used one first skips the rest of the line before.\<close>

lemma at_op_init: "at_op ((vars_init P)\<lparr>rstate := ReadOp, ptr := p, needs_read := b\<rparr>)"
  by (simp add: at_op_def vars_init_def msg_of_def msg_init_def)

lemma fresh_start:
  assumes "fresh P"
  shows "proto_read P (Chunk c # evs) =
    read_loop ((refilled P c)\<lparr>fresh := False\<rparr>) ((vars_init P)\<lparr>rstate := ReadOp, ptr := 0, needs_read := False\<rparr>) evs"
proof -
  let ?V = "(vars_init P)\<lparr>ptr := 0, needs_read := False\<rparr>"
  have "proto_read P (Chunk c # evs) = read_loop (refilled P c) ?V evs"
    unfolding proto_read_def using assms by (intro read_loop_refill) (simp_all add: vars_init_def)
  also have "\<dots> = read_loop ((refilled P c)\<lparr>fresh := False\<rparr>) (?V\<lparr>rstate := ReadOp\<rparr>) evs"
    using assms
    by (simp add: read_loop.simps [of "refilled P c"] fill_def state_step.simps step_start_def vars_init_def)
  finally show ?thesis
    by (simp add: vars_init_def)
qed

lemma skip_line:
  assumes "\<not> fresh P" and "rstate V = Start" and "residual V = []" and "\<not> needs_read V" and "ptr V = 0"
    and "buf P @ concat ds = pre @ [newline]" and "newline \<notin> set pre" and "\<forall>d \<in> set ds. d \<noteq> []"
  shows "\<exists>P' V'. read_loop P V (map Chunk ds @ evs) = read_loop P' V' evs \<and> needs_read V' \<and>
     V'\<lparr>ptr := 0, needs_read := False\<rparr> = V\<lparr>rstate := ReadOp, ptr := 0, needs_read := False\<rparr> \<and>
     \<not> fresh P' \<and> proto_id P' = proto_id P"
  using assms
proof (induction ds arbitrary: P V pre)
  case Nil
  let ?V = "V\<lparr>ptr := length (buf P), rstate := ReadOp, residual := []\<rparr>"
  have v: "?V\<lparr>ptr := 0, needs_read := False\<rparr> = V\<lparr>rstate := ReadOp, ptr := 0, needs_read := False\<rparr>"
    using Nil.prems(3) by (cases V) simp
  have b: "buf P = pre @ [newline]"
    using Nil.prems(6) by simp
  then have ne: "buf P \<noteq> []"
    by simp
  from b have "clear_to_newline (buf P) 0 = Some (length (buf P))"
    using clear_to_newline_Some [of 0 "buf P" pre "[]"] Nil.prems(7) by simp
  then have "read_loop P V evs = read_loop P ?V evs"
    using Nil.prems
    by (simp add: read_loop.simps [of P V] fill_def state_step.simps step_start_def)
  also have "\<dots> = read_loop P (?V\<lparr>needs_read := True\<rparr>) evs"
    using Nil.prems(4) ne by (simp add: read_loop.simps [of P ?V] fill_def state_step.simps step_read_op_def)
  finally show ?case
    using Nil.prems(1) v by (intro exI [of _ P] exI [of _ "?V\<lparr>needs_read := True\<rparr>"]) simp
next
  case (Cons d ds)
  obtain pre' where pre: "pre = buf P @ pre'" "d @ concat ds = pre' @ [newline]"
  proof -
    have "d @ concat ds \<noteq> []"
      using Cons.prems(8) by simp
    then obtain us x where us: "d @ concat ds = us @ [x]"
      by (metis rev_exhaust)
    with Cons.prems(6) have "pre = buf P @ us" "x = newline"
      by (simp_all flip: append_assoc)
    with us that show ?thesis by blast
  qed
  let ?V = "V\<lparr>ptr := length (buf P), needs_read := True\<rparr>"
  have "clear_to_newline (buf P) 0 = None"
    using Cons.prems(7) pre(1) by (intro clear_to_newline_None) simp
  then have "read_loop P V (map Chunk (d # ds) @ evs) = read_loop P ?V (map Chunk (d # ds) @ evs)"
    using Cons.prems
    by (simp add: read_loop.simps [of P V] fill_def state_step.simps step_start_def)
  also have "\<dots> = read_loop (refilled P d) (?V\<lparr>ptr := 0, needs_read := False\<rparr>) (map Chunk ds @ evs)"
    using Cons.prems(3) by (simp add: read_loop_refill)
  finally show ?case
    using Cons.IH [of "refilled P d" "?V\<lparr>ptr := 0, needs_read := False\<rparr>" pre'] Cons.prems pre by simp
qed

lemma used_start:
  assumes "\<not> fresh P" and "buf P @ concat ds = pre @ [newline]" and "newline \<notin> set pre" and "\<forall>d \<in> set ds. d \<noteq> []"
  shows "\<exists>P'. proto_read P (map Chunk ds @ Chunk c # evs) =
      read_loop P' ((vars_init P)\<lparr>rstate := ReadOp, ptr := 0, needs_read := False\<rparr>) evs \<and>
     buf P' = c \<and> \<not> fresh P' \<and> proto_id P' = proto_id P"
proof -
  have v: "rstate (vars_init P) = Start" "residual (vars_init P) = []" "\<not> needs_read (vars_init P)"
      "ptr (vars_init P) = 0"
    using assms(1) by (simp_all add: vars_init_def)
  obtain P' V' where 1: "read_loop P (vars_init P) (map Chunk ds @ Chunk c # evs) = read_loop P' V' (Chunk c # evs)"
      "needs_read V'" "V'\<lparr>ptr := 0, needs_read := False\<rparr> = (vars_init P)\<lparr>rstate := ReadOp, ptr := 0, needs_read := False\<rparr>"
      "\<not> fresh P'" "proto_id P' = proto_id P"
    using skip_line [OF assms(1) v assms(2-4)] by blast
  have "residual V' = []"
    using arg_cong [OF 1(3), of residual] by (simp add: vars_init_def)
  then show ?thesis
    using 1 by (intro exI [of _ "refilled P' c"]) (simp add: proto_read_def read_loop_refill)
qed

end
