(* ===== verification/Proto_Read.thy ===== *)
theory Proto_Read
  imports Proto_Parse "HOL-Library.Sublist"
begin

text \<open>
  What \<^verbatim>\<open>Proto::read\<close> makes of the requests a client sends.  A request read from a socket
  is the reference parse of its bytes, however they are cut into pieces; a client that sends one
  request per group of pieces, each with a first piece of at least four bytes and without
  newlines in the payloads, gets exactly its requests read, in order; a read never panics and
  reacts to a shutdown whenever it waits.  Outside these conditions the reader goes wrong:
  requests that arrive together, newlines inside a value, and the end of the stream.
\<close>

section \<open>Requests on the wire\<close>

text \<open>The format the documentation of \<^verbatim>\<open>Proto::read\<close> gives, without and with the final newline.\<close>

fun body :: "proto_op \<Rightarrow> bytes" where
  "body (P_Get k) = bs ''GET:'' @ dec (length k) @ colon # k"
| "body (P_Set k v) = bs ''SET:'' @ dec (length k) @ colon # k @ colon # dec (length v) @ colon # v"
| "body (P_Echo m) = bs ''ECHO:'' @ dec (length m) @ colon # m"
| "body SysClose = []"
| "body Cancelled = []"

definition wire :: "proto_op \<Rightarrow> bytes" where
  "wire q = body q @ [newline]"

fun request :: "proto_op \<Rightarrow> bool" where
  "request (P_Get k) \<longleftrightarrow> utf8_valid k \<and> length k < 2 ^ 64"
| "request (P_Set k v) \<longleftrightarrow> utf8_valid k \<and> length k < 2 ^ 64 \<and> length v < 2 ^ 64"
| "request (P_Echo m) \<longleftrightarrow> length m < 2 ^ 64"
| "request SysClose = False"
| "request Cancelled = False"

definition one_line :: "proto_op \<Rightarrow> bool" where
  "one_line q \<longleftrightarrow> newline \<notin> set (body q)"

lemma words:
  "bs ''GET:'' = [71, 69, 84, 58]" "bs ''SET:'' = [83, 69, 84, 58]" "bs ''ECHO'' = [69, 67, 72, 79]"
  "bs ''ECHO:'' = [69, 67, 72, 79, 58]"
  by code_simp+

text \<open>The operation a word stands for, and where its first length begins.\<close>

definition word_of :: "bytes \<Rightarrow> (op \<times> nat) option" where
  "word_of w =
     (if w = bs ''GET:'' then Some (Op_Get, 3) else if w = bs ''SET:'' then Some (Op_Set, 3)
      else if w = bs ''ECHO'' then Some (Op_Echo, 4) else None)"

fun op_of :: "proto_op \<Rightarrow> op \<times> nat" where
  "op_of (P_Set k v) = (Op_Set, 3)"
| "op_of (P_Echo m) = (Op_Echo, 4)"
| "op_of _ = (Op_Get, 3)"

lemma word_of_body: "request q \<Longrightarrow> word_of (take 4 (body q @ xs)) = Some (op_of q)"
  by (cases q) (simp_all add: word_of_def words)

lemma body_length: "request q \<Longrightarrow> 4 \<le> length (body q)"
  by (cases q) (simp_all add: words)

lemma parse_request_word:
  "word_of (take 4 xs) = Some (q, n) \<Longrightarrow> parse_request xs = parse (msg_init q) (drop n xs) \<and> n \<le> 4"
  by (auto simp: word_of_def parse_request_def split: if_splits)

lemma step_read_op_word:
  "ptr V + 4 \<le> length (buf P) \<Longrightarrow> word_of (take 4 (drop (ptr V) (buf P))) = Some (q, n) \<Longrightarrow>
   step_read_op P V = Go P (V\<lparr>rop := q, ptr := n, needs_read := False, rstate := ReadKeyLen\<rparr>)"
  by (auto simp: word_of_def step_read_op_def Let_def split: if_splits)

lemma parse_length [simp]: "n < 2 ^ 64 \<Longrightarrow> parse_len w (dec n) = Ok n"
  by (simp add: parse_len_def)

lemma parse_request_body:
  assumes "request q"
  shows "parse_request (body q @ rest) = Parsed (Ok q)"
proof -
  have "parse_request (body q @ rest) = parse (msg_init (fst (op_of q))) (drop (snd (op_of q)) (body q @ rest))"
    using parse_request_word [of "body q @ rest" "fst (op_of q)" "snd (op_of q)"] word_of_body [OF assms, of rest]
    by simp
  also have "\<dots> = Parsed (Ok q)"
    using assms
    by (cases q)
      (simp_all add: words parse.simps phase_def msg_init_def scan_list_digits
        scan_list_digits [of _ "[]", simplified] grab.simps)
  finally show ?thesis .
qed

section \<open>Where a reader stands between two requests\<close>

text \<open>
  A reader that can take the next request: a new one, or one that still has to skip the rest of
  the line before, which ends with the pieces \<open>ds\<close>.
\<close>

definition ready :: "proto \<Rightarrow> bytes list \<Rightarrow> bool" where
  "ready P ds \<longleftrightarrow>
     (if fresh P then ds = []
      else [] \<notin> set ds \<and> (\<exists>pre. buf P @ concat ds = pre @ [newline] \<and> newline \<notin> set pre))"

lemma ready_start:
  assumes "ready P ds"
  shows "\<exists>P'. proto_read P (map Chunk ds @ Chunk c # evs) =
      read_loop P' ((vars_init P)\<lparr>rstate := ReadOp, ptr := 0, needs_read := False\<rparr>) evs \<and>
     buf P' = c \<and> \<not> fresh P' \<and> proto_id P' = proto_id P"
proof (cases "fresh P")
  case True
  with assms show ?thesis
    using fresh_start [OF True, of c evs]
    by (intro exI [of _ "(refilled P c)\<lparr>fresh := False\<rparr>"]) (simp add: ready_def)
next
  case False
  with assms obtain pre where "buf P @ concat ds = pre @ [newline]" "newline \<notin> set pre" "[] \<notin> set ds"
    by (auto simp: ready_def)
  with used_start [OF False this(1,2), of c evs] show ?thesis
    by metis
qed

lemma ready_read:
  assumes "ready P ds" and "4 \<le> length c"
  shows "parse_request (concat (c # cs)) = Parsed r \<Longrightarrow>
      \<exists>P' cs0 cs'. cs = cs0 @ cs' \<and>
        proto_read P (map Chunk (ds @ c # cs) @ evs) = Returned r P' (map Chunk cs' @ evs) \<and>
        buf P' = last (c # cs0) \<and> \<not> fresh P'"
    and "parse_request (concat (c # cs)) = Need M \<Longrightarrow> proto_read P (map Chunk (ds @ c # cs)) = Waiting"
proof -
  let ?V = "(vars_init P)\<lparr>rstate := ReadOp, ptr := 0, needs_read := False\<rparr>"
  note start = ready_start [OF assms(1), of c]
  { assume p: "parse_request (concat (c # cs)) = Parsed r"
    obtain P1 where P1: "proto_read P (map Chunk ds @ Chunk c # map Chunk cs @ evs) = read_loop P1 ?V (map Chunk cs @ evs)"
        "buf P1 = c" "\<not> fresh P1"
      using start [of "map Chunk cs @ evs"] by blast
    then have eq: "proto_read P (map Chunk (ds @ c # cs) @ evs) = read_loop P1 ?V (map Chunk cs @ evs)"
      by simp
    have "\<exists>P' cs0 cs'. cs = cs0 @ cs' \<and> read_loop P1 ?V (map Chunk cs @ evs) = Returned r P' (map Chunk cs' @ evs) \<and>
        buf P' = last (buf P1 # cs0) \<and> fresh P' = fresh P1 \<and> proto_id P' = proto_id P1"
      using read_op_chunks [of ?V P1 cs evs] at_op_init [where P = P] P1(2) p assms(2) by simp
    then show "\<exists>P' cs0 cs'. cs = cs0 @ cs' \<and>
        proto_read P (map Chunk (ds @ c # cs) @ evs) = Returned r P' (map Chunk cs' @ evs) \<and>
        buf P' = last (c # cs0) \<and> \<not> fresh P'"
      unfolding eq P1(2) using P1(3) by blast }
  { assume p: "parse_request (concat (c # cs)) = Need M"
    obtain P1 where P1: "proto_read P (map Chunk ds @ Chunk c # map Chunk cs) = read_loop P1 ?V (map Chunk cs)"
        "buf P1 = c"
      using start [of "map Chunk cs"] by blast
    show "proto_read P (map Chunk (ds @ c # cs)) = Waiting"
      using read_op_chunks [of ?V P1 cs "[]"] at_op_init [where P = P] P1 p assms(2) by auto }
qed

section \<open>A session\<close>

text \<open>The results of successive reads on one connection.\<close>

fun read_n :: "nat \<Rightarrow> proto \<Rightarrow> sock_event list \<Rightarrow> proto_op result list" where
  "read_n 0 P evs = []"
| "read_n (Suc n) P evs =
     (case proto_read P evs of
        Waiting \<Rightarrow> []
      | Returned r P' evs' \<Rightarrow> r # read_n n P' evs')"

text \<open>A request and the pieces it is delivered in.\<close>

definition delivered :: "proto_op \<Rightarrow> bytes list \<Rightarrow> bool" where
  "delivered q cs \<longleftrightarrow> request q \<and> one_line q \<and> concat cs = wire q \<and> [] \<notin> set cs \<and> 4 \<le> length (hd cs)"

lemma delivered_read:
  assumes "ready P ds" and "delivered q cs"
  shows "\<exists>P' cs'. proto_read P (map Chunk (ds @ cs) @ evs) = Returned (Ok q) P' (map Chunk cs' @ evs) \<and> ready P' cs'"
proof -
  from assms(2) obtain c cs1 where cs: "cs = c # cs1"
    by (cases cs) (auto simp: delivered_def wire_def)
  with assms(2) have q: "request q" "one_line q" "4 \<le> length c" "[] \<notin> set cs" "concat cs = body q @ [newline]"
    by (auto simp: delivered_def wire_def)
  have p: "parse_request (concat (c # cs1)) = Parsed (Ok q)"
    using q(1,5) cs parse_request_body [of q "[newline]"] by simp
  obtain P' cs0 cs' where P': "cs1 = cs0 @ cs'" "proto_read P (map Chunk (ds @ c # cs1) @ evs) = Returned (Ok q) P' (map Chunk cs' @ evs)"
      "buf P' = last (c # cs0)" "\<not> fresh P'"
    using ready_read(1) [OF assms(1) q(3) p, of evs] by blast
  have "c # cs0 = butlast (c # cs0) @ [buf P']"
    using P'(3) append_butlast_last_id [of "c # cs0"] by simp
  then have "cs = butlast (c # cs0) @ buf P' # cs'"
    using cs P'(1) by simp
  then have split: "concat (butlast (c # cs0)) @ (buf P' @ concat cs') = body q @ [newline]" and ne: "buf P' \<noteq> []"
    using q(4,5) by (auto simp del: butlast.simps)
  obtain u x where u: "buf P' @ concat cs' = u @ [x]"
    using ne by (metis append_is_Nil_conv rev_exhaust)
  have "concat (butlast (c # cs0)) @ u = body q" "x = newline"
    using split unfolding u by (simp_all flip: append_assoc)
  then have "newline \<notin> set u"
    using q(2) by (metis one_line_def Un_iff set_append)
  with u \<open>x = newline\<close> P' q(4) cs have "ready P' cs'"
    by (auto simp: ready_def)
  with P'(2) cs show ?thesis by auto
qed

lemma session_reads:
  "ready P ds \<Longrightarrow> list_all (\<lambda>(q, cs). delivered q cs) qs \<Longrightarrow>
   read_n (length qs) P (map Chunk (ds @ concat (map snd qs))) = map (\<lambda>(q, cs). Ok q) qs"
proof (induction qs arbitrary: P ds)
  case (Cons qc qs)
  obtain q cs where qc: "qc = (q, cs)" by fastforce
  with Cons.prems delivered_read [of P ds q cs "map Chunk (concat (map snd qs))"]
  obtain P' cs' where P': "proto_read P (map Chunk (ds @ cs) @ map Chunk (concat (map snd qs))) =
      Returned (Ok q) P' (map Chunk cs' @ map Chunk (concat (map snd qs)))" "ready P' cs'"
    by auto
  with Cons.IH [OF P'(2)] Cons.prems(2) qc show ?case
    by simp
qed simp

section \<open>Waiting, shutdown and panics\<close>

lemma fill_append:
  "fill P V evs = Filled P' V' evs' \<Longrightarrow> fill P V (evs @ es) = Filled P' V' (evs' @ es)"
  "fill P V evs = Fill_ret r P' evs' \<Longrightarrow> fill P V (evs @ es) = Fill_ret r P' (evs' @ es)"
  by (auto simp: fill_def proto_read_buf_def prepend_residual_def Let_def
      split: if_splits list.splits sock_event.splits option.splits prod.splits result.splits
        proto_read_res.splits flow.splits)

lemma fill_No_input: "fill P V evs = No_input \<Longrightarrow> evs = [] \<and> needs_read V"
  by (auto simp: fill_def proto_read_buf_def prepend_residual_def Let_def
      split: if_splits list.splits sock_event.splits option.splits prod.splits result.splits
        proto_read_res.splits flow.splits)

lemma fill_signal:
  assumes "needs_read V"
  shows "\<exists>P'. fill P V (Kill # es) = Fill_ret (Ok Cancelled) P' es"
    and "\<exists>P'. fill P V (Sock_err UnexpectedEof # es) = Fill_ret (Ok SysClose) P' es"
  using assms by (simp_all add: fill_def proto_read_buf_def)

lemma read_loop_waiting:
  assumes "read_loop P V evs = Waiting"
  shows "\<exists>P'. read_loop P V (evs @ Kill # es) = Returned (Ok Cancelled) P' es"
    and "\<exists>P'. read_loop P V (evs @ Sock_err UnexpectedEof # es) = Returned (Ok SysClose) P' es"
proof -
  have "(\<exists>P'. read_loop P V (evs @ Kill # es) = Returned (Ok Cancelled) P' es) \<and>
      (\<exists>P'. read_loop P V (evs @ Sock_err UnexpectedEof # es) = Returned (Ok SysClose) P' es)"
    using assms
  proof (induction P V evs rule: read_loop.induct)
    case (1 P V evs)
    show ?case
    proof (cases "fill P V evs")
      case No_input
      then have "evs = []" "needs_read V"
        using fill_No_input by auto
      with fill_signal [of V P es] show ?thesis
        by (auto simp: read_loop.simps [of P V])
    next
      case (Fill_ret r P' evs')
      with 1(2) show ?thesis
        by (simp add: read_loop.simps [of P V evs])
    next
      case (Filled P' V' evs')
      note more = fill_append(1) [OF Filled]
      show ?thesis
      proof (cases "state_step P' V'")
        case (Go P'' V'')
        with 1(1) [OF Filled Go] 1(2) Filled more show ?thesis
          by (simp add: read_loop.simps [of P V])
      next
        case (Ret r P'')
        with 1(2) Filled show ?thesis
          by (simp add: read_loop.simps [of P V evs])
      qed
    qed
  qed
  then show "\<exists>P'. read_loop P V (evs @ Kill # es) = Returned (Ok Cancelled) P' es"
    and "\<exists>P'. read_loop P V (evs @ Sock_err UnexpectedEof # es) = Returned (Ok SysClose) P' es"
    by blast+
qed

text \<open>The capacities and the operation that keep the assertions and the unreachable arm away.\<close>

definition safe :: "proto \<Rightarrow> vars \<Rightarrow> bool" where
  "safe P V \<longleftrightarrow> BUF_SIZE \<le> buf_cap P \<and> BUF_SIZE \<le> residual_cap V \<and> (rstate V = ReadKey \<longrightarrow> rop V \<noteq> Op_Echo)"

lemma fill_safe:
  assumes "safe P V"
  shows "fill P V evs = Filled P' V' evs' \<Longrightarrow> safe P' V'"
    and "fill P V evs = Fill_ret r P' evs' \<Longrightarrow> (\<forall>m. r \<noteq> Panic m) \<and> BUF_SIZE \<le> buf_cap P'"
  using assms
  by (auto simp: safe_def fill_def proto_read_buf_def prepend_residual_def Let_def
      split: if_splits list.splits sock_event.splits option.splits prod.splits result.splits
        proto_read_res.splits flow.splits)

lemma parse_len_not_Panic [simp]: "parse_len w xs \<noteq> Panic m"
  by (simp add: parse_len_def)

lemma step_safe:
  assumes "safe P V"
  shows "state_step P V = Go P' V' \<Longrightarrow> safe P' V'"
    and "state_step P V = Ret r P' \<Longrightarrow> (\<forall>m. r \<noteq> Panic m) \<and> BUF_SIZE \<le> buf_cap P'"
  using assms
  by (cases "rstate V"; auto simp: safe_def state_step.simps step_defs Let_def
      split: if_splits option.splits scan.splits result.splits prod.splits op.splits)+

lemma read_loop_safe:
  "read_loop P V evs = Returned r P' evs' \<Longrightarrow> safe P V \<Longrightarrow> (\<forall>m. r \<noteq> Panic m) \<and> BUF_SIZE \<le> buf_cap P'"
proof (induction P V evs rule: read_loop.induct)
  case (1 P V evs)
  show ?case
  proof (cases "fill P V evs")
    case (Filled P1 V1 evs1)
    note s1 = fill_safe(1) [OF "1.prems"(2) Filled]
    show ?thesis
    proof (cases "state_step P1 V1")
      case (Go P2 V2)
      with 1(1) [OF Filled Go] 1(2) Filled step_safe(1) [OF s1 Go] show ?thesis
        by (simp add: read_loop.simps [of P V evs])
    next
      case (Ret r2 P2)
      with 1(2) Filled step_safe(2) [OF s1 Ret] show ?thesis
        by (simp add: read_loop.simps [of P V evs])
    qed
  next
    case (Fill_ret r1 P1 evs1)
    with 1(2) fill_safe(2) [OF "1.prems"(2) Fill_ret] show ?thesis
      by (simp add: read_loop.simps [of P V evs])
  next
    case No_input
    with 1(2) show ?thesis
      by (simp add: read_loop.simps [of P V evs])
  qed
qed

lemma safe_init: "BUF_SIZE \<le> buf_cap P \<Longrightarrow> safe P (vars_init P)"
  by (simp add: safe_def vars_init_def)

lemma read_n_safe: "BUF_SIZE \<le> buf_cap P \<Longrightarrow> r \<in> set (read_n n P evs) \<Longrightarrow> r \<noteq> Panic m"
proof (induction n P evs rule: read_n.induct)
  case (2 n P evs)
  show ?case
  proof (cases "proto_read P evs")
    case (Returned r' P' evs')
    with 2 read_loop_safe [of P "vars_init P" evs r' P' evs'] safe_init [of P] show ?thesis
      by (auto simp: proto_read_def)
  qed (use 2 in simp)
qed simp

section \<open>A word found after a newline in the buffer\<close>

text \<open>
  When the bytes after the first newline of the buffer start with an operation word, the length
  is read from the start of the buffer again, and nothing is consumed.
\<close>

lemma leftover_word:
  assumes "\<not> fresh P" and "buf P = u @ newline # y" and "newline \<notin> set u" and "4 \<le> length y"
    and "word_of (take 4 y) = Some (q, n)" and "parse (msg_init q) (drop n (buf P)) = Parsed r"
  shows "proto_read P evs = Returned r P evs"
proof -
  let ?V = "vars_init P"
  let ?p = "length u + 1"
  obtain V1 where V1: "step_start P ?V = Go P V1" "rstate V1 = ReadOp" "ptr V1 = ?p" "\<not> needs_read V1"
      "msg_of (V1\<lparr>rstate := ReadKeyLen, rop := q\<rparr>) = msg_init q"
    using assms(1-4) clear_to_newline_Some [of 0 "buf P" u y]
    by (simp add: step_start_def vars_init_def msg_of_def msg_init_def)
  let ?V2 = "V1\<lparr>rop := q, ptr := n, needs_read := False, rstate := ReadKeyLen\<rparr>"
  have n: "n \<le> 4"
    using assms(5) by (auto simp: word_of_def split: if_splits)
  have y: "drop ?p (buf P) = y" "?p + 4 \<le> length (buf P)"
    using assms(2,4) by simp_all
  have V2: "step_read_op P V1 = Go P ?V2"
    using V1(3) y assms(5) by (intro step_read_op_word) simp_all
  have m: "msg_of ?V2 = msg_init q"
    using V1(5) by (simp add: msg_of_def)
  have "rstate ?V = Start" "\<not> needs_read ?V"
    using assms(1) by (simp_all add: vars_init_def)
  then have "proto_read P evs = read_loop P V1 evs"
    using V1(1) by (simp add: proto_read_def read_loop.simps [of P ?V] fill_def state_step.simps)
  also have "\<dots> = read_loop P ?V2 evs"
    using V1 V2 by (simp add: read_loop.simps [of P V1] fill_def state_step.simps)
  also have "\<dots> = Returned r P evs"
    using read_loop_parse [of ?V2 P evs] m msg_init_ok [of q] assms(6) n y(2) by simp
  finally show ?thesis .
qed

lemma read_n_stuck:
  "(\<And>evs. proto_read P evs = Returned r P evs) \<Longrightarrow> read_n n P evs = replicate n r"
  by (induction n arbitrary: evs) simp_all

section \<open>Properties\<close>

text \<open>
  C5: The state machine computes the reference parser, however the bytes are cut into pieces: a
  reader between two requests that receives a first piece of at least four bytes and then any
  further pieces returns the reference parse of all of them put together, and keeps waiting as
  long as the reference parser needs more.
\<close>

theorem read_is_parse:
  assumes "ready P ds" and "4 \<le> length c"
  shows "case parse_request (concat (c # cs)) of
      Parsed r \<Rightarrow> \<exists>P' cs'. proto_read P (map Chunk (ds @ c # cs)) = Returned r P' (map Chunk cs') \<and> suffix cs' cs
    | Need M \<Rightarrow> proto_read P (map Chunk (ds @ c # cs)) = Waiting"
proof (cases "parse_request (concat (c # cs))")
  case (Parsed r)
  with ready_read(1) [OF assms Parsed, of "[]"] show ?thesis
    by (auto simp: suffix_def simp del: concat.simps)
next
  case (Need M)
  with ready_read(2) [OF assms Need] show ?thesis
    by (simp del: concat.simps)
qed

definition ex_new :: proto where
  "ex_new = \<lparr>proto_id = bs ''a'', buf = [], buf_cap = BUF_SIZE, fresh = True\<rparr>"

lemma ex_new_ready [simp]: "ready ex_new []" "fresh ex_new" "BUF_SIZE \<le> buf_cap ex_new"
  by (simp_all add: ready_def ex_new_def)

lemma dec_digit [simp]: "n < 10 \<Longrightarrow> dec n = [digit_byte n]"
  by (simp add: dec.simps [of n])

abbreviation ex_k :: rstring where
  "ex_k \<equiv> [107]"

lemma ex_requests:
  "request (P_Get ex_k)" "request (P_Set ex_k [118, 119])" "body (P_Get ex_k) = bs ''GET:1:k''"
  "body (P_Set ex_k [118, 119]) = bs ''SET:1:k:2:vw''"
  by (simp_all add: between_def digit_byte_def) code_simp+

theorem read_is_parse_witness:
  "ready ex_new [] \<and> 4 \<le> length (bs ''GET:1'') \<and> parse_request (concat [bs ''GET:1'', bs '':k'']) = Parsed (Ok (P_Get ex_k)) \<and>
   (\<exists>P' cs'. proto_read ex_new (map Chunk ([] @ bs ''GET:1'' # [bs '':k''])) = Returned (Ok (P_Get ex_k)) P' (map Chunk cs') \<and>
      suffix cs' [bs '':k''])"
proof -
  have c: "concat [bs ''GET:1'', bs '':k''] = body (P_Get ex_k)"
    unfolding ex_requests by code_simp
  have l: "4 \<le> length (bs ''GET:1'')"
    by code_simp
  have p: "parse_request (concat [bs ''GET:1'', bs '':k'']) = Parsed (Ok (P_Get ex_k))"
    unfolding c using parse_request_body [OF ex_requests(1), of "[]"] by simp
  from read_is_parse [OF ex_new_ready(1) l, of "[bs '':k'']"] l p show ?thesis
    unfolding p by simp
qed

text \<open>
  C12: A session reads back what was sent: when each request of a new connection arrives in its
  own pieces, the first of at least four bytes, and no payload has a newline, then the
  successive reads return exactly the requests, in order.
\<close>

theorem session_in_order:
  assumes "proto_new i = Ok P" and "list_all (\<lambda>(q, cs). delivered q cs) qs"
  shows "read_n (length qs) P (map Chunk (concat (map snd qs))) = map (\<lambda>(q, cs). Ok q) qs"
proof -
  have "ready P []"
    using assms(1) by (auto simp: proto_new_def ready_def)
  from session_reads [OF this assms(2)] show ?thesis by simp
qed

lemma ex_delivered:
  "delivered (P_Set ex_k [118, 119]) [bs ''SET:1'', bs '':k:2:v'', [119, newline]]"
  "delivered (P_Get ex_k) [bs ''GET:1:k'', [newline]]"
proof -
  show "delivered (P_Set ex_k [118, 119]) [bs ''SET:1'', bs '':k:2:v'', [119, newline]]"
    unfolding delivered_def one_line_def wire_def ex_requests(4)
    by (intro conjI ex_requests) code_simp+
  show "delivered (P_Get ex_k) [bs ''GET:1:k'', [newline]]"
    unfolding delivered_def one_line_def wire_def ex_requests(3)
    by (intro conjI ex_requests) code_simp+
qed

theorem session_in_order_witness:
  "\<exists>P. proto_new (bs ''a'') = Ok P \<and>
     read_n 2 P (map Chunk [bs ''SET:1'', bs '':k:2:v'', [119, newline], bs ''GET:1:k'', [newline]]) =
       [Ok (P_Set ex_k [118, 119]), Ok (P_Get ex_k)]"
proof -
  have new: "proto_new (bs ''a'') = Ok ex_new"
    by (simp add: proto_new_def ex_new_def)
  let ?qs = "[(P_Set ex_k [118, 119], [bs ''SET:1'', bs '':k:2:v'', [119, newline]]), (P_Get ex_k, [bs ''GET:1:k'', [newline]])]"
  have "list_all (\<lambda>(q, cs). delivered q cs) ?qs"
    using ex_delivered by simp
  from session_in_order [OF new this] new show ?thesis
    by (simp add: numeral_2_eq_2 del: read_n.simps)
qed

text \<open>
  C24: Reading never panics: whatever the socket delivers, on a connection made by
  \<^verbatim>\<open>Proto::new\<close> no read fails the assertions on the capacities or reaches the arm marked
  unreachable.
\<close>

theorem read_never_panics:
  assumes "proto_new i = Ok P"
  shows "\<nexists>m. Panic m \<in> set (read_n n P evs)"
proof -
  have "BUF_SIZE \<le> buf_cap P"
    using assms by (auto simp: proto_new_def)
  then show ?thesis
    using read_n_safe by blast
qed

theorem read_never_panics_witness:
  "\<nexists>m. Panic m \<in> set (read_n 3 ex_new [Chunk (bs ''GET:x''), Kill])"
  by (rule read_never_panics [of "bs ''a''"]) (simp add: proto_new_def ex_new_def)

text \<open>
  C25: A read that waits for the socket always answers a shutdown or a lost connection: after
  any deliveries that leave it waiting, the shutdown broadcast makes it return
  \<^verbatim>\<open>Cancelled\<close>, and an unexpected end of the stream makes it return \<^verbatim>\<open>SysClose\<close>.
\<close>

theorem waiting_read_stops:
  assumes "proto_read P evs = Waiting"
  shows "(\<exists>P'. proto_read P (evs @ Kill # es) = Returned (Ok Cancelled) P' es) \<and>
    (\<exists>P'. proto_read P (evs @ Sock_err UnexpectedEof # es) = Returned (Ok SysClose) P' es)"
  using read_loop_waiting [of P "vars_init P" evs es] assms by (simp add: proto_read_def)

lemma ex_waiting: "proto_read ex_new [] = Waiting"
  unfolding proto_read_def by (subst read_loop.simps) (simp add: fill_def vars_init_def proto_read_buf_def)

theorem waiting_read_stops_witness:
  "proto_read ex_new [] = Waiting \<and>
   (\<exists>P'. proto_read ex_new ([] @ Kill # []) = Returned (Ok Cancelled) P' []) \<and>
   (\<exists>P'. proto_read ex_new ([] @ Sock_err UnexpectedEof # []) = Returned (Ok SysClose) P' [])"
  using waiting_read_stops [OF ex_waiting, of "[]"] ex_waiting by blast

text \<open>
  A request whose first piece is shorter than four bytes is refused, although the rest of
  it may be on its way; the empty piece read at the end of the stream between two requests is
  one of these, so an orderly close is reported as an error and not as \<^verbatim>\<open>SysClose\<close>.
\<close>

theorem short_first_piece_refused:
  assumes "ready P ds" and "length c < 4"
  shows "\<exists>P'. proto_read P (map Chunk ds @ Chunk c # evs) =
    Returned (Err (Err_E (bs ''error reading start of operation, buffer-len '' @ dec (length c) @
      bs '' shorter than expected''))) P' evs"
proof -
  let ?V = "(vars_init P)\<lparr>rstate := ReadOp, ptr := 0, needs_read := False\<rparr>"
  obtain P' where P': "proto_read P (map Chunk ds @ Chunk c # evs) = read_loop P' ?V evs" "buf P' = c"
    using ready_start [OF assms(1), of c evs] by blast
  then show ?thesis
    using assms(2) by (simp add: read_loop.simps [of P' ?V] fill_def state_step.simps step_read_op_def)
qed

theorem short_first_piece_refused_witness:
  "ready ex_new [] \<and> length ([] :: bytes) < 4 \<and>
   (\<exists>P'. proto_read ex_new (map Chunk [] @ Chunk [] # [Chunk (bs ''GET:1:k'')]) =
     Returned (Err (Err_E (bs ''error reading start of operation, buffer-len '' @ dec 0 @
       bs '' shorter than expected''))) P' [Chunk (bs ''GET:1:k'')])"
  using short_first_piece_refused [OF ex_new_ready(1), of "[]" "[Chunk (bs ''GET:1:k'')]"] by simp

text \<open>
  C31: When the stream ends inside a request the read never returns: each further read yields no
  bytes at once, and after any number of them the call is still in its loop.
\<close>

theorem eof_inside_request_spins:
  assumes "ready P ds" and "4 \<le> length c" and "parse_request (concat (c # cs)) = Need M"
  shows "proto_read P (map Chunk (ds @ c # cs) @ replicate n (Chunk [])) = Waiting"
proof -
  have "concat (c # cs @ replicate n []) = concat (c # cs)"
    by simp
  then have "parse_request (concat (c # cs @ replicate n [])) = Need M"
    using assms(3) by simp
  from ready_read(2) [OF assms(1,2) this] show ?thesis
    by (simp add: map_replicate)
qed

theorem eof_inside_request_spins_witness:
  "\<exists>M. parse_request (concat [bs ''GET:'']) = Need M \<and>
     proto_read ex_new (map Chunk ([] @ bs ''GET:'' # []) @ replicate 5 (Chunk [])) = Waiting"
proof -
  have l: "4 \<le> length (bs ''GET:'')"
    by code_simp
  obtain M where M: "parse_request (concat [bs ''GET:'']) = Need M"
    by (simp add: parse_request_def words parse.simps phase_def msg_init_def)
  from eof_inside_request_spins [OF ex_new_ready(1) l M, of 5] M show ?thesis by blast
qed

text \<open>
  C29: Two requests with the same operation word that arrive in one piece are not read one after
  the other: the second read finds the word of the second request but then reads on at a fixed
  index of the buffer, inside the first one.  It returns the first request again, consumes
  nothing, and so does every read after it; the second request is never seen.
\<close>

theorem pipelined_request_repeats:
  assumes "ready P ds" and "request q" and "one_line q" and "request q'" and "op_of q' = op_of q"
  shows "read_n n P (map Chunk ds @ [Chunk (wire q @ wire q')]) = replicate n (Ok q)"
proof (cases n)
  case (Suc m)
  let ?c = "wire q @ wire q'"
  obtain o1 k where o: "op_of q = (o1, k)" by fastforce
  have c: "?c = body q @ newline # wire q'" "4 \<le> length ?c"
    using body_length [OF assms(2)] by (simp_all add: wire_def)
  have p: "parse_request ?c = Parsed (Ok q)"
    unfolding c(1) by (rule parse_request_body [OF assms(2)])
  obtain P' where P': "proto_read P (map Chunk (ds @ [?c])) = Returned (Ok q) P' []" "buf P' = ?c" "\<not> fresh P'"
    using ready_read(1) [OF assms(1) c(2), of "[]" "Ok q" "[]"] p by auto
  have w: "word_of (take 4 (wire q')) = Some (o1, k)"
    using word_of_body [OF assms(4), of "[newline]"] assms(5) o by (simp add: wire_def)
  have w1: "word_of (take 4 ?c) = Some (o1, k)"
    using word_of_body [OF assms(2), of "newline # wire q'"] o unfolding c(1) by simp
  have "proto_read P' evs = Returned (Ok q) P' evs" for evs
    using assms(3) body_length [OF assms(4)] P' w parse_request_word [OF w1] p
    by (intro leftover_word [of P' "body q" "wire q'" o1 k]) (simp_all add: c(1) one_line_def, simp add: wire_def)
  from read_n_stuck [OF this, of m "[]"] P' Suc show ?thesis
    by simp
qed simp

theorem pipelined_request_repeats_witness:
  "read_n 4 ex_new (map Chunk [] @ [Chunk (wire (P_Get ex_k) @ wire (P_Get [108]))]) = replicate 4 (Ok (P_Get ex_k))"
proof -
  have "one_line (P_Get ex_k)"
    unfolding one_line_def ex_requests by code_simp
  moreover have "request (P_Get [108])"
    by (simp add: between_def)
  ultimately show ?thesis
    by (intro pipelined_request_repeats ex_requests) simp_all
qed



end
