(* ===== verification/Connection.thy ===== *)
theory Connection
  imports LSM_Contract Proto_Read Utils
begin

text \<open>
  \<^verbatim>\<open>src/server/client.rs\<close>: a client connection.  \<^verbatim>\<open>Connection::handle\<close> reads one request
  after the other, calls the store and writes the reply.  The store is any that satisfies the
  contract of \<open>kv_store\<close>; the connections of a server share it, and their turns are interleaved
  with each other and with the work the store does in the background.  The replies are those of
  one sequential map, in the order of the turns.
\<close>

section \<open>A connection\<close>

record conn =
  cproto :: proto
  cin :: "sock_event list"
  cout :: wsock

text \<open>What one turn of the loop of \<^verbatim>\<open>handle\<close> comes to.\<close>

datatype turn = Continue conn | Exit "unit result" conn

definition reply :: "(proto \<Rightarrow> (wsock, unit) action) \<Rightarrow> conn \<Rightarrow> turn" where
  "reply w c =
     (case sbind (w (cproto c)) (\<lambda>_. proto_flush (cproto c)) (cout c) of
        (Ok _, w') \<Rightarrow> Continue (c\<lparr>cout := w'\<rparr>)
      | (Err e, w') \<Rightarrow> Exit (Err e) (c\<lparr>cout := w'\<rparr>)
      | (Panic p, w') \<Rightarrow> Exit (Panic p) (c\<lparr>cout := w'\<rparr>))"

text \<open>The arms of the match on the request; the identifier is the one drawn for a transaction.\<close>

definition handle_op ::
    "(rstring \<Rightarrow> ('s, bytes option) action) \<Rightarrow> (transaction \<Rightarrow> ('s, unit) action) \<Rightarrow> uuid \<Rightarrow>
     proto_op \<Rightarrow> conn \<Rightarrow> 's \<Rightarrow> turn \<times> 's" where
  "handle_op get transact i oper c s =
     (case oper of
        SysClose \<Rightarrow> (Exit (Ok ()) c, s)
      | Cancelled \<Rightarrow> (Exit (Ok ()) c, s)
      | P_Echo msg \<Rightarrow> (reply (\<lambda>P. write_echo P msg) c, s)
      | P_Get k \<Rightarrow>
          (case get k s of
             (Ok (Some val), s') \<Rightarrow> (reply (\<lambda>P. write_get_result P val) c, s')
           | (Ok None, s') \<Rightarrow> (reply write_null c, s')
           | (Err e, s') \<Rightarrow> (Exit (Panic ''called `Result::unwrap()` on an `Err` value'') c, s')
           | (Panic p, s') \<Rightarrow> (Exit (Panic p) c, s'))
      | P_Set k v \<Rightarrow>
          (case transact (with_random_id i [operation_set k v]) s of
             (Panic p, s') \<Rightarrow> (Exit (Panic p) c, s')
           | (_, s') \<Rightarrow> (reply (\<lambda>P. write_set_result P v) c, s')))"

text \<open>
  The loop: at most \<open>n\<close> turns, the identifiers drawn being those of \<open>ids\<close>.  No result means that
  the connection is still open, waiting for the socket or having more turns to do.
\<close>

fun handle_loop ::
    "(rstring \<Rightarrow> ('s, bytes option) action) \<Rightarrow> (transaction \<Rightarrow> ('s, unit) action) \<Rightarrow> (nat \<Rightarrow> uuid) \<Rightarrow>
     nat \<Rightarrow> conn \<Rightarrow> 's \<Rightarrow> (unit result option \<times> conn) \<times> 's" where
  "handle_loop get transact ids 0 c s = ((None, c), s)"
| "handle_loop get transact ids (Suc n) c s =
     (case proto_read (cproto c) (cin c) of
        Waiting \<Rightarrow> ((None, c), s)
      | Returned (Err e) P evs \<Rightarrow> ((Some (Err e), c\<lparr>cproto := P, cin := evs\<rparr>), s)
      | Returned (Panic p) P evs \<Rightarrow> ((Some (Panic p), c\<lparr>cproto := P, cin := evs\<rparr>), s)
      | Returned (Ok oper) P evs \<Rightarrow>
          (case handle_op get transact (ids n) oper (c\<lparr>cproto := P, cin := evs\<rparr>) s of
             (Continue c', s') \<Rightarrow> handle_loop get transact ids n c' s'
           | (Exit r c', s') \<Rightarrow> ((Some r, c'), s')))"

text \<open>
  \<^verbatim>\<open>Connection::handle\<close>: the TLS handshake, whose result is an argument, then the protocol
  reader and the loop.
\<close>

definition handle ::
    "(rstring \<Rightarrow> ('s, bytes option) action) \<Rightarrow> (transaction \<Rightarrow> ('s, unit) action) \<Rightarrow> (nat \<Rightarrow> uuid) \<Rightarrow>
     bool \<Rightarrow> rstring \<Rightarrow> nat \<Rightarrow> sock_event list \<Rightarrow> wsock \<Rightarrow> 's \<Rightarrow> (unit result option \<times> wsock) \<times> 's" where
  "handle get transact ids accepted i n evs w s =
     (if \<not> accepted then ((Some (Err (Err_E (bs ''session='' @ i @ bs '' error accepting stream''))), w), s)
      else (case proto_new i of
              Ok P \<Rightarrow>
                (case handle_loop get transact ids n \<lparr>cproto = P, cin = evs, cout = w\<rparr> s of
                   ((r, c), s') \<Rightarrow> ((r, cout c), s'))
            | Err e \<Rightarrow> ((Some (Err e), w), s)
            | Panic p \<Rightarrow> ((Some (Panic p), w), s)))"

text \<open>
  \<^verbatim>\<open>handle_conn\<close>: the task spawned for the result of an accept.  It draws the identifier of the
  session, gives up when the accept failed, and else handles the connection.
\<close>

definition handle_conn ::
    "(rstring \<Rightarrow> ('s, bytes option) action) \<Rightarrow> (transaction \<Rightarrow> ('s, unit) action) \<Rightarrow> (nat \<Rightarrow> uuid) \<Rightarrow>
     bool \<Rightarrow> bool \<Rightarrow> uuid \<Rightarrow> nat \<Rightarrow> sock_event list \<Rightarrow> wsock \<Rightarrow> 's \<Rightarrow> (unit result option \<times> wsock) \<times> 's" where
  "handle_conn get transact ids accepted handshake u n evs w s =
     (let i = session_id u
      in if \<not> accepted then ((Some (Err (Err_E (bs ''session='' @ i @ bs '' error accepting tls''))), w), s)
         else handle get transact ids handshake i n evs w s)"

section \<open>What a client is told\<close>

text \<open>The reply a map gives to a request, and what the request does to the map.\<close>

definition frame :: "bytes \<Rightarrow> bytes" where
  "frame d = dec (length d) @ [colon] @ d @ [newline]"

fun answer :: "view \<Rightarrow> proto_op \<Rightarrow> bytes" where
  "answer m (P_Get k) = (case m k of None \<Rightarrow> bs ''null'' @ [newline] | Some v \<Rightarrow> frame v)"
| "answer m (P_Set k v) = frame (dec (length v))"
| "answer m (P_Echo d) = frame d"
| "answer m SysClose = []"
| "answer m Cancelled = []"

fun effect :: "proto_op \<Rightarrow> view \<Rightarrow> view" where
  "effect (P_Set k v) m = m(k \<mapsto> v)"
| "effect (P_Get k) m = m"
| "effect (P_Echo d) m = m"
| "effect SysClose m = m"
| "effect Cancelled m = m"

fun answers :: "view \<Rightarrow> proto_op list \<Rightarrow> bytes" where
  "answers m [] = []"
| "answers m (q # qs) = answer m q @ answers (effect q m) qs"

text \<open>Requests whose transactions the store accepts.\<close>

fun storable :: "(transaction \<Rightarrow> bool) \<Rightarrow> proto_op \<Rightarrow> bool" where
  "storable ok (P_Set k v) \<longleftrightarrow> (\<forall>i. ok (with_random_id i [operation_set k v]))"
| "storable ok _ \<longleftrightarrow> True"

lemmas write_defs = write_null_def [abs_def] write_echo_def write_get_result_def write_set_result_def proto_flush_def

text \<open>A reply that is sent leaves the reader and the unread input alone.\<close>

lemma reply_Continue:
  assumes "reply (\<lambda>P. write_stream_buf (proto_id P) b) c = Continue c'"
  shows "wout (cout c') = wout (cout c) @ b" and "wflushed (cout c') = wout (cout c')"
    and "cproto c' = cproto c" and "cin c' = cin c"
  using assms
  by (auto simp: reply_def sbind_def proto_flush_def write_stream_buf_def flush_stream_def
      sock_write_def sock_flush_def
      split: prod.splits result.splits list.splits option.splits)

lemma reply_ok:
  "wsched (cout c) = [] \<Longrightarrow> \<exists>c'. reply (\<lambda>P. write_stream_buf (proto_id P) b) c = Continue c' \<and> wsched (cout c') = []"
  by (simp add: reply_def sbind_def proto_flush_def write_stream_buf_def flush_stream_def sock_ok)

text \<open>The two ways a turn with a well-behaved store can end.\<close>

context kv_store
begin

lemma handle_op_cases:
  assumes "inv s" and "storable ok_tx q"
  shows "\<exists>s'. inv s' \<and> view s' = effect q (view s) \<and>
     handle_op get transact i q c s =
       (if q = SysClose \<or> q = Cancelled then Exit (Ok ()) c
        else reply (\<lambda>P. write_stream_buf (proto_id P) (answer (view s) q)) c, s')"
proof (cases q)
  case (P_Get k)
  then show ?thesis
    using assms(1) get_law [OF assms(1), of k]
    by (cases "view s k") (auto simp: handle_op_def write_defs frame_def Let_def)
next
  case (P_Set k v)
  with assms(2) have "ok_tx (with_random_id i [operation_set k v])"
    by simp
  with transact_law [OF assms(1)] obtain s' where
    "transact (with_random_id i [operation_set k v]) s = (Ok (), s')" "inv s'"
    "view s' = apply_ops (operations (with_random_id i [operation_set k v])) (view s)"
    by blast
  with P_Set show ?thesis
    by (auto simp: handle_op_def write_defs frame_def Let_def with_random_id_def operation_set_def apply_ops_def)
qed (use assms(1) in \<open>auto simp: handle_op_def write_defs frame_def Let_def\<close>)

end

section \<open>One client\<close>

definition conn_ready :: "conn \<Rightarrow> bytes list \<Rightarrow> bool" where
  "conn_ready c ds \<longleftrightarrow> ready (cproto c) ds \<and> wsched (cout c) = [] \<and> wflushed (cout c) = wout (cout c)"

context kv_store
begin

lemma client_turns:
  "inv s \<Longrightarrow> conn_ready c ds \<Longrightarrow> cin c = map Chunk (ds @ concat (map snd qs)) \<Longrightarrow>
   list_all (\<lambda>(q, cs). delivered q cs \<and> storable ok_tx q) qs \<Longrightarrow>
   \<exists>c' s' ds'. handle_loop get transact ids (length qs) c s = ((None, c'), s') \<and>
     wout (cout c') = wout (cout c) @ answers (view s) (map fst qs) \<and>
     inv s' \<and> view s' = fold effect (map fst qs) (view s) \<and> conn_ready c' ds' \<and> cin c' = map Chunk ds'"
proof (induction qs arbitrary: c s ds)
  case Nil
  then show ?case by auto
next
  case (Cons qc qs)
  obtain q cs where qc: "qc = (q, cs)" by fastforce
  let ?rest = "map Chunk (concat (map snd qs))"
  have q: "delivered q cs" "storable ok_tx q" "q \<noteq> SysClose" "q \<noteq> Cancelled"
    using Cons.prems(4) qc by (auto simp: delivered_def)
  obtain P ds1 where P: "proto_read (cproto c) (cin c) = Returned (Ok q) P (map Chunk ds1 @ ?rest)" "ready P ds1"
    using delivered_read [of "cproto c" ds q cs ?rest] Cons.prems(2,3) q(1) qc
    by (auto simp: conn_ready_def)
  let ?c = "c\<lparr>cproto := P, cin := map Chunk ds1 @ ?rest\<rparr>"
  let ?w = "\<lambda>P. write_stream_buf (proto_id P) (answer (view s) q)"
  obtain c1 where c1: "reply ?w ?c = Continue c1" "wsched (cout c1) = []"
    using reply_ok [of ?c] Cons.prems(2) by (auto simp: conn_ready_def)
  note sent = reply_Continue [OF c1(1)]
  obtain s1 where s1: "inv s1" "view s1 = effect q (view s)"
      "handle_op get transact (ids (length qs)) q ?c s = (Continue c1, s1)"
    using handle_op_cases [OF Cons.prems(1) q(2), of "ids (length qs)" ?c] q(3,4) c1(1) by auto
  have step: "handle_loop get transact ids (length (qc # qs)) c s = handle_loop get transact ids (length qs) c1 s1"
    using P(1) s1(3) by simp
  have "conn_ready c1 ds1" "cin c1 = map Chunk (ds1 @ concat (map snd qs))"
      "list_all (\<lambda>(q, cs). delivered q cs \<and> storable ok_tx q) qs"
    using sent c1(2) P(2) Cons.prems(4) by (simp_all add: conn_ready_def)
  from Cons.IH [OF s1(1) this] obtain c' s' ds' where
    "handle_loop get transact ids (length qs) c1 s1 = ((None, c'), s')"
    "wout (cout c') = wout (cout c1) @ answers (view s1) (map fst qs)"
    "inv s'" "view s' = fold effect (map fst qs) (view s1)" "conn_ready c' ds'" "cin c' = map Chunk ds'"
    by blast
  with step sent s1(2) qc show ?case
    by (intro exI [of _ c'] exI [of _ s'] exI [of _ ds']) simp
qed

end

section \<open>Properties\<close>

definition new_wsock :: wsock where
  "new_wsock = \<lparr>wout = [], wflushed = [], wsched = []\<rparr>"

text \<open>
  C8: A client of the LSM store, from the bytes it sends to the bytes it receives: when its
  requests arrive each in their own pieces (the first of at least four bytes, no newline in a
  payload), the connection answers every one of them, in order, with what a map from keys to
  values answers, everything is flushed to the client, and the contents of the store afterwards
  are those of the map.
\<close>

theorem lsm_client_session:
  assumes "lsm_plain E s" and "list_all (\<lambda>(q, cs). delivered q cs \<and> storable (plain_tx E) q) qs"
  shows "\<exists>w s'. handle_conn (lsm_get E) (lsm_transact E) ids True True u (length qs) (map Chunk (concat (map snd qs))) new_wsock s =
       ((None, w), s') \<and>
     wflushed w = answers (lsm_view E s) (map fst qs) \<and>
     lsm_plain E s' \<and> lsm_view E s' = fold effect (map fst qs) (lsm_view E s)"
proof -
  obtain P where P: "proto_new (session_id u) = Ok P" "fresh P"
    by (simp add: proto_new_def)
  let ?c = "\<lparr>cproto = P, cin = map Chunk (concat (map snd qs)), cout = new_wsock\<rparr>"
  have c: "conn_ready ?c []" "cin ?c = map Chunk ([] @ concat (map snd qs))"
    using P(2) by (simp_all add: conn_ready_def ready_def new_wsock_def)
  from lsm_kv.client_turns [OF assms(1) c assms(2), of ids] obtain c' s' ds' where
    "handle_loop (lsm_get E) (lsm_transact E) ids (length qs) ?c s = ((None, c'), s')"
    "wout (cout c') = wout (cout ?c) @ answers (lsm_view E s) (map fst qs)" "lsm_plain E s'"
    "lsm_view E s' = fold effect (map fst qs) (lsm_view E s)" "conn_ready c' ds'"
    by blast
  with P(1) show ?thesis
    by (simp add: handle_conn_def handle_def conn_ready_def new_wsock_def)
qed

abbreviation ex_set_foo :: proto_op where
  "ex_set_foo \<equiv> P_Set (bs ''foo'') (bs ''bar'')"

lemma ex_set_storable: "storable (plain_tx ex_lsm) ex_set_foo"
  using ex_set_plain by (simp add: ex_set_def)

lemma ex_foo_bar: "utf8_valid (bs ''foo'')" "newline \<notin> set (bs ''foo'')" "newline \<notin> set (bs ''bar'')"
  by code_simp+

lemma ex_foo_delivered:
  "delivered ex_set_foo [take 7 (wire ex_set_foo), drop 7 (wire ex_set_foo)]"
  "delivered (P_Get (bs ''foo'')) [wire (P_Get (bs ''foo''))]"
  using ex_foo_bar
  by (simp_all add: delivered_def one_line_def wire_def words digit_byte_def)

lemma ex_answers:
  "answers Map.empty [ex_set_foo, P_Get (bs ''foo'')] = bs ''1:3'' @ newline # bs ''3:bar'' @ [newline]"
  by (simp add: frame_def digit_byte_def) code_simp

theorem lsm_client_session_witness:
  "\<exists>w s'. handle_conn (lsm_get ex_lsm) (lsm_transact ex_lsm) (\<lambda>n. of_nat n) True True 7 2
       (map Chunk [take 7 (wire ex_set_foo), drop 7 (wire ex_set_foo), wire (P_Get (bs ''foo''))]) new_wsock ex_store =
       ((None, w), s') \<and>
     wflushed w = bs ''1:3'' @ newline # bs ''3:bar'' @ [newline]"
proof -
  let ?qs = "[(ex_set_foo, [take 7 (wire ex_set_foo), drop 7 (wire ex_set_foo)]),
    (P_Get (bs ''foo''), [wire (P_Get (bs ''foo''))])]"
  have qs: "list_all (\<lambda>(q, cs). delivered q cs \<and> storable (plain_tx ex_lsm) q) ?qs"
    using ex_foo_delivered ex_set_storable by simp
  have len: "length ?qs = 2" "concat (map snd ?qs) =
      [take 7 (wire ex_set_foo), drop 7 (wire ex_set_foo), wire (P_Get (bs ''foo''))]"
      "map fst ?qs = [ex_set_foo, P_Get (bs ''foo'')]"
    by (simp_all del: body.simps)
  from lsm_client_session [OF ex_store_plain(1) qs, of "\<lambda>n. of_nat n" 7] show ?thesis
    unfolding len ex_store_plain(2) ex_answers by blast
qed

lemma lsm_transact_Err: "lsm_transact E tx s = (Err e, s') \<Longrightarrow> memtable s' = memtable s"
  by (auto simp: lsm_transact_def do_transact_def begin_transaction_def on_log_def sbind_def
      split: prod.splits result.splits)

text \<open>
  C32: A set is acknowledged although it failed: when the transaction returns an error, say
  because the disk is full, the connection still writes and flushes the reply of a successful
  set and goes on; the value is not in the memtable.
\<close>

theorem failed_set_acknowledged:
  assumes "lsm_transact E (with_random_id i [operation_set k v]) s = (Err e, s')" and "wsched (cout c) = []"
  shows "\<exists>c'. handle_op (lsm_get E) (lsm_transact E) i (P_Set k v) c s = (Continue c', s') \<and>
     wflushed (cout c') = wout (cout c) @ answer (lsm_view E s) (P_Set k v) \<and> memtable s' = memtable s"
proof -
  obtain c' where c': "reply (\<lambda>P. write_stream_buf (proto_id P) (frame (dec (length v)))) c = Continue c'"
    using reply_ok [OF assms(2)] by blast
  have "handle_op (lsm_get E) (lsm_transact E) i (P_Set k v) c s = (Continue c', s')"
    using assms(1) c' by (simp add: handle_op_def write_defs frame_def Let_def)
  with reply_Continue [OF c'] lsm_transact_Err [OF assms(1)] show ?thesis
    by simp
qed

definition ex_conn :: conn where
  "ex_conn = \<lparr>cproto = ex_new, cin = [], cout = new_wsock\<rparr>"

theorem failed_set_acknowledged_witness:
  "\<exists>c' s'. handle_op (lsm_get ex_lsm) (lsm_transact ex_lsm) 1 ex_set_foo ex_conn ex_faulty = (Continue c', s') \<and>
     wflushed (cout c') = bs ''1:3'' @ [newline] \<and> memtable s' = []"
proof -
  obtain s' where t: "lsm_transact ex_lsm (with_random_id 1 [operation_set (bs ''foo'') (bs ''bar'')]) ex_faulty =
      (Err (Err_IO OtherIO), s')"
    using ex_faulty_fails by (auto simp: ex_set_def)
  have "wsched (cout ex_conn) = []" "wout (cout ex_conn) = []" "memtable ex_faulty = []"
    by (simp_all add: ex_conn_def new_wsock_def ex_faulty_def ex_store_def lsm_new_def)
  moreover have "frame (dec (length (bs ''bar''))) = bs ''1:3'' @ [newline]"
    by (simp add: frame_def digit_byte_def) code_simp
  ultimately show ?thesis
    using failed_set_acknowledged [OF t, of ex_conn] by auto
qed

end
