(* ===== verification/Config.thy ===== *)
theory Config
  imports Kave_Prelude
begin

text \<open>
  \<^verbatim>\<open>src/config.rs\<close>: the configuration read from the environment.  The environment is a partial
  map from names to texts (a variable that is unset or not Unicode has no entry, as
  \<^verbatim>\<open>std::env::var(k).ok()\<close> has it) and the directory for temporary files is an argument.
\<close>

section \<open>Text functions of the standard library\<close>

text \<open>\<^verbatim>\<open>str::split\<close> at a one-byte separator: always at least one part.\<close>

fun split_on :: "u8 \<Rightarrow> rstring \<Rightarrow> rstring list" where
  "split_on sep [] = [[]]"
| "split_on sep (x # xs) =
     (if x = sep then [] # split_on sep xs
      else (case split_on sep xs of p # ps \<Rightarrow> (x # p) # ps | [] \<Rightarrow> [[x]]))"

text \<open>
  \<^verbatim>\<open>str::trim\<close>: the characters with the Unicode property White_Space, in UTF-8: the ASCII
  ones, U+0085, U+00A0, U+1680, U+2000 to U+200A, U+2028, U+2029, U+202F, U+205F and U+3000.
\<close>

definition ascii_space :: "u8 \<Rightarrow> bool" where
  "ascii_space b \<longleftrightarrow> between 9 b 13 \<or> b = 32"

definition wide_space :: "u8 \<Rightarrow> u8 \<Rightarrow> u8 \<Rightarrow> bool" where
  "wide_space a b c \<longleftrightarrow>
     a = 225 \<and> b = 154 \<and> c = 128 \<or>
     a = 226 \<and> b = 128 \<and> (between 128 c 138 \<or> c = 168 \<or> c = 169 \<or> c = 175) \<or>
     a = 226 \<and> b = 129 \<and> c = 159 \<or> a = 227 \<and> b = 128 \<and> c = 128"

fun trim_start :: "rstring \<Rightarrow> rstring" where
  "trim_start [] = []"
| "trim_start [a] = (if ascii_space a then [] else [a])"
| "trim_start [a, b] =
     (if ascii_space a then trim_start [b] else if a = 194 \<and> (b = 133 \<or> b = 160) then [] else [a, b])"
| "trim_start (a # b # c # r) =
     (if ascii_space a then trim_start (b # c # r)
      else if a = 194 \<and> (b = 133 \<or> b = 160) then trim_start (c # r)
      else if wide_space a b c then trim_start r
      else a # b # c # r)"

text \<open>The same from the end, on the reversed text.\<close>

fun trim_rev :: "rstring \<Rightarrow> rstring" where
  "trim_rev [] = []"
| "trim_rev [a] = (if ascii_space a then [] else [a])"
| "trim_rev [b, a] =
     (if ascii_space b then trim_rev [a] else if a = 194 \<and> (b = 133 \<or> b = 160) then [] else [b, a])"
| "trim_rev (c # b # a # r) =
     (if ascii_space c then trim_rev (b # a # r)
      else if b = 194 \<and> (c = 133 \<or> c = 160) then trim_rev (a # r)
      else if wide_space a b c then trim_rev r
      else c # b # a # r)"

definition trim :: "rstring \<Rightarrow> rstring" where
  "trim s = rev (trim_rev (rev (trim_start s)))"

text \<open>
  \<^verbatim>\<open>str::to_lowercase\<close> on the ASCII letters.  The only other character with an ASCII lowercase
  is the Kelvin sign, whose lowercase is k, a letter none of the accepted words has; so for
  deciding whether a text is one of these words the other characters need no translation.
\<close>

definition ascii_lower :: "u8 \<Rightarrow> u8" where
  "ascii_lower b = (if between 65 b 90 then b + 32 else b)"

definition to_lowercase :: "rstring \<Rightarrow> rstring" where
  "to_lowercase s = map ascii_lower s"

text \<open>\<^verbatim>\<open>str::parse::<u16>\<close>: as for \<^verbatim>\<open>usize\<close>, with the smaller range.\<close>

definition parse_u16 :: "bytes \<Rightarrow> nat result" where
  "parse_u16 s = rbind (parse_usize s) (\<lambda>n. if n < 2 ^ 16 then Ok n else Err Err_ParseInt)"

text \<open>\<^verbatim>\<open>Result::expect\<close>.\<close>

definition expect :: "string \<Rightarrow> 'a result \<Rightarrow> 'a result" where
  "expect m r = (case r of Ok a \<Rightarrow> Ok a | Err e \<Rightarrow> Panic m | Panic p \<Rightarrow> Panic p)"

text \<open>\<^verbatim>\<open>PathBuf::from\<close>: the components between the slashes.\<close>

definition path_of :: "rstring \<Rightarrow> path" where
  "path_of s = split_on 47 s"

section \<open>The configuration\<close>

type_synonym env = "rstring \<rightharpoonup> rstring"

definition get_env :: "env \<Rightarrow> string \<Rightarrow> rstring option" where
  "get_env E k = E (bs k)"

definition env_or :: "env \<Rightarrow> string \<Rightarrow> string \<Rightarrow> rstring" where
  "env_or E k d = (case get_env E k of Some v \<Rightarrow> v | None \<Rightarrow> bs d)"

datatype log_format = Pretty | Json

definition log_format_from_str :: "rstring \<Rightarrow> log_format result" where
  "log_format_from_str s =
     (let t = to_lowercase (trim s)
      in if t = [] \<or> t = bs ''json'' then Ok Json
         else if t = bs ''pretty'' then Ok Pretty
         else Err (Err_E (bs ''invalid LOG_FORMAT: '' @ t @ bs '', expected one of (pretty|json)'')))"

record config =
  client_host :: rstring
  client_port :: nat
  cluster_host :: rstring
  cluster_port :: nat
  seed_peers :: "rstring list"
  cert_path :: rstring
  key_path :: rstring
  log_level :: rstring
  cfg_log_format :: log_format
  encryption_key :: rstring
  signing_key :: rstring
  cfg_data_dir :: path
  commit_log_path :: path
  memtable_max_mb :: nat

definition load :: "path \<Rightarrow> env \<Rightarrow> config result" where
  "load temp_dir E =
     rbind (expect ''invalid port'' (parse_u16 (env_or E ''CLIENT_PORT'' ''7719''))) (\<lambda>cl_port.
     rbind (expect ''invalid port'' (parse_u16 (env_or E ''CLUSTER_PORT'' ''7720''))) (\<lambda>cu_port.
     rbind (expect ''invalid LOG_FORMAT'' (log_format_from_str (env_or E ''LOG_FORMAT'' ''pretty''))) (\<lambda>fmt.
     rbind (expect ''Not a number'' (parse_usize (env_or E ''MEMTABLE_MAX_MB'' ''256''))) (\<lambda>mb.
       Ok \<lparr>client_host = env_or E ''CLIENT_HOST'' ''0.0.0.0'',
           client_port = cl_port,
           cluster_host = env_or E ''CLUSTER_HOST'' ''0.0.0.0'',
           cluster_port = cu_port,
           seed_peers = split_on 44 (trim (env_or E ''SEED_PEERS'' '''')),
           cert_path = env_or E ''CERT_PATH'' ''certs/cert.pem'',
           key_path = env_or E ''KEY_PATH'' ''certs/key.pem'',
           log_level = env_or E ''LOG_LEVEL'' ''info'',
           cfg_log_format = fmt,
           encryption_key = env_or E ''ENCRYPTION_KEY'' ''01234567890123456789012345678901'',
           signing_key = env_or E ''SIGNING_KEY'' ''01234567890123456789012345678901'',
           cfg_data_dir = (case get_env E ''DATA_DIR'' of Some d \<Rightarrow> path_of d | None \<Rightarrow> temp_dir),
           commit_log_path =
             (case get_env E ''COMMIT_LOG_PATH'' of
                Some p \<Rightarrow> path_of p | None \<Rightarrow> temp_dir @ [bs ''commit_log'']),
           memtable_max_mb = mb\<rparr>))))"

text \<open>
  \<^verbatim>\<open>get_config\<close> of \<^verbatim>\<open>src/lib.rs\<close>: the configuration is loaded on the first call and kept; later
  calls return what was kept, whatever the environment is by then.
\<close>

definition get_config :: "path \<Rightarrow> env \<Rightarrow> (config option, config) action" where
  "get_config temp_dir E kept =
     (case kept of
        Some cfg \<Rightarrow> (Ok cfg, kept)
      | None \<Rightarrow> sbind (lift_result (load temp_dir E)) (\<lambda>cfg _. (Ok cfg, Some cfg)) kept)"

definition get_cluster_addr :: "config \<Rightarrow> rstring" where
  "get_cluster_addr c = cluster_host c @ [colon] @ dec (cluster_port c)"

definition get_client_addr :: "config \<Rightarrow> rstring" where
  "get_client_addr c = client_host c @ [colon] @ dec (client_port c)"

section \<open>Lemmas\<close>

lemma get_config_first: "get_config tmp E None = (load tmp E, case load tmp E of Ok cfg \<Rightarrow> Some cfg | _ \<Rightarrow> None)"
  by (cases "load tmp E") (simp_all add: get_config_def sbind_def lift_result_def)

text \<open>After a call that returned, every further call returns the same configuration.\<close>

lemma get_config_again:
  "get_config tmp E kept = (Ok cfg, kept') \<Longrightarrow> get_config tmp' E' kept' = (Ok cfg, kept')"
  by (cases kept; cases "load tmp E") (auto simp: get_config_def sbind_def lift_result_def)

lemma split_on_nonempty [simp]: "split_on sep s \<noteq> []"
  by (induction s) (auto split: list.splits)

text \<open>Splitting is undone by joining: nothing is lost or added.\<close>

fun join_with :: "u8 \<Rightarrow> rstring list \<Rightarrow> rstring" where
  "join_with sep [] = []"
| "join_with sep [p] = p"
| "join_with sep (p # ps) = p @ sep # join_with sep ps"

lemma join_with_Cons: "ps \<noteq> [] \<Longrightarrow> join_with sep (p # ps) = p @ sep # join_with sep ps"
  by (cases ps) auto

lemma join_split [simp]: "join_with sep (split_on sep s) = s"
proof (induction s)
  case (Cons x s)
  obtain p ps where "split_on sep s = p # ps"
    using split_on_nonempty [of sep s] by (cases "split_on sep s") auto
  with Cons show ?case
    by (cases ps) (auto simp: join_with_Cons)
qed simp

lemma split_no_sep: "p \<in> set (split_on sep s) \<Longrightarrow> sep \<notin> set p"
  by (induction s arbitrary: p) (auto split: if_splits list.splits)

lemma path_str_join: "path_str p = join_with 47 p"
proof -
  have "bs ''/'' = [47]" by code_simp
  then show ?thesis by (induction p rule: path_str.induct) simp_all
qed

lemma path_str_of [simp]: "path_str (path_of s) = s"
  by (simp add: path_str_join path_of_def)

lemma expect_eq_Ok [simp]: "expect m r = Ok a \<longleftrightarrow> r = Ok a"
  by (cases r) (simp_all add: expect_def)

lemma parse_u16_Ok: "parse_u16 s = Ok n \<longleftrightarrow> parse_usize s = Ok n \<and> n < 2 ^ 16"
  by (cases "parse_usize s") (auto simp: parse_u16_def)

lemma parse_u16_dec [simp]: "n < 2 ^ 16 \<Longrightarrow> parse_u16 (dec n) = Ok n"
  by (simp add: parse_u16_Ok)

lemma parse_digits_None: "parse_digits a xs = None \<Longrightarrow> parse_digits a (xs @ ys) = None"
  by (simp add: parse_digits_append)

lemma parse_digits_dec_iff: "parse_digits 0 (dec n) = (if n < 2 ^ 64 then Some n else None)"
proof (induction n rule: dec.induct)
  case (1 n)
  show ?case
  proof (cases "n < 2 ^ 64")
    case True
    then show ?thesis by (simp add: parse_digits_dec)
  next
    case False
    then have "\<not> n < 10" by simp
    with 1 False show ?thesis
      by (cases "n div 10 < 2 ^ 64") (auto simp: dec.simps [of n] parse_digits_append)
  qed
qed

lemma parse_usize_dec_large: "2 ^ 64 \<le> n \<Longrightarrow> parse_usize (dec n) = Err Err_ParseInt"
proof -
  assume n: "2 ^ 64 \<le> n"
  obtain b r where d: "dec n = b # r"
    by (cases "dec n") auto
  then have "b \<noteq> 43"
    using set_dec [of b n] by auto
  with d n show ?thesis
    using parse_digits_dec_iff [of n] by (simp add: parse_usize_def)
qed

lemma parse_u16_dec_large: "2 ^ 16 \<le> n \<Longrightarrow> parse_u16 (dec n) = Err Err_ParseInt"
  by (cases "n < 2 ^ 64") (simp_all add: parse_u16_def parse_usize_dec_large)

text \<open>The default values of the variables that are parsed.\<close>

lemma default_ports: "dec 7719 = bs ''7719''" "dec 7720 = bs ''7720''" "dec 256 = bs ''256''"
  by (simp_all add: dec.simps digit_byte_def) code_simp+

lemma default_values:
  "parse_u16 (bs ''7719'') = Ok 7719" "parse_u16 (bs ''7720'') = Ok 7720" "parse_usize (bs ''256'') = Ok 256"
  "log_format_from_str (bs ''pretty'') = Ok Pretty"
proof -
  show "parse_u16 (bs ''7719'') = Ok 7719" "parse_u16 (bs ''7720'') = Ok 7720" "parse_usize (bs ''256'') = Ok 256"
    unfolding default_ports [symmetric] by simp_all
  show "log_format_from_str (bs ''pretty'') = Ok Pretty"
    by code_simp
qed

section \<open>Properties\<close>



text \<open>
  A port outside the range of 16 bits, however large, stops the program at start-up.
\<close>

theorem port_out_of_range_panics:
  assumes "E (bs ''CLIENT_PORT'') = Some (dec n)" and "2 ^ 16 \<le> n"
  shows "load tmp E = Panic ''invalid port''"
  using assms parse_u16_dec_large [of n]
  by (simp add: load_def env_or_def get_env_def expect_def)

theorem port_out_of_range_panics_witness:
  "load [bs ''tmp''] [bs ''CLIENT_PORT'' \<mapsto> dec 65536] = Panic ''invalid port''"
  by (rule port_out_of_range_panics [of _ 65536]) simp_all

lemma ex_env_loads:
  "\<exists>c. load [bs ''tmp''] [bs ''CLIENT_PORT'' \<mapsto> dec 80] = Ok c"
proof -
  have k: "bs ''CLUSTER_PORT'' \<noteq> bs ''CLIENT_PORT''" "bs ''LOG_FORMAT'' \<noteq> bs ''CLIENT_PORT''"
      "bs ''MEMTABLE_MAX_MB'' \<noteq> bs ''CLIENT_PORT''"
    by code_simp+
  show ?thesis
    by (simp add: load_def env_or_def get_env_def expect_def default_values k)
qed


end
