(* ===== verification/Crypto.thy ===== *)
theory Crypto
  imports Config
begin

text \<open>
  \<^verbatim>\<open>src/crypto.rs\<close>: signing and authenticated encryption on top of the libraries ring and
  base64.  The libraries are a record of functions; \<open>ring_ok\<close> collects what their documentation
  promises.  Random bytes come from a generator whose draws are numbered.
\<close>

section \<open>The libraries\<close>

record ('k, 'n) ring =
  rng_fill :: "nat \<Rightarrow> nat \<Rightarrow> bytes option"
  pbkdf2_derive :: "nat \<Rightarrow> bytes \<Rightarrow> bytes \<Rightarrow> nat \<Rightarrow> bytes"
  hmac_tag :: "bytes \<Rightarrow> bytes \<Rightarrow> bytes"
  hmac_check :: "bytes \<Rightarrow> bytes \<Rightarrow> bytes \<Rightarrow> bool"
  sha256 :: "bytes \<Rightarrow> bytes"
  try_nonce :: "bytes \<Rightarrow> 'n option"
  unbound_key :: "bytes \<Rightarrow> 'k option"
  aead_seal :: "'k \<Rightarrow> 'n \<Rightarrow> bytes \<Rightarrow> bytes option"
  aead_open :: "'k \<Rightarrow> 'n \<Rightarrow> bytes \<Rightarrow> bytes option"
  b64_encode :: "bytes \<Rightarrow> rstring"
  b64_decode :: "rstring \<Rightarrow> bytes option"

definition ring_ok :: "('k, 'n, 'z) ring_scheme \<Rightarrow> bool" where
  "ring_ok R \<longleftrightarrow>
     (\<forall>i n b. rng_fill R i n = Some b \<longrightarrow> length b = n) \<and>
     (\<forall>i s p n. length (pbkdf2_derive R i s p n) = n) \<and>
     (\<forall>k m. hmac_check R k m (hmac_tag R k m)) \<and>
     (\<forall>b. length b = 12 \<longrightarrow> try_nonce R b \<noteq> None) \<and>
     (\<forall>b. length b = 32 \<longrightarrow> unbound_key R b \<noteq> None) \<and>
     (\<forall>k n b c. aead_seal R k n b = Some c \<longrightarrow> aead_open R k n c = Some b) \<and>
     (\<forall>b. b64_decode R (b64_encode R b) = Some b)"

lemma ring_okD:
  assumes "ring_ok R"
  shows "rng_fill R i n = Some b \<Longrightarrow> length b = n" and "length (pbkdf2_derive R j s p m) = m"
    and "hmac_check R k t (hmac_tag R k t)"
    and "length b = 12 \<Longrightarrow> \<exists>x. try_nonce R b = Some x" and "length b = 32 \<Longrightarrow> \<exists>y. unbound_key R b = Some y"
    and "aead_seal R ky no d = Some c \<Longrightarrow> aead_open R ky no c = Some d"
    and "b64_decode R (b64_encode R b) = Some b"
  using assms by (auto simp: ring_ok_def)

text \<open>An error message of the code, as the string variant of the error type.\<close>

definition or_err :: "string \<Rightarrow> 'a option \<Rightarrow> 'a result" where
  "or_err m x = of_option (Err_E (bs m)) x"

definition map_err :: "string \<Rightarrow> 'a result \<Rightarrow> 'a result" where
  "map_err m r = (case r of Ok a \<Rightarrow> Ok a | Err e \<Rightarrow> Err (Err_E (bs m)) | Panic p \<Rightarrow> Panic p)"

section \<open>Random bytes, hashes and signatures\<close>

definition rand_bytes :: "('k, 'n, 'z) ring_scheme \<Rightarrow> nat \<Rightarrow> (nat, bytes) action" where
  "rand_bytes R n i = (or_err ''Error getting random bytes'' (rng_fill R i n), i + 1)"

definition new_pw_salt :: "('k, 'n, 'z) ring_scheme \<Rightarrow> (nat, bytes) action" where
  "new_pw_salt R = rand_bytes R 128"

definition new_gcm_nonce :: "('k, 'n, 'z) ring_scheme \<Rightarrow> (nat, bytes) action" where
  "new_gcm_nonce R = rand_bytes R 12"

abbreviation SHA512_OUTPUT_LEN :: nat where
  "SHA512_OUTPUT_LEN \<equiv> 64"

definition derive_password_hash :: "('k, 'n, 'z) ring_scheme \<Rightarrow> bytes \<Rightarrow> bytes \<Rightarrow> bytes" where
  "derive_password_hash R pw salt = pbkdf2_derive R 100000 salt pw SHA512_OUTPUT_LEN"

definition hmac_sign_with_key :: "('k, 'n, 'z) ring_scheme \<Rightarrow> rstring \<Rightarrow> rstring \<Rightarrow> rstring" where
  "hmac_sign_with_key R s ky = b64_encode R (hmac_tag R ky s)"

definition hmac_sign :: "('k, 'n, 'z) ring_scheme \<Rightarrow> config \<Rightarrow> rstring \<Rightarrow> rstring" where
  "hmac_sign R cfg s = hmac_sign_with_key R s (signing_key cfg)"

definition hmac_verify_with_key :: "('k, 'n, 'z) ring_scheme \<Rightarrow> rstring \<Rightarrow> rstring \<Rightarrow> rstring \<Rightarrow> bool" where
  "hmac_verify_with_key R txt sig ky =
     (case b64_decode R sig of Some t \<Rightarrow> hmac_check R ky txt t | None \<Rightarrow> False)"

definition hmac_verify :: "('k, 'n, 'z) ring_scheme \<Rightarrow> config \<Rightarrow> rstring \<Rightarrow> rstring \<Rightarrow> bool" where
  "hmac_verify R cfg txt sig = hmac_verify_with_key R txt sig (signing_key cfg)"

definition hash :: "('k, 'n, 'z) ring_scheme \<Rightarrow> bytes \<Rightarrow> bytes" where
  "hash R b = sha256 R b"

section \<open>A nonce that is handed out once\<close>

record 'n one_nonce =
  inner :: "'n option"

definition one_nonce_new :: "'n \<Rightarrow> 'n one_nonce" where
  "one_nonce_new n = \<lparr>inner = Some n\<rparr>"

definition advance :: "'n one_nonce \<Rightarrow> 'n option \<times> 'n one_nonce" where
  "advance s = (inner s, s\<lparr>inner := None\<rparr>)"

text \<open>Sealing and opening ask the sequence for the nonce of the message.\<close>

definition seal_in_place :: "('k, 'n, 'z) ring_scheme \<Rightarrow> 'k \<Rightarrow> 'n one_nonce \<Rightarrow> bytes \<Rightarrow> bytes option \<times> 'n one_nonce" where
  "seal_in_place R ky s b =
     (case advance s of
        (Some n, s') \<Rightarrow> (aead_seal R ky n b, s')
      | (None, s') \<Rightarrow> (None, s'))"

definition open_in_place :: "('k, 'n, 'z) ring_scheme \<Rightarrow> 'k \<Rightarrow> 'n one_nonce \<Rightarrow> bytes \<Rightarrow> bytes option \<times> 'n one_nonce" where
  "open_in_place R ky s b =
     (case advance s of
        (Some n, s') \<Rightarrow> (aead_open R ky n b, s')
      | (None, s') \<Rightarrow> (None, s'))"

section \<open>Encryption\<close>

definition encrypt_bytes :: "('k, 'n, 'z) ring_scheme \<Rightarrow> bytes \<Rightarrow> bytes \<Rightarrow> bytes \<Rightarrow> bytes \<Rightarrow> bytes result" where
  "encrypt_bytes R b nonce pass salt =
     rbind (or_err ''Encryption nonce not unique'' (try_nonce R nonce)) (\<lambda>n.
     let s = one_nonce_new n; stretched = derive_password_hash R pass salt in
     rbind (or_err ''Error building sealing key'' (unbound_key R (take 32 stretched))) (\<lambda>ky.
     or_err ''Failed encrypting bytes'' (fst (seal_in_place R ky s b))))"

definition decrypt_bytes :: "('k, 'n, 'z) ring_scheme \<Rightarrow> bytes \<Rightarrow> bytes \<Rightarrow> bytes \<Rightarrow> bytes \<Rightarrow> bytes result" where
  "decrypt_bytes R b nonce pass salt =
     rbind (or_err ''Decryption nonce not unique'' (try_nonce R nonce)) (\<lambda>n.
     let s = one_nonce_new n; stretched = derive_password_hash R pass salt in
     rbind (or_err ''Error build opening key'' (unbound_key R (take 32 stretched))) (\<lambda>ky.
     or_err ''Failed decrypting bytes'' (fst (open_in_place R ky s b))))"

record enc =
  enc_value :: rstring
  enc_nonce :: rstring
  enc_salt :: rstring

definition encrypt_with_key :: "('k, 'n, 'z) ring_scheme \<Rightarrow> rstring \<Rightarrow> rstring \<Rightarrow> (nat, enc) action" where
  "encrypt_with_key R s ky =
     sbind (\<lambda>i. map_prod (map_err ''error generating nonce'') id (new_gcm_nonce R i)) (\<lambda>nonce.
     sbind (\<lambda>i. map_prod (map_err ''error generating salt'') id (new_pw_salt R i)) (\<lambda>salt.
     sbind (lift_result (map_err ''encryption error'' (encrypt_bytes R s nonce ky salt))) (\<lambda>b.
     sreturn \<lparr>enc_value = b64_encode R b, enc_nonce = b64_encode R nonce, enc_salt = b64_encode R salt\<rparr>)))"

definition encrypt :: "('k, 'n, 'z) ring_scheme \<Rightarrow> config \<Rightarrow> rstring \<Rightarrow> (nat, enc) action" where
  "encrypt R cfg s = encrypt_with_key R s (encryption_key cfg)"

definition decrypt_with_key :: "('k, 'n, 'z) ring_scheme \<Rightarrow> enc \<Rightarrow> rstring \<Rightarrow> rstring result" where
  "decrypt_with_key R e ky =
     rbind (or_err ''nonce base64 decode error'' (b64_decode R (enc_nonce e))) (\<lambda>nonce.
     rbind (or_err ''salt base64 decode error'' (b64_decode R (enc_salt e))) (\<lambda>salt.
     rbind (or_err ''value base64 decode error'' (b64_decode R (enc_value e))) (\<lambda>v.
     rbind (map_err ''encryption error'' (decrypt_bytes R v nonce ky salt)) (\<lambda>b.
     if utf8_valid b then Ok b else Err (Err_E (bs ''error decrypting bytes''))))))"

definition decrypt :: "('k, 'n, 'z) ring_scheme \<Rightarrow> config \<Rightarrow> enc \<Rightarrow> rstring result" where
  "decrypt R cfg e = decrypt_with_key R e (encryption_key cfg)"

section \<open>Lemmas\<close>

lemma or_err_simps [simp]:
  "or_err m (Some a) = Ok a" "or_err m None = Err (Err_E (bs m))" "or_err m x \<noteq> Panic p"
  by (simp_all add: or_err_def)

lemma or_err_Ok [simp]: "or_err m x = Ok a \<longleftrightarrow> x = Some a"
  by (cases x) simp_all

lemma map_err_Ok [simp]: "map_err m r = Ok a \<longleftrightarrow> r = Ok a"
  by (cases r) (simp_all add: map_err_def)

lemma seal_new [simp]: "seal_in_place R ky (one_nonce_new n) b = (aead_seal R ky n b, \<lparr>inner = None\<rparr>)"
  by (simp add: seal_in_place_def advance_def one_nonce_new_def)

lemma open_new [simp]: "open_in_place R ky (one_nonce_new n) b = (aead_open R ky n b, \<lparr>inner = None\<rparr>)"
  by (simp add: open_in_place_def advance_def one_nonce_new_def)

text \<open>Opening what was sealed, under the same nonce, password and salt.\<close>

lemma decrypt_encrypt_bytes:
  assumes "ring_ok R" and "encrypt_bytes R b nonce pass salt = Ok c"
  shows "decrypt_bytes R c nonce pass salt = Ok b"
  using assms(2) ring_okD(6) [OF assms(1)]
  by (auto simp: encrypt_bytes_def decrypt_bytes_def rbind_eq_Ok_iff Let_def)

text \<open>Encryption succeeds whenever the generator delivers and the cipher accepts the text.\<close>

lemma encrypt_bytes_succeeds:
  assumes "ring_ok R" and "length nonce = 12" and "\<And>k n. \<exists>c. aead_seal R k n b = Some c"
  shows "\<exists>c. encrypt_bytes R b nonce pass salt = Ok c"
proof -
  obtain n where n: "try_nonce R nonce = Some n"
    using ring_okD(4) [OF assms(1,2)] by blast
  have "length (take 32 (derive_password_hash R pass salt)) = 32"
    by (simp add: derive_password_hash_def ring_okD(2) [OF assms(1)])
  then obtain k where k: "unbound_key R (take 32 (derive_password_hash R pass salt)) = Some k"
    using ring_okD(5) [OF assms(1)] by blast
  from n k assms(3) [of k n] show ?thesis
    by (auto simp: encrypt_bytes_def)
qed

section \<open>Properties\<close>

text \<open>
  C36: Encryption is undone by decryption with the same key: when the random generator delivers
  and the cipher accepts the text, encrypting a text succeeds, with two draws of random bytes,
  and decrypting the result returns the text.
\<close>

theorem encrypt_then_decrypt:
  assumes "ring_ok R" and "utf8_valid s" and "rng_fill R i 12 = Some nonce" and "rng_fill R (i + 1) 128 = Some salt"
    and "\<forall>k n. \<exists>c. aead_seal R k n s = Some c"
  shows "\<exists>e. encrypt R cfg s i = (Ok e, i + 2) \<and> decrypt R cfg e = Ok s"
proof -
  have "length nonce = 12"
    using ring_okD(1) [OF assms(1,3)] .
  then obtain c where c: "encrypt_bytes R s nonce (encryption_key cfg) salt = Ok c"
    using encrypt_bytes_succeeds [OF assms(1)] assms(5) by blast
  let ?e = "\<lparr>enc_value = b64_encode R c, enc_nonce = b64_encode R nonce, enc_salt = b64_encode R salt\<rparr>"
  have "encrypt R cfg s i = (Ok ?e, i + 2)"
    using assms(3,4) c
    by (simp add: encrypt_def encrypt_with_key_def new_gcm_nonce_def new_pw_salt_def rand_bytes_def sbind_def
        map_err_def action_simps)
  moreover have "decrypt R cfg ?e = Ok s"
    using decrypt_encrypt_bytes [OF assms(1) c] ring_okD(7) [OF assms(1)] assms(2)
    by (simp add: decrypt_def decrypt_with_key_def map_err_def)
  ultimately show ?thesis by blast
qed

text \<open>An instance of the libraries: the cipher puts key and nonce in front of the text.\<close>

definition ex_ring :: "(bytes, bytes) ring" where
  "ex_ring =
     \<lparr>rng_fill = (\<lambda>i n. Some (replicate n (of_nat i))), pbkdf2_derive = (\<lambda>i s p n. take n (p @ s @ replicate n 0)),
      hmac_tag = (\<lambda>k m. k @ m), hmac_check = (\<lambda>k m t. t = k @ m), sha256 = id,
      try_nonce = (\<lambda>b. if length b = 12 then Some b else None),
      unbound_key = (\<lambda>b. if length b = 32 then Some b else None),
      aead_seal = (\<lambda>k n b. Some (k @ n @ b)),
      aead_open = (\<lambda>k n c. if take (length (k @ n)) c = k @ n then Some (drop (length (k @ n)) c) else None),
      b64_encode = id, b64_decode = Some\<rparr>"

lemma ex_ring_ok: "ring_ok ex_ring"
  by (auto simp: ring_ok_def ex_ring_def)

definition ex_config :: config where
  "ex_config =
     \<lparr>client_host = bs ''h'', client_port = 1, cluster_host = bs ''h'', cluster_port = 2, seed_peers = [],
      cert_path = [], key_path = [], log_level = [], cfg_log_format = Json, encryption_key = bs ''key'',
      signing_key = bs ''key'', cfg_data_dir = [bs ''data''], commit_log_path = [bs ''data'', bs ''commit_log''],
      memtable_max_mb = 256\<rparr>"

theorem encrypt_then_decrypt_witness:
  "\<exists>e. encrypt ex_ring ex_config (bs ''hi'') 0 = (Ok e, 0 + 2) \<and> decrypt ex_ring ex_config e = Ok (bs ''hi'')"
proof (rule encrypt_then_decrypt [OF ex_ring_ok])
  show "utf8_valid (bs ''hi'')"
    by code_simp
qed (simp_all add: ex_ring_def)

text \<open>
  A nonce sequence seals at most one message: after the first use every further attempt to
  seal or open with it fails, whatever the key and the text.
\<close>

theorem nonce_used_once:
  "seal_in_place R k' (snd (seal_in_place R k (one_nonce_new n) b)) b' = (None, \<lparr>inner = None\<rparr>) \<and>
   open_in_place R k' (snd (seal_in_place R k (one_nonce_new n) b)) b' = (None, \<lparr>inner = None\<rparr>) \<and>
   fst (seal_in_place R k (one_nonce_new n) b) = aead_seal R k n b"
  by (simp add: seal_in_place_def open_in_place_def advance_def one_nonce_new_def)

text \<open>
  A signature made with the configured key is accepted for its text, and a signature that is
  not base64 is rejected, not an error.
\<close>

theorem sign_then_verify:
  assumes "ring_ok R"
  shows "hmac_verify R cfg txt (hmac_sign R cfg txt) \<and> (b64_decode R sig = None \<longrightarrow> \<not> hmac_verify R cfg txt sig)"
  using ring_okD(3,7) [OF assms]
  by (simp add: hmac_verify_def hmac_sign_def hmac_verify_with_key_def hmac_sign_with_key_def)

theorem sign_then_verify_witness:
  "hmac_verify ex_ring ex_config (bs ''hi'') (hmac_sign ex_ring ex_config (bs ''hi''))"
  using sign_then_verify [OF ex_ring_ok] by blast

end
