(* ===== verification/Client_Server.thy ===== *)
theory Client_Server
  imports Connection Crypto
begin

text \<open>
  \<^verbatim>\<open>src/server/client.rs\<close>: the server for clients.  It listens, spawns a task per connection,
  and on shutdown broadcasts to the tasks.  The tasks share the store; a run interleaves their
  turns with each other, with arriving input, with new connections and with the background work
  of the store.  A TLS handshake and the turn of a task (one request with its reply) are atomic
  steps of the model.
\<close>

section \<open>The server\<close>

datatype cs_state = Idle | Listening rstring | Shut_down | Crashed string

record 's client_server =
  certs :: "bytes list"
  keys :: "bytes list"
  cs_addr :: "rstring option"
  cs_store :: 's
  conns :: "conn option list"
  cs_state :: cs_state

definition client_server_new :: "bytes list \<Rightarrow> bytes list \<Rightarrow> 's \<Rightarrow> 's client_server" where
  "client_server_new cts ks s =
     \<lparr>certs = cts, keys = ks, cs_addr = None, cs_store = s, conns = [], cs_state = Idle\<rparr>"

definition cs_set_addr :: "rstring \<Rightarrow> 's client_server \<Rightarrow> 's client_server" where
  "cs_set_addr a S = S\<lparr>cs_addr := Some a\<rparr>"

text \<open>
  Setting up: the first key is used, the TLS library accepts the certificates or not, and the
  operating system binds the address or reports an error.
\<close>

definition cs_listen ::
    "(bytes list \<Rightarrow> bytes \<Rightarrow> bool) \<Rightarrow> (rstring \<Rightarrow> io_kind option) \<Rightarrow> config \<Rightarrow> ('s client_server, unit) action" where
  "cs_listen tls_ok bind cfg S =
     (case keys S of
        [] \<Rightarrow> (Panic ''index out of bounds'', S\<lparr>cs_state := Crashed ''index out of bounds''\<rparr>)
      | k # ks \<Rightarrow>
          if \<not> tls_ok (certs S) k then (Err (Err_E (bs ''tls config error'')), S)
          else
            (let addr = (case cs_addr S of Some a \<Rightarrow> a | None \<Rightarrow> get_client_addr cfg)
             in case bind addr of
                  Some e \<Rightarrow> (Err (Err_IO e), S)
                | None \<Rightarrow> (Ok (), S\<lparr>cs_state := Listening addr\<rparr>)))"

text \<open>
  Accepting: a task is spawned for the result of the accept and draws an identifier; it ends at once when the accept or
  the handshake failed, else it has a new reader.
\<close>

definition cs_accept :: "bool \<Rightarrow> bool \<Rightarrow> uuid \<Rightarrow> 's client_server \<Rightarrow> 's client_server" where
  "cs_accept accepted handshake u S =
     (let task = (if accepted \<and> handshake
                  then (case proto_new (session_id u) of
                          Ok P \<Rightarrow> Some \<lparr>cproto = P, cin = [], cout = \<lparr>wout = [], wflushed = [], wsched = []\<rparr>\<rparr>
                        | _ \<Rightarrow> None)
                  else None)
      in S\<lparr>conns := conns S @ [task]\<rparr>)"

text \<open>Input arriving for a task.\<close>

definition cs_arrive :: "nat \<Rightarrow> sock_event \<Rightarrow> 's client_server \<Rightarrow> 's client_server" where
  "cs_arrive i ev S =
     S\<lparr>conns := (conns S)[i := map_option (\<lambda>c. c\<lparr>cin := cin c @ [ev]\<rparr>) (conns S ! i)]\<rparr>"

text \<open>
  Shutdown: the broadcast fails when no task is left to receive it.  A task may notice the
  broadcast before or after input that is already there; \<open>kp\<close> says where.
\<close>

definition insert_kill :: "nat \<Rightarrow> sock_event list \<Rightarrow> sock_event list" where
  "insert_kill p evs = take p evs @ Kill # drop p evs"

definition cs_shutdown :: "(nat \<Rightarrow> nat) \<Rightarrow> 's client_server \<Rightarrow> 's client_server" where
  "cs_shutdown kp S =
     (if list_all (\<lambda>c. c = None) (conns S) then S\<lparr>cs_state := Crashed ''error broadcasting task kill''\<rparr>
      else S\<lparr>conns := map2 (\<lambda>i. map_option (\<lambda>c. c\<lparr>cin := insert_kill (kp i) (cin c)\<rparr>)) [0..<length (conns S)] (conns S),
             cs_state := Shut_down\<rparr>)"

section \<open>A turn of a task\<close>

text \<open>What a turn leaves of the task, and what its client was told, if anything.\<close>

fun after :: "turn \<Rightarrow> conn option" where
  "after (Continue c) = Some c"
| "after (Exit r c) = None"

fun told :: "conn \<Rightarrow> turn \<Rightarrow> bytes option" where
  "told c (Continue c') = Some (drop (length (wout (cout c))) (wout (cout c')))"
| "told c (Exit r c') = None"

type_synonym served = "nat \<times> proto_op \<times> bytes option"

definition cs_turn ::
    "(rstring \<Rightarrow> ('s, bytes option) action) \<Rightarrow> (transaction \<Rightarrow> ('s, unit) action) \<Rightarrow> uuid \<Rightarrow> nat \<Rightarrow>
     's client_server \<Rightarrow> served list \<times> 's client_server" where
  "cs_turn get transact u i S =
     (if i < length (conns S) then
        (case conns S ! i of
           None \<Rightarrow> ([], S)
         | Some c \<Rightarrow>
             (case proto_read (cproto c) (cin c) of
                Waiting \<Rightarrow> ([], S)
              | Returned (Ok q) P evs \<Rightarrow>
                  (case handle_op get transact u q (c\<lparr>cproto := P, cin := evs\<rparr>) (cs_store S) of
                     (t, s') \<Rightarrow> ([(i, q, told c t)], S\<lparr>conns := (conns S)[i := after t], cs_store := s'\<rparr>))
              | Returned _ P evs \<Rightarrow> ([], S\<lparr>conns := (conns S)[i := None]\<rparr>)))
      else ([], S))"

section \<open>Runs\<close>

text \<open>What happens to the server from outside: a new connection, arriving input, a shutdown.\<close>

inductive env_step :: "'s client_server \<Rightarrow> 's client_server \<Rightarrow> bool" where
  env_accept: "cs_state S = Listening a \<Longrightarrow> env_step S (cs_accept ok tls u S)"
| env_arrive: "i < length (conns S) \<Longrightarrow> env_step S (cs_arrive i ev S)"
| env_shutdown: "cs_state S = Listening a \<Longrightarrow> env_step S (cs_shutdown kp S)"

inductive serve ::
    "('s \<Rightarrow> 's \<Rightarrow> bool) \<Rightarrow> (rstring \<Rightarrow> ('s, bytes option) action) \<Rightarrow> (transaction \<Rightarrow> ('s, unit) action) \<Rightarrow>
     's client_server \<Rightarrow> served list \<Rightarrow> 's client_server \<Rightarrow> bool"
  for internal get transact where
  serve_done: "serve internal get transact S [] S"
| serve_internal:
    "internal (cs_store S) s' \<Longrightarrow> serve internal get transact (S\<lparr>cs_store := s'\<rparr>) tr T \<Longrightarrow>
     serve internal get transact S tr T"
| serve_env:
    "env_step S S' \<Longrightarrow> serve internal get transact S' tr T \<Longrightarrow> serve internal get transact S tr T"
| serve_turn:
    "cs_turn get transact u i S = (ev, S') \<Longrightarrow> serve internal get transact S' tr T \<Longrightarrow>
     serve internal get transact S (ev @ tr) T"

text \<open>What a map tells the clients of a sequence of requests: every reply that is sent is right.\<close>

fun answered :: "view \<Rightarrow> served list \<Rightarrow> bool" where
  "answered m [] \<longleftrightarrow> True"
| "answered m ((i, q, r) # tr) \<longleftrightarrow> (r = None \<or> r = Some (answer m q)) \<and> answered (effect q m) tr"

definition effects :: "served list \<Rightarrow> view \<Rightarrow> view" where
  "effects tr m = fold (\<lambda>(i, q, r). effect q) tr m"

lemma answered_append: "answered m (tr @ tr') \<longleftrightarrow> answered m tr \<and> answered (effects tr m) tr'"
  by (induction m tr rule: answered.induct) (auto simp: effects_def)

lemma effects_append [simp]: "effects (tr @ tr') m = effects tr' (effects tr m)"
  by (simp add: effects_def)

lemma env_step_store: "env_step S S' \<Longrightarrow> cs_store S' = cs_store S"
  by (induction rule: env_step.induct) (simp_all add: cs_accept_def cs_arrive_def cs_shutdown_def Let_def)

lemma told_reply:
  assumes "cout c0 = cout c"
  shows "told c (reply (\<lambda>P. write_stream_buf (proto_id P) b) c0) \<in> {None, Some b}"
proof (cases "reply (\<lambda>P. write_stream_buf (proto_id P) b) c0")
  case (Continue c')
  with reply_Continue(1) [OF Continue] assms show ?thesis
    by simp
qed simp

context kv_store
begin

lemma turn_answered:
  assumes "inv (cs_store S)" and "cs_turn get transact u i S = (ev, S')"
    and "\<forall>(j, q, r) \<in> set ev. storable ok_tx q"
  shows "answered (view (cs_store S)) ev \<and> inv (cs_store S') \<and> view (cs_store S') = effects ev (view (cs_store S))"
proof (cases "\<exists>c q P evs. i < length (conns S) \<and> conns S ! i = Some c \<and> proto_read (cproto c) (cin c) = Returned (Ok q) P evs")
  case True
  then obtain c q P evs where c: "i < length (conns S)" "conns S ! i = Some c"
      "proto_read (cproto c) (cin c) = Returned (Ok q) P evs"
    by blast
  let ?c = "c\<lparr>cproto := P, cin := evs\<rparr>"
  obtain t s' where t: "handle_op get transact u q ?c (cs_store S) = (t, s')"
    by fastforce
  have ev: "ev = [(i, q, told c t)]" "cs_store S' = s'"
    using assms(2) c t by (auto simp: cs_turn_def)
  with assms(3) have "storable ok_tx q" by simp
  from handle_op_cases [OF assms(1) this, of u ?c] t
  have s': "inv s'" "view s' = effect q (view (cs_store S))"
    and cases: "t = (if q = SysClose \<or> q = Cancelled then Exit (Ok ()) ?c
        else reply (\<lambda>P. write_stream_buf (proto_id P) (answer (view (cs_store S)) q)) ?c)"
    by auto
  have "told c t = None \<or> told c t = Some (answer (view (cs_store S)) q)"
    unfolding cases using told_reply [of ?c c "answer (view (cs_store S)) q"] by simp
  with ev s' show ?thesis
    by (simp add: effects_def)
next
  case False
  then have "ev = []" "cs_store S' = cs_store S"
    using assms(2) by (auto simp: cs_turn_def split: if_splits option.splits outcome.splits result.splits)
  with assms(1) show ?thesis
    by (simp add: effects_def)
qed

lemma serve_linear:
  "serve internal get transact S tr T \<Longrightarrow> inv (cs_store S) \<Longrightarrow> \<forall>(j, q, r) \<in> set tr. storable ok_tx q \<Longrightarrow>
   answered (view (cs_store S)) tr \<and> inv (cs_store T) \<and> view (cs_store T) = effects tr (view (cs_store S))"
proof (induction rule: serve.induct)
  case (serve_done S)
  then show ?case by (simp add: effects_def)
next
  case (serve_internal S s' tr T)
  then show ?case using internal_law [of "cs_store S" s'] by simp
next
  case (serve_turn u i S ev S' tr T)
  then have "\<forall>(j, q, r) \<in> set ev. storable ok_tx q" "\<forall>(j, q, r) \<in> set tr. storable ok_tx q"
    by auto
  with serve_turn turn_answered [OF serve_turn.prems(1) serve_turn.hyps(1)] show ?case
    by (simp add: answered_append)
next
  case (serve_env S S' tr T)
  then show ?case using env_step_store [OF serve_env.hyps(1)] by simp
qed

end

text \<open>A request that has arrived on some connection is served on the next turn of its task.\<close>

context kv_store
begin

lemma turn_serves:
  assumes "inv (cs_store S)" and "i < length (conns S)" and "conns S ! i = Some c"
    and "conn_ready c ds" and "cin c = map Chunk (ds @ cs) @ evs" and "delivered q cs" and "storable ok_tx q"
  shows "\<exists>S' c' ds'. cs_turn get transact u i S = ([(i, q, Some (answer (view (cs_store S)) q))], S') \<and>
     inv (cs_store S') \<and> view (cs_store S') = effect q (view (cs_store S)) \<and>
     conns S' = (conns S)[i := Some c'] \<and> conn_ready c' ds' \<and> cin c' = map Chunk ds' @ evs \<and>
     wflushed (cout c') = wout (cout c) @ answer (view (cs_store S)) q"
proof -
  let ?a = "answer (view (cs_store S)) q"
  have q: "q \<noteq> SysClose" "q \<noteq> Cancelled"
    using assms(6) by (auto simp: delivered_def)
  obtain P ds' where P: "proto_read (cproto c) (cin c) = Returned (Ok q) P (map Chunk ds' @ evs)" "ready P ds'"
    using delivered_read [of "cproto c" ds q cs evs] assms(4-6) by (auto simp: conn_ready_def)
  let ?c = "c\<lparr>cproto := P, cin := map Chunk ds' @ evs\<rparr>"
  obtain c' where c': "reply (\<lambda>P. write_stream_buf (proto_id P) ?a) ?c = Continue c'" "wsched (cout c') = []"
    using reply_ok [of ?c ?a] assms(4) by (auto simp: conn_ready_def)
  note sent = reply_Continue [OF c'(1)]
  obtain s' where s': "inv s'" "view s' = effect q (view (cs_store S))"
      "handle_op get transact u q ?c (cs_store S) = (Continue c', s')"
    using handle_op_cases [OF assms(1,7), of u ?c] q c'(1) by auto
  let ?S = "S\<lparr>conns := (conns S)[i := Some c'], cs_store := s'\<rparr>"
  have "cs_turn get transact u i S = ([(i, q, Some ?a)], ?S)"
    using assms(2,3) P(1) s'(3) sent(1) by (simp add: cs_turn_def)
  moreover have "conn_ready c' ds'" "cin c' = map Chunk ds' @ evs" "wflushed (cout c') = wout (cout c) @ ?a"
    using sent c'(2) P(2) by (simp_all add: conn_ready_def)
  ultimately show ?thesis
    using s'(1,2) by (intro exI [of _ ?S] exI [of _ c'] exI [of _ ds']) simp
qed

end

section \<open>Properties\<close>

text \<open>
  C2: The server for clients of the LSM store is linear: whatever number of connections it has,
  and however their turns are interleaved with each other, with arriving input, new
  connections, a shutdown and the background work of the store, every reply that a client gets
  is the reply of one map from keys to values to which the requests were applied one after the
  other in the order of the turns, and the contents of the store are those of this map.
\<close>

theorem lsm_server_linear:
  assumes "serve (lsm_internal E) (lsm_get E) (lsm_transact E) S tr T" and "lsm_plain E (cs_store S)"
    and "\<forall>(j, q, r) \<in> set tr. storable (plain_tx E) q"
  shows "answered (lsm_view E (cs_store S)) tr \<and> lsm_plain E (cs_store T) \<and>
    lsm_view E (cs_store T) = effects tr (lsm_view E (cs_store S))"
  using lsm_kv.serve_linear [OF assms] .

text \<open>
  A request that has arrived completely on an open connection of the server is answered and
  flushed on the next turn of that connection's task, whatever the other connections do.
\<close>

theorem lsm_request_served:
  assumes "lsm_plain E (cs_store S)" and "i < length (conns S)" and "conns S ! i = Some c"
    and "conn_ready c ds" and "cin c = map Chunk (ds @ cs) @ evs" and "delivered q cs" and "storable (plain_tx E) q"
  shows "\<exists>S' c'. cs_turn (lsm_get E) (lsm_transact E) u i S =
       ([(i, q, Some (answer (lsm_view E (cs_store S)) q))], S') \<and> conns S' = (conns S)[i := Some c'] \<and>
     wflushed (cout c') = wout (cout c) @ answer (lsm_view E (cs_store S)) q"
  using lsm_kv.turn_serves [OF assms, of u] by blast

text \<open>Two clients: the first sets a key, the second gets it.\<close>

definition ex_client :: "bytes list \<Rightarrow> conn" where
  "ex_client cs = \<lparr>cproto = ex_new, cin = map Chunk cs, cout = new_wsock\<rparr>"

abbreviation ex_pieces :: "bytes list" where
  "ex_pieces \<equiv> [take 7 (wire ex_set_foo), drop 7 (wire ex_set_foo)]"

definition ex_server :: "rstring list lsm_store client_server" where
  "ex_server = (client_server_new [] [bs ''k''] ex_store)
     \<lparr>conns := [Some (ex_client ex_pieces), Some (ex_client [wire (P_Get (bs ''foo''))])],
      cs_state := Listening (bs ''h'')\<rparr>"

lemma ex_client_ready: "conn_ready (ex_client cs) []" "cin (ex_client cs) = map Chunk ([] @ cs) @ []"
  by (simp_all add: conn_ready_def ex_client_def new_wsock_def)

lemma ex_server_simps [simp]:
  "cs_store ex_server = ex_store"
  "conns ex_server = [Some (ex_client ex_pieces), Some (ex_client [wire (P_Get (bs ''foo''))])]"
  "cs_state ex_server = Listening (bs ''h'')"
  by (simp_all add: ex_server_def client_server_new_def)

theorem lsm_server_linear_witness:
  "\<exists>T. serve (lsm_internal ex_lsm) (lsm_get ex_lsm) (lsm_transact ex_lsm) ex_server
      [(0, ex_set_foo, Some (bs ''1:3'' @ [newline])), (1, P_Get (bs ''foo''), Some (bs ''3:bar'' @ [newline]))] T \<and>
    answered (lsm_view ex_lsm (cs_store ex_server))
      [(0, ex_set_foo, Some (bs ''1:3'' @ [newline])), (1, P_Get (bs ''foo''), Some (bs ''3:bar'' @ [newline]))] \<and>
    lsm_view ex_lsm (cs_store T) = [bs ''foo'' \<mapsto> bs ''bar'']"
proof -
  let ?tr = "[(0, ex_set_foo, Some (bs ''1:3'' @ [newline])), (1, P_Get (bs ''foo''), Some (bs ''3:bar'' @ [newline]))]"
  have plain: "lsm_plain ex_lsm (cs_store ex_server)"
    using ex_store_plain by simp
  have st: "storable (plain_tx ex_lsm) (P_Get (bs ''foo''))"
    by simp
  have a: "frame (dec (length (bs ''bar''))) = bs ''1:3'' @ [newline]" "frame (bs ''bar'') = bs ''3:bar'' @ [newline]"
    by (simp_all add: frame_def digit_byte_def) code_simp+
  obtain S1 c1 where S1: "cs_turn (lsm_get ex_lsm) (lsm_transact ex_lsm) 1 0 ex_server =
        ([(0, ex_set_foo, Some (bs ''1:3'' @ [newline]))], S1)"
      "lsm_plain ex_lsm (cs_store S1)" "lsm_view ex_lsm (cs_store S1) = [bs ''foo'' \<mapsto> bs ''bar'']"
      "conns S1 = [Some c1, Some (ex_client [wire (P_Get (bs ''foo''))])]"
    using lsm_kv.turn_serves [OF plain _ _ ex_client_ready ex_foo_delivered(1) ex_set_storable, of 0 1]
      ex_store_plain(2) a(1) by auto
  obtain S2 where S2: "cs_turn (lsm_get ex_lsm) (lsm_transact ex_lsm) 2 1 S1 =
        ([(1, P_Get (bs ''foo''), Some (bs ''3:bar'' @ [newline]))], S2)"
    using lsm_kv.turn_serves [OF S1(2) _ _ ex_client_ready ex_foo_delivered(2) st, of 1 2] S1(3,4) a(2) by auto
  have "serve (lsm_internal ex_lsm) (lsm_get ex_lsm) (lsm_transact ex_lsm) ex_server ?tr S2"
    using serve.serve_turn [OF S1(1) serve.serve_turn [OF S2 serve.serve_done]] by simp
  moreover from lsm_server_linear [OF this plain] have "answered (lsm_view ex_lsm (cs_store ex_server)) ?tr \<and>
      lsm_view ex_lsm (cs_store S2) = effects ?tr (lsm_view ex_lsm (cs_store ex_server))"
    using ex_set_storable by simp
  moreover have "effects ?tr (lsm_view ex_lsm (cs_store ex_server)) = [bs ''foo'' \<mapsto> bs ''bar'']"
    using ex_store_plain(2) by (simp add: effects_def)
  ultimately show ?thesis by metis
qed

theorem lsm_request_served_witness:
  "\<exists>S' c'. cs_turn (lsm_get ex_lsm) (lsm_transact ex_lsm) 1 1 ex_server =
      ([(1, P_Get (bs ''foo''), Some (bs ''null'' @ [newline]))], S') \<and> conns S' ! 1 = Some c' \<and> wflushed (cout c') = bs ''null'' @ [newline]"
proof -
  let ?c = "ex_client [wire (P_Get (bs ''foo''))]"
  have "lsm_plain ex_lsm (cs_store ex_server)" "1 < length (conns ex_server)" "conns ex_server ! 1 = Some ?c"
    using ex_store_plain by simp_all
  from lsm_request_served [OF this ex_client_ready ex_foo_delivered(2), of 1] ex_store_plain(2) obtain S' c' where
    "cs_turn (lsm_get ex_lsm) (lsm_transact ex_lsm) 1 1 ex_server = ([(1, P_Get (bs ''foo''), Some (bs ''null'' @ [newline]))], S')"
    "conns S' = (conns ex_server)[1 := Some c']" "wflushed (cout c') = wout (cout ?c) @ bs ''null'' @ [newline]"
    by auto
  then show ?thesis
    by (intro exI [of _ S'] exI [of _ c']) (simp add: ex_client_def new_wsock_def)
qed

text \<open>
  C26: A shutdown reaches every client: after the broadcast each connection whose reader was
  waiting for the socket when the broadcast came ends on the next turn of its task, without an
  error and without touching the store.
\<close>

theorem shutdown_closes_waiting:
  assumes "i < length (conns S)" and "conns S ! i = Some c" and "proto_read (cproto c) (take (kp i) (cin c)) = Waiting"
  shows "\<exists>S'. cs_turn get transact u i (cs_shutdown kp S) = ([(i, Cancelled, None)], S') \<and>
    conns S' ! i = None \<and> cs_store S' = cs_store S \<and> cs_state S' = Shut_down"
proof -
  let ?c = "c\<lparr>cin := insert_kill (kp i) (cin c)\<rparr>"
  have "\<not> list_all (\<lambda>c. c = None) (conns S)"
    using assms(1,2) by (auto simp: list_all_length)
  then have S: "conns (cs_shutdown kp S) ! i = Some ?c" "i < length (conns (cs_shutdown kp S))"
      "cs_state (cs_shutdown kp S) = Shut_down" "cs_store (cs_shutdown kp S) = cs_store S"
    using assms(1,2) by (simp_all add: cs_shutdown_def)
  obtain P where "proto_read (cproto c) (insert_kill (kp i) (cin c)) = Returned (Ok Cancelled) P (drop (kp i) (cin c))"
    using read_loop_waiting(1) [of "cproto c" "vars_init (cproto c)" "take (kp i) (cin c)" "drop (kp i) (cin c)"] assms(3)
    by (auto simp: proto_read_def insert_kill_def)
  with S show ?thesis
    by (simp add: cs_turn_def handle_op_def)
qed

theorem shutdown_closes_waiting_witness:
  "\<exists>S'. cs_turn (lsm_get ex_lsm) (lsm_transact ex_lsm) 1 0 (cs_shutdown (\<lambda>_. 0) ex_server) = ([(0, Cancelled, None)], S') \<and>
    conns S' ! 0 = None \<and> cs_store S' = cs_store ex_server \<and> cs_state S' = Shut_down"
  by (rule shutdown_closes_waiting [of _ _ "ex_client ex_pieces"]) (simp_all add: ex_client_def ex_waiting)

text \<open>
  A server shuts down only while a client is connected: without any open connection the
  broadcast has no receiver, and the task of the server panics instead.
\<close>

theorem shutdown_needs_a_client:
  "cs_state (cs_shutdown kp S) =
     (if \<exists>i c. i < length (conns S) \<and> conns S ! i = Some c then Shut_down
      else Crashed ''error broadcasting task kill'')"
  by (auto simp: cs_shutdown_def list_all_length)

end
