(* ===== verification/Node.thy ===== *)
theory Node
  imports LSM_Recovery Client_Server
begin

text \<open>
  A node: the LSM store made from the configuration (\<^verbatim>\<open>LSMStore::from_config\<close> and
  \<^verbatim>\<open>initialize_from_config\<close> of \<^verbatim>\<open>src/store/lsm.rs\<close>) behind the server for clients.  What the
  clients of a node were told to be stored is there after a crash and a restart.
\<close>

section \<open>The store of a configuration\<close>

definition from_config :: "config \<Rightarrow> fs \<Rightarrow> 'b lsm_store result" where
  "from_config cfg f =
     (if memtable_max_mb cfg * 1000000 < 2 ^ 64
      then Ok (lsm_new (cfg_data_dir cfg) (commit_log_path cfg) (memtable_max_mb cfg * 1000000) f)
      else Panic ''attempt to multiply with overflow'')"

definition initialize_from_config :: "('b, 'z) lsm_env_scheme \<Rightarrow> config \<Rightarrow> (fs, 'b lsm_store) action" where
  "initialize_from_config E cfg f =
     (case from_config cfg f of
        Ok s \<Rightarrow> (case lsm_initialize E s of
                  (Ok _, s') \<Rightarrow> (Ok s', lsm_fs s')
                | (Err e, s') \<Rightarrow> (Err e, lsm_fs s')
                | (Panic p, s') \<Rightarrow> (Panic p, lsm_fs s'))
      | Err e \<Rightarrow> (Err e, f)
      | Panic p \<Rightarrow> (Panic p, f))"

section \<open>Runs of a node\<close>

text \<open>
  What a turn needs so that its transaction can be replayed: the identifier drawn is
  new, and the log it leaves can be read back.
\<close>

fun lasting :: "('b, 'z) lsm_env_scheme \<Rightarrow> uuid \<Rightarrow> 'b lsm_store \<Rightarrow> 'b lsm_store \<Rightarrow> proto_op \<Rightarrow> bool" where
  "lasting E u s s' (P_Set k v) \<longleftrightarrow>
     u \<notin> set (tx_ids s) \<and> log_replays E s'"
| "lasting E u s s' _ \<longleftrightarrow> True"

inductive node_run ::
    "('b, 'z) lsm_env_scheme \<Rightarrow> 'b lsm_store client_server \<Rightarrow> served list \<Rightarrow> 'b lsm_store client_server \<Rightarrow> bool"
  for E where
  node_done: "node_run E S [] S"
| node_internal:
    "lsm_internal E (cs_store S) s' \<Longrightarrow> history E (cs_store S) [] s' \<Longrightarrow>
     node_run E (S\<lparr>cs_store := s'\<rparr>) tr T \<Longrightarrow> node_run E S tr T"
| node_env: "env_step S S' \<Longrightarrow> node_run E S' tr T \<Longrightarrow> node_run E S tr T"
| node_turn:
    "cs_turn (lsm_get E) (lsm_transact E) u i S = (ev, S') \<Longrightarrow>
     \<forall>(j, q, r) \<in> set ev. storable (plain_tx E) q \<and> lasting E u (cs_store S) (cs_store S') q \<Longrightarrow>
     node_run E S' tr T \<Longrightarrow> node_run E S (ev @ tr) T"

lemma node_run_serve:
  "node_run E S tr T \<Longrightarrow>
   serve (lsm_internal E) (lsm_get E) (lsm_transact E) S tr T \<and> (\<forall>(j, q, r) \<in> set tr. storable (plain_tx E) q)"
proof (induction rule: node_run.induct)
  case (node_turn u i S ev S' tr T)
  then show ?case
    by (auto intro: serve.serve_turn)
qed (auto intro: serve.serve_done serve.serve_internal serve.serve_env)

text \<open>What a turn does to the store.\<close>

lemma handle_op_store:
  "snd (handle_op get transact u q c s) =
     (case q of
        P_Get k \<Rightarrow> snd (get k s)
      | P_Set k v \<Rightarrow> snd (transact (with_random_id u [operation_set k v]) s)
      | _ \<Rightarrow> s)"
  by (auto simp: handle_op_def split: proto_op.splits prod.splits result.splits option.splits)

lemma turn_store:
  assumes "cs_turn get transact u i S = (ev, S')"
  shows "cs_store S' = cs_store S \<and> ev = [] \<or> (\<exists>q c r. ev = [(i, q, r)] \<and> cs_store S' = snd (handle_op get transact u q c (cs_store S)))"
proof (cases "\<exists>c q P evs. i < length (conns S) \<and> conns S ! i = Some c \<and> proto_read (cproto c) (cin c) = Returned (Ok q) P evs")
  case True
  then obtain c q P evs where c: "i < length (conns S)" "conns S ! i = Some c"
      "proto_read (cproto c) (cin c) = Returned (Ok q) P evs"
    by blast
  let ?h = "handle_op get transact u q (c\<lparr>cproto := P, cin := evs\<rparr>) (cs_store S)"
  have "ev = [(i, q, told c (fst ?h))]" "cs_store S' = snd ?h"
    using assms c by (auto simp: cs_turn_def split: prod.splits)
  then show ?thesis by blast
next
  case False
  with assms show ?thesis
    by (auto simp: cs_turn_def split: if_splits option.splits outcome.splits result.splits)
qed

lemma turn_durable:
  assumes dur: "durable E (cs_store S) ls" and plain: "lsm_plain E (cs_store S)"
    and t: "cs_turn (lsm_get E) (lsm_transact E) u i S = (ev, S')"
    and ok: "\<forall>(j, q, r) \<in> set ev. storable (plain_tx E) q \<and> lasting E u (cs_store S) (cs_store S') q"
  shows "\<exists>ls'. durable E (cs_store S') ls'"
  using turn_store [OF t]
proof (elim disjE exE conjE)
  fix q c r
  assume ev: "ev = [(i, q, r)]" and s': "cs_store S' = snd (handle_op (lsm_get E) (lsm_transact E) u q c (cs_store S))"
  show ?thesis
  proof (cases q)
    case (P_Get k)
    with s' dur show ?thesis
      using lsm_kv.get_law [OF plain, of k] by (auto simp: handle_op_store)
  next
    case (P_Set k v)
    let ?tx = "with_random_id u [operation_set k v]"
    have l: "plain_tx E ?tx" "lasting E u (cs_store S) (cs_store S') q"
      using ok ev P_Set by auto
    then obtain b where b: "encode (line_codec E) (BeginTx ?tx) = Ok b"
      by (auto simp: plain_tx_def loggable_def)
    have "lsm_transact E ?tx (cs_store S) = (fst (lsm_transact E ?tx (cs_store S)), cs_store S')"
      using s' P_Set by (simp add: handle_op_store)
    with transact_durable [OF dur b] l(2) P_Set show ?thesis
      by (auto simp: with_random_id_def)
  qed (use s' dur in \<open>auto simp: handle_op_store\<close>)
qed (use dur in auto)

lemma node_run_durable:
  "node_run E S tr T \<Longrightarrow> durable E (cs_store S) ls \<Longrightarrow> lsm_plain E (cs_store S) \<Longrightarrow> \<exists>ls'. durable E (cs_store T) ls'"
proof (induction arbitrary: ls rule: node_run.induct)
  case (node_internal S s' tr T)
  then obtain ls' where "durable E s' ls'"
    using history_durable by blast
  with node_internal show ?case
    using lsm_kv.internal_law [OF node_internal.prems(2) node_internal.hyps(1)] by simp
next
  case (node_env S S' tr T)
  then show ?case using env_step_store [OF node_env.hyps(1)] by simp
next
  case (node_turn u i S ev S' tr T)
  then obtain ls' where "durable E (cs_store S') ls'"
    using turn_durable by blast
  moreover have "lsm_plain E (cs_store S')"
    using lsm_kv.turn_answered [OF node_turn.prems(2) node_turn.hyps(1)] node_turn.hyps(2) by fastforce
  ultimately show ?case using node_turn.IH by blast
qed blast

section \<open>Properties\<close>




end
