(* ===== verification/Cluster_Server.thy ===== *)
theory Cluster_Server
  imports Proto Utils
begin

text \<open>
  \<^verbatim>\<open>src/server/cluster.rs\<close>: a connection between nodes, which so far echoes what it receives.
  The socket is the list of what the successive reads yield; an empty piece is what a read
  yields at the orderly end of the stream.
\<close>

section \<open>A cluster connection\<close>

datatype cluster_read = Piece bytes | Read_failed io_kind

text \<open>The loop; no result means that the connection is still open and waits for the next read.\<close>

fun cluster_loop :: "rstring \<Rightarrow> cluster_read list \<Rightarrow> wsock \<Rightarrow> unit result option \<times> wsock" where
  "cluster_loop i [] w = (None, w)"
| "cluster_loop i (Read_failed k # evs) w =
     (if k = UnexpectedEof then (Some (Ok ()), w)
      else (Some (Err (Err_E (bs ''session='' @ i @ bs '' error reading from socket''))), w))"
| "cluster_loop i (Piece b # evs) w =
     (case sbind (sock_write (bs ''session='' @ i @ bs '' error writing to socket'') b)
             (\<lambda>_. sock_flush (bs ''session='' @ i @ bs '' error flusing stream'')) w of
        (Ok _, w') \<Rightarrow> cluster_loop i evs w'
      | (Err e, w') \<Rightarrow> (Some (Err e), w')
      | (Panic p, w') \<Rightarrow> (Some (Panic p), w'))"

definition cluster_handle_conn ::
    "bool \<Rightarrow> bool \<Rightarrow> uuid \<Rightarrow> cluster_read list \<Rightarrow> wsock \<Rightarrow> unit result option \<times> wsock" where
  "cluster_handle_conn accepted handshake u evs w =
     (let i = session_id u
      in if \<not> accepted then (Some (Err (Err_E (bs ''session='' @ i @ bs '' error accepting tls''))), w)
         else if \<not> handshake then (Some (Err (Err_E (bs ''session='' @ i @ bs '' error accepting stream''))), w)
         else cluster_loop i evs w)"

section \<open>Properties\<close>

lemma cluster_loop_pieces:
  "wsched w = [] \<Longrightarrow> wflushed w = wout w \<Longrightarrow>
   cluster_loop i (map Piece cs @ evs) w = cluster_loop i evs (w\<lparr>wout := wout w @ concat cs, wflushed := wout w @ concat cs\<rparr>)"
proof (induction cs arbitrary: w)
  case Nil
  then show ?case by (cases w) simp
qed (simp add: sbind_def sock_ok)

lemma cluster_loop_prefix:
  "\<exists>n. wout (snd (cluster_loop i (map Piece cs) w)) = wout w @ take n (concat cs)"
proof (induction cs arbitrary: w)
  case (Cons c cs)
  let ?act = "sbind (sock_write (bs ''session='' @ i @ bs '' error writing to socket'') c)
             (\<lambda>_. sock_flush (bs ''session='' @ i @ bs '' error flusing stream'')) w"
  have "(\<exists>w'. ?act = (Ok (), w') \<and> wout w' = wout w @ c) \<or>
      (\<exists>e w' n. ?act = (Err e, w') \<and> wout w' = wout w @ take n c)"
  proof (cases "wsched w")
    case (Cons a r)
    then show ?thesis
      by (cases a; cases r; cases "hd r") (auto simp: sbind_def sock_write_def sock_flush_def intro: exI [of _ "length c"])
  qed (simp add: sbind_def sock_ok)
  then show ?case
  proof (elim disjE exE conjE)
    fix w' assume a: "?act = (Ok (), w')" "wout w' = wout w @ c"
    obtain n where "wout (snd (cluster_loop i (map Piece cs) w')) = wout w' @ take n (concat cs)"
      using Cons.IH by blast
    with a show ?thesis
      by (intro exI [of _ "length c + n"]) simp
  next
    fix e w' n assume a: "?act = (Err e, w')" "wout w' = wout w @ take n c"
    then show ?thesis
      by (intro exI [of _ "min n (length c)"]) (simp add: min_def)
  qed
qed simp

text \<open>
  C37: A cluster connection echoes: without write faults everything received so far was written
  back and flushed, in order, however it was cut into pieces; when the peer is lost the handler
  ends without an error; and under any schedule of write faults what was written is a prefix of
  what was received.
\<close>

theorem cluster_echoes:
  assumes "wsched w = []" and "wout w = []" and "wflushed w = []"
  shows "cluster_handle_conn True True u (map Piece cs @ [Read_failed UnexpectedEof]) w =
       (Some (Ok ()), w\<lparr>wout := concat cs, wflushed := concat cs\<rparr>) \<and>
     (\<forall>f. \<exists>n. wout (snd (cluster_handle_conn True True u (map Piece cs) (w\<lparr>wsched := f\<rparr>))) = take n (concat cs))"
proof
  show "cluster_handle_conn True True u (map Piece cs @ [Read_failed UnexpectedEof]) w =
       (Some (Ok ()), w\<lparr>wout := concat cs, wflushed := concat cs\<rparr>)"
    using cluster_loop_pieces [OF assms(1), of "session_id u" cs] assms by (simp add: cluster_handle_conn_def Let_def)
  show "\<forall>f. \<exists>n. wout (snd (cluster_handle_conn True True u (map Piece cs) (w\<lparr>wsched := f\<rparr>))) = take n (concat cs)"
  proof
    fix f
    show "\<exists>n. wout (snd (cluster_handle_conn True True u (map Piece cs) (w\<lparr>wsched := f\<rparr>))) = take n (concat cs)"
      using cluster_loop_prefix [of "session_id u" cs "w\<lparr>wsched := f\<rparr>"] assms(2) by (simp add: cluster_handle_conn_def Let_def)
  qed
qed

theorem cluster_echoes_witness:
  "cluster_handle_conn True True 7 (map Piece [bs ''he'', bs ''y''] @ [Read_failed UnexpectedEof])
     \<lparr>wout = [], wflushed = [], wsched = []\<rparr> =
   (Some (Ok ()), \<lparr>wout = bs ''hey'', wflushed = bs ''hey'', wsched = []\<rparr>)"
proof -
  have "concat [bs ''he'', bs ''y''] = bs ''hey''"
    by code_simp
  then show ?thesis
    using cluster_echoes [of "\<lparr>wout = [], wflushed = [], wsched = []\<rparr>" 7 "[bs ''he'', bs ''y'']"]
    by simp
qed

text \<open>
  After an orderly close by the peer the handler does not end: the reads then yield empty
  pieces at once, and after any number of them the loop goes on, writing nothing.
\<close>

theorem cluster_close_spins:
  assumes "wsched w = []" and "wflushed w = wout w"
  shows "cluster_handle_conn True True u (map Piece cs @ replicate n (Piece [])) w =
    (None, w\<lparr>wout := wout w @ concat cs, wflushed := wout w @ concat cs\<rparr>)"
proof -
  have "map Piece cs @ replicate n (Piece []) = map Piece (cs @ replicate n []) @ []"
    by (simp add: map_replicate)
  then have "cluster_handle_conn True True u (map Piece cs @ replicate n (Piece [])) w =
      cluster_loop (session_id u) (map Piece (cs @ replicate n []) @ []) w"
    by (simp add: cluster_handle_conn_def Let_def)
  also have "\<dots> = (None, w\<lparr>wout := wout w @ concat cs, wflushed := wout w @ concat cs\<rparr>)"
    unfolding cluster_loop_pieces [OF assms] by simp
  finally show ?thesis .
qed

theorem cluster_close_spins_witness:
  "cluster_handle_conn True True 7 (map Piece [bs ''x''] @ replicate 1000 (Piece []))
     \<lparr>wout = [], wflushed = [], wsched = []\<rparr> = (None, \<lparr>wout = bs ''x'', wflushed = bs ''x'', wsched = []\<rparr>)"
  using cluster_close_spins [of "\<lparr>wout = [], wflushed = [], wsched = []\<rparr>" 7 "[bs ''x'']" 1000] by simp

end
