(* ===== verification/Shutdown.thy ===== *)
theory Shutdown
  imports Node Cluster_Server
begin

text \<open>
  Start and shutdown of the whole program: \<^verbatim>\<open>Server\<close> of \<^verbatim>\<open>src/server/cluster.rs\<close>, the end of
  \<^verbatim>\<open>ClientServer\<close>, the shutdown task of the store and \<^verbatim>\<open>run\<close> of \<^verbatim>\<open>src/main.rs\<close>.  The four
  tasks are step relations over a state with their program counters and the messages in their
  channels; receiving from a channel whose sender is gone returns at once, and sending to a
  channel whose receiver is gone is an error, which the code turns into a panic.  Waiting may
  end by a timeout, which is a separate relation.
\<close>

section \<open>The cluster server\<close>

record 's server =
  svr_certs :: "bytes list"
  svr_keys :: "bytes list"
  svr_addr :: "rstring option"
  client_svr_addr :: "rstring option"
  start_client_server :: bool
  svr_store :: 's

definition server_new :: "bytes list \<Rightarrow> bytes list \<Rightarrow> 's \<Rightarrow> 's server" where
  "server_new cts ks s =
     \<lparr>svr_certs = cts, svr_keys = ks, svr_addr = None, client_svr_addr = None,
      start_client_server = True, svr_store = s\<rparr>"

definition server_set_addr :: "rstring \<Rightarrow> 's server \<Rightarrow> 's server" where
  "server_set_addr a S = S\<lparr>svr_addr := Some a\<rparr>"

definition set_client_server_addr :: "rstring \<Rightarrow> 's server \<Rightarrow> 's server" where
  "set_client_server_addr a S = S\<lparr>client_svr_addr := Some a\<rparr>"

definition set_start_client_server :: "bool \<Rightarrow> 's server \<Rightarrow> 's server" where
  "set_start_client_server b S = S\<lparr>start_client_server := b\<rparr>"

text \<open>Setting up the listener, as for clients but on the cluster address.\<close>

definition server_listen ::
    "(bytes list \<Rightarrow> bytes \<Rightarrow> bool) \<Rightarrow> (rstring \<Rightarrow> io_kind option) \<Rightarrow> config \<Rightarrow> 's server \<Rightarrow> unit result" where
  "server_listen tls_ok bind cfg S =
     (case svr_keys S of
        [] \<Rightarrow> Panic ''index out of bounds''
      | k # ks \<Rightarrow>
          if \<not> tls_ok (svr_certs S) k then Err (Err_E (bs ''tls config error''))
          else
            (let addr = (case svr_addr S of Some a \<Rightarrow> a | None \<Rightarrow> get_cluster_addr cfg)
             in case bind addr of Some e \<Rightarrow> Err (Err_IO e) | None \<Rightarrow> Ok ()))"

text \<open>The client server that \<^verbatim>\<open>start\<close> spawns, if any.\<close>

definition spawn_client_server :: "'s server \<Rightarrow> 's client_server option" where
  "spawn_client_server S =
     (if start_client_server S then
        (let c = client_server_new (svr_certs S) (svr_keys S) (svr_store S)
         in Some (case client_svr_addr S of Some a \<Rightarrow> cs_set_addr a c | None \<Rightarrow> c))
      else None)"

section \<open>The state of the program\<close>

datatype main_pc = M_Select | M_Confirm | M_Wait | M_Exit "unit result"

datatype svr_pc = S_Start | S_Select | S_Wait | S_Send | S_End | S_Panic

datatype cl_pc = C_Off | C_Start | C_Loop | C_Send | C_End | C_Panic

datatype st_pc = T_Wait | T_End | T_Panic

record 's sys =
  main_pc :: main_pc
  svr_pc :: svr_pc
  cl_pc :: cl_pc
  st_pc :: st_pc
  sig :: bool
  sig_client :: bool
  cl_done :: bool
  svr_done :: bool
  store_req :: bool
  signalled :: bool
  sys_store :: 's

text \<open>What the set-up of the two servers comes to, and the shutdown of the store.\<close>

record 's sys_env =
  up_cluster :: "unit result"
  up_client :: "unit result"
  flush_store :: "('s, unit) action"

definition sys_new :: "bool \<Rightarrow> 's \<Rightarrow> 's sys" where
  "sys_new with_client s =
     \<lparr>main_pc = M_Select, svr_pc = S_Start, cl_pc = (if with_client then C_Start else C_Off), st_pc = T_Wait,
      sig = False, sig_client = False, cl_done = False, svr_done = False, store_req = False,
      signalled = False, sys_store = s\<rparr>"

text \<open>The program of a server on the LSM store.\<close>

definition node_env ::
    "('b, 'z) lsm_env_scheme \<Rightarrow> (bytes list \<Rightarrow> bytes \<Rightarrow> bool) \<Rightarrow> (rstring \<Rightarrow> io_kind option) \<Rightarrow> config \<Rightarrow>
     'b lsm_store server \<Rightarrow> 'b lsm_store sys_env" where
  "node_env E tls_ok bind cfg S =
     \<lparr>up_cluster = server_listen tls_ok bind cfg S,
      up_client = (case spawn_client_server S of Some c \<Rightarrow> fst (cs_listen tls_ok bind cfg c) | None \<Rightarrow> Ok ()),
      flush_store = lsm_shutdown E\<rparr>"

definition svr_gone :: "'s sys \<Rightarrow> bool" where
  "svr_gone s \<longleftrightarrow> svr_pc s = S_End \<or> svr_pc s = S_Panic"

definition cl_gone :: "'s sys \<Rightarrow> bool" where
  "cl_gone s \<longleftrightarrow> cl_pc s = C_End \<or> cl_pc s = C_Panic"

text \<open>\<^verbatim>\<open>server_start\<close> owns one end of each channel to the client server until it returns.\<close>

definition server_start_returned :: "'s sys \<Rightarrow> bool" where
  "server_start_returned s \<longleftrightarrow> svr_pc s \<in> {S_Send, S_End, S_Panic}"

definition exited :: "'s sys \<Rightarrow> bool" where
  "exited s \<longleftrightarrow> (\<exists>r. main_pc s = M_Exit r)"

section \<open>The steps of the tasks\<close>

text \<open>\<^verbatim>\<open>run\<close>, after everything was started.\<close>

inductive main_step :: "'s sys \<Rightarrow> 's sys \<Rightarrow> bool" where
  m_signal: "main_pc s = M_Select \<Longrightarrow> \<not> svr_gone s \<Longrightarrow>
    main_step s (s\<lparr>sig := True, store_req := True, signalled := True, main_pc := M_Confirm\<rparr>)"
| m_signal_late: "main_pc s = M_Select \<Longrightarrow> svr_gone s \<Longrightarrow>
    main_step s (s\<lparr>signalled := True, main_pc := M_Exit (Panic ''error sending sigint shutdown signal'')\<rparr>)"
| m_server: "main_pc s = M_Select \<Longrightarrow> svr_done s \<or> svr_gone s \<Longrightarrow>
    main_step s (s\<lparr>svr_done := False, main_pc := M_Exit (Ok ())\<rparr>)"
| m_confirmed: "main_pc s = M_Confirm \<Longrightarrow> st_pc s \<noteq> T_Wait \<Longrightarrow> main_step s (s\<lparr>main_pc := M_Wait\<rparr>)"
| m_server_down: "main_pc s = M_Wait \<Longrightarrow> svr_done s \<or> svr_gone s \<Longrightarrow>
    main_step s (s\<lparr>svr_done := False, main_pc := M_Exit (Ok ())\<rparr>)"

inductive main_timeout :: "'s sys \<Rightarrow> 's sys \<Rightarrow> bool" where
  mt_confirm: "main_pc s = M_Confirm \<Longrightarrow> st_pc s = T_Wait \<Longrightarrow>
    main_timeout s (s\<lparr>main_pc := M_Exit (Err Err_Timeout)\<rparr>)"
| mt_server: "main_pc s = M_Wait \<Longrightarrow> \<not> (svr_done s \<or> svr_gone s) \<Longrightarrow>
    main_timeout s (s\<lparr>main_pc := M_Exit (Err (Err_E (bs ''server failed to shutdown within 5s timeout'')))\<rparr>)"

text \<open>\<^verbatim>\<open>Server::start\<close> with \<^verbatim>\<open>server_start\<close>.\<close>

inductive server_step :: "'s sys_env \<Rightarrow> 's sys \<Rightarrow> 's sys \<Rightarrow> bool" for E where
  s_listen: "svr_pc s = S_Start \<Longrightarrow>
    server_step E s (s\<lparr>svr_pc := (case up_cluster E of Ok _ \<Rightarrow> S_Select | Err _ \<Rightarrow> S_Send | Panic _ \<Rightarrow> S_Panic)\<rparr>)"
| s_signal: "svr_pc s = S_Select \<Longrightarrow> sig s \<Longrightarrow>
    server_step E s
      (if cl_pc s = C_Off then s\<lparr>sig := False, svr_pc := S_Send\<rparr>
       else if cl_gone s then s\<lparr>sig := False, svr_pc := S_Panic\<rparr>
       else s\<lparr>sig := False, sig_client := True, svr_pc := S_Wait\<rparr>)"
| s_client_first: "svr_pc s = S_Select \<Longrightarrow> cl_done s \<or> cl_gone s \<Longrightarrow>
    server_step E s (s\<lparr>cl_done := False, svr_pc := S_Send\<rparr>)"
| s_client_down: "svr_pc s = S_Wait \<Longrightarrow> cl_done s \<or> cl_gone s \<Longrightarrow>
    server_step E s (s\<lparr>cl_done := False, svr_pc := S_Send\<rparr>)"
| s_finish: "svr_pc s = S_Send \<Longrightarrow> server_step E s (s\<lparr>svr_done := True, svr_pc := S_End\<rparr>)"

inductive server_timeout :: "'s sys \<Rightarrow> 's sys \<Rightarrow> bool" where
  st_client: "svr_pc s = S_Wait \<Longrightarrow> \<not> (cl_done s \<or> cl_gone s) \<Longrightarrow> server_timeout s (s\<lparr>svr_pc := S_Send\<rparr>)"

text \<open>
  \<^verbatim>\<open>ClientServer::start\<close> with \<^verbatim>\<open>server_start\<close>; whether a client is connected when the signal
  comes decides between the broadcast and the panic (see \<^const>\<open>cs_shutdown\<close>).
\<close>

inductive client_step :: "'s sys_env \<Rightarrow> 's sys \<Rightarrow> 's sys \<Rightarrow> bool" for E where
  c_listen: "cl_pc s = C_Start \<Longrightarrow>
    client_step E s (s\<lparr>cl_pc := (case up_client E of Ok _ \<Rightarrow> C_Loop | Err _ \<Rightarrow> C_Send | Panic _ \<Rightarrow> C_Panic)\<rparr>)"
| c_shutdown: "cl_pc s = C_Loop \<Longrightarrow> sig_client s \<or> server_start_returned s \<Longrightarrow>
    client_step E s (s\<lparr>sig_client := False, cl_pc := (if connected then C_Send else C_Panic)\<rparr>)"
| c_finish: "cl_pc s = C_Send \<Longrightarrow>
    client_step E s (if server_start_returned s then s\<lparr>cl_pc := C_Panic\<rparr> else s\<lparr>cl_done := True, cl_pc := C_End\<rparr>)"

text \<open>The shutdown task of the store.\<close>

inductive store_step :: "'s sys_env \<Rightarrow> 's sys \<Rightarrow> 's sys \<Rightarrow> bool" for E where
  t_flush: "st_pc s = T_Wait \<Longrightarrow> store_req s \<Longrightarrow> flush_store E (sys_store s) = (r, s') \<Longrightarrow>
    store_step E s (s\<lparr>store_req := False, sys_store := s', st_pc := (if r = Ok () then T_End else T_Panic)\<rparr>)"

text \<open>The program: nothing happens any more once \<^verbatim>\<open>main\<close> has returned.\<close>

inductive prog_step :: "'s sys_env \<Rightarrow> 's sys \<Rightarrow> 's sys \<Rightarrow> bool" for E where
  p_main: "main_step s t \<Longrightarrow> \<not> exited s \<Longrightarrow> prog_step E s t"
| p_server: "server_step E s t \<Longrightarrow> \<not> exited s \<Longrightarrow> prog_step E s t"
| p_client: "client_step E s t \<Longrightarrow> \<not> exited s \<Longrightarrow> prog_step E s t"
| p_store: "store_step E s t \<Longrightarrow> \<not> exited s \<Longrightarrow> prog_step E s t"

inductive timeout_step :: "'s sys \<Rightarrow> 's sys \<Rightarrow> bool" where
  p_main_timeout: "main_timeout s t \<Longrightarrow> \<not> exited s \<Longrightarrow> timeout_step s t"
| p_server_timeout: "server_timeout s t \<Longrightarrow> \<not> exited s \<Longrightarrow> timeout_step s t"

text \<open>Runs, with the number of their steps.\<close>

inductive prog_run :: "'s sys_env \<Rightarrow> 's sys \<Rightarrow> nat \<Rightarrow> 's sys \<Rightarrow> bool" for E where
  run_start: "prog_run E s 0 s"
| run_step: "prog_run E s n t \<Longrightarrow> prog_step E t u \<Longrightarrow> prog_run E s (Suc n) u"
| run_timeout: "prog_run E s n t \<Longrightarrow> timeout_step t u \<Longrightarrow> prog_run E s (Suc n) u"

section \<open>Termination\<close>

fun main_rank :: "main_pc \<Rightarrow> nat" where
  "main_rank M_Select = 3"
| "main_rank M_Confirm = 2"
| "main_rank M_Wait = 1"
| "main_rank (M_Exit r) = 0"

fun svr_rank :: "svr_pc \<Rightarrow> nat" where
  "svr_rank S_Start = 4"
| "svr_rank S_Select = 3"
| "svr_rank S_Wait = 2"
| "svr_rank S_Send = 1"
| "svr_rank S_End = 0"
| "svr_rank S_Panic = 0"

fun cl_rank :: "cl_pc \<Rightarrow> nat" where
  "cl_rank C_Start = 3"
| "cl_rank C_Loop = 2"
| "cl_rank C_Send = 1"
| "cl_rank _ = 0"

fun st_rank :: "st_pc \<Rightarrow> nat" where
  "st_rank T_Wait = 1"
| "st_rank _ = 0"

definition steps_left :: "'s sys \<Rightarrow> nat" where
  "steps_left s = main_rank (main_pc s) + svr_rank (svr_pc s) + cl_rank (cl_pc s) + st_rank (st_pc s)"

lemma steps_left_new: "steps_left (sys_new b s) \<le> 11"
  by (simp add: steps_left_def sys_new_def)

lemma main_step_less: "main_step s t \<Longrightarrow> steps_left t < steps_left s"
  by (induction rule: main_step.induct) (simp_all add: steps_left_def)

lemma server_step_less: "server_step E s t \<Longrightarrow> steps_left t < steps_left s"
  by (induction rule: server_step.induct) (simp_all add: steps_left_def split: result.splits)

lemma client_step_less: "client_step E s t \<Longrightarrow> steps_left t < steps_left s"
  by (induction rule: client_step.induct) (simp_all add: steps_left_def split: result.splits)

lemma store_step_less: "store_step E s t \<Longrightarrow> steps_left t < steps_left s"
  by (induction rule: store_step.induct) (simp add: steps_left_def)

lemma prog_step_less: "prog_step E s t \<Longrightarrow> steps_left t < steps_left s"
  by (induction rule: prog_step.induct)
    (simp_all add: main_step_less server_step_less client_step_less store_step_less)

lemma timeout_step_less: "timeout_step s t \<Longrightarrow> steps_left t < steps_left s"
  by (induction rule: timeout_step.induct)
    (auto simp: steps_left_def elim!: main_timeout.cases server_timeout.cases)

lemma prog_run_bound: "prog_run E s n t \<Longrightarrow> n + steps_left t \<le> steps_left s"
  by (induction rule: prog_run.induct) (auto dest!: prog_step_less timeout_step_less)

section \<open>Invariants of the tasks\<close>

text \<open>What the steps and the timeouts of every task keep holds in every run.\<close>

locale task_invariant =
  fixes E :: "'s sys_env" and I :: "'s sys \<Rightarrow> bool"
  assumes main_keeps: "main_step s t \<Longrightarrow> I s \<Longrightarrow> I t"
    and server_keeps: "server_step E s t \<Longrightarrow> I s \<Longrightarrow> I t"
    and client_keeps: "client_step E s t \<Longrightarrow> I s \<Longrightarrow> I t"
    and store_keeps: "store_step E s t \<Longrightarrow> I s \<Longrightarrow> I t"
    and main_timeout_keeps: "main_timeout s t \<Longrightarrow> I s \<Longrightarrow> I t"
    and server_timeout_keeps: "server_timeout s t \<Longrightarrow> I s \<Longrightarrow> I t"
begin

lemma prog_step_keeps: "prog_step E s t \<Longrightarrow> I s \<Longrightarrow> I t"
  by (induction rule: prog_step.induct) (simp_all add: main_keeps server_keeps client_keeps store_keeps)

lemma timeout_step_keeps: "timeout_step s t \<Longrightarrow> I s \<Longrightarrow> I t"
  by (induction rule: timeout_step.induct) (simp_all add: main_timeout_keeps server_timeout_keeps)

lemma prog_run_keeps: "prog_run E s n t \<Longrightarrow> I s \<Longrightarrow> I t"
  by (induction rule: prog_run.induct) (auto dest: prog_step_keeps timeout_step_keeps)

end

section \<open>No deadlock\<close>

text \<open>How the messages and the program counters of the tasks agree.\<close>

definition hand_over :: "'s sys \<Rightarrow> bool" where
  "hand_over s \<longleftrightarrow>
     (main_pc s \<in> {M_Confirm, M_Wait} \<longrightarrow> (sig s \<or> svr_pc s \<notin> {S_Start, S_Select}) \<and> signalled s) \<and>
     (main_pc s = M_Confirm \<longrightarrow> store_req s \<or> st_pc s \<noteq> T_Wait) \<and>
     (main_pc s = M_Wait \<longrightarrow> st_pc s \<noteq> T_Wait) \<and>
     (main_pc s = M_Exit (Ok ()) \<and> signalled s \<longrightarrow> st_pc s \<noteq> T_Wait) \<and>
     (main_pc s = M_Select \<longrightarrow> \<not> signalled s \<and> \<not> store_req s \<and> st_pc s = T_Wait) \<and>
     (svr_pc s = S_Wait \<longrightarrow> cl_pc s \<noteq> C_Off \<and> (sig_client s \<or> cl_pc s \<notin> {C_Start, C_Loop}))"

lemma hand_over_new: "hand_over (sys_new b s)"
  by (simp add: hand_over_def sys_new_def)

interpretation ho: task_invariant E hand_over
  for E :: "'s sys_env"
proof
  fix s t :: "'s sys"
  show "main_step s t \<Longrightarrow> hand_over s \<Longrightarrow> hand_over t"
    by (induction rule: main_step.induct) (auto simp: hand_over_def svr_gone_def)
  show "server_step E s t \<Longrightarrow> hand_over s \<Longrightarrow> hand_over t"
    by (induction rule: server_step.induct) (auto simp: hand_over_def cl_gone_def split: result.splits)
  show "client_step E s t \<Longrightarrow> hand_over s \<Longrightarrow> hand_over t"
    by (induction rule: client_step.induct) (auto simp: hand_over_def split: result.splits)
  show "store_step E s t \<Longrightarrow> hand_over s \<Longrightarrow> hand_over t"
    by (induction rule: store_step.induct) (auto simp: hand_over_def)
  show "main_timeout s t \<Longrightarrow> hand_over s \<Longrightarrow> hand_over t"
    by (induction rule: main_timeout.induct) (auto simp: hand_over_def)
  show "server_timeout s t \<Longrightarrow> hand_over s \<Longrightarrow> hand_over t"
    by (induction rule: server_timeout.induct) (auto simp: hand_over_def)
qed

text \<open>The client server can always move on once its server waits for it or is gone.\<close>

lemma client_moves:
  assumes "cl_pc s \<in> {C_Start, C_Loop, C_Send}" and "cl_pc s = C_Loop \<Longrightarrow> sig_client s \<or> server_start_returned s"
  shows "\<exists>t. client_step E s t"
  using assms by (auto intro: client_step.intros)

lemma server_moves:
  assumes "hand_over s" and "\<not> svr_gone s" and "main_pc s \<in> {M_Confirm, M_Wait}"
  shows "\<exists>t. server_step E s t \<or> client_step E s t"
proof (cases "svr_pc s")
  case S_Start
  then show ?thesis by (blast intro: server_step.s_listen)
next
  case S_Select
  with assms have "sig s" by (auto simp: hand_over_def)
  with S_Select show ?thesis by (blast intro: server_step.s_signal)
next
  case S_Wait
  show ?thesis
  proof (cases "cl_done s \<or> cl_gone s")
    case True
    with S_Wait show ?thesis by (blast intro: server_step.s_client_down)
  next
    case False
    with S_Wait assms(1) have "cl_pc s \<in> {C_Start, C_Loop, C_Send}" "cl_pc s = C_Loop \<Longrightarrow> sig_client s"
      by (cases "cl_pc s"; auto simp: hand_over_def cl_gone_def)+
    then show ?thesis using client_moves [of s E] by blast
  qed
next
  case S_Send
  then show ?thesis by (blast intro: server_step.s_finish)
qed (use assms(2) in \<open>simp_all add: svr_gone_def\<close>)

lemma no_deadlock:
  assumes "hand_over s" and "\<not> exited s" and "main_pc s \<noteq> M_Select"
  shows "\<exists>t. prog_step E s t"
proof (cases "main_pc s")
  case M_Confirm
  show ?thesis
  proof (cases "st_pc s = T_Wait")
    case True
    with M_Confirm assms(1) have "store_req s" by (simp add: hand_over_def)
    with True assms(2) show ?thesis
      by (metis p_store prod.exhaust store_step.t_flush)
  next
    case False
    with M_Confirm assms(2) show ?thesis by (blast intro: p_main main_step.m_confirmed)
  qed
next
  case M_Wait
  show ?thesis
  proof (cases "svr_gone s")
    case True
    with M_Wait assms(2) show ?thesis by (blast intro: p_main main_step.m_server_down)
  next
    case False
    with server_moves [OF assms(1) False, of E] M_Wait assms(2) show ?thesis
      by (blast intro: p_server p_client)
  qed
qed (use assms in \<open>simp_all add: exited_def\<close>)

section \<open>What the store went through\<close>

text \<open>The store is flushed once, from the state it had.\<close>

definition flushed_from :: "'s sys_env \<Rightarrow> 's \<Rightarrow> 's sys \<Rightarrow> bool" where
  "flushed_from E st s \<longleftrightarrow>
     (case st_pc s of
        T_Wait \<Rightarrow> sys_store s = st
      | T_End \<Rightarrow> flush_store E st = (Ok (), sys_store s)
      | T_Panic \<Rightarrow> fst (flush_store E st) \<noteq> Ok () \<and> sys_store s = snd (flush_store E st))"

lemma flushed_same:
  "sys_store t = sys_store s \<Longrightarrow> st_pc t = st_pc s \<Longrightarrow> flushed_from E st s \<Longrightarrow> flushed_from E st t"
  by (simp add: flushed_from_def split: st_pc.splits)

interpretation ff: task_invariant E "flushed_from E st"
  for E :: "'s sys_env" and st
proof
  fix s t :: "'s sys"
  show "main_step s t \<Longrightarrow> flushed_from E st s \<Longrightarrow> flushed_from E st t"
    by (induction rule: main_step.induct) (simp_all add: flushed_from_def split: st_pc.splits)
  show "server_step E s t \<Longrightarrow> flushed_from E st s \<Longrightarrow> flushed_from E st t"
    by (induction rule: server_step.induct) (rule flushed_same; simp)+
  show "client_step E s t \<Longrightarrow> flushed_from E st s \<Longrightarrow> flushed_from E st t"
    by (induction rule: client_step.induct) (rule flushed_same; simp)+
  show "store_step E s t \<Longrightarrow> flushed_from E st s \<Longrightarrow> flushed_from E st t"
    by (auto simp: flushed_from_def elim!: store_step.cases)
  show "main_timeout s t \<Longrightarrow> flushed_from E st s \<Longrightarrow> flushed_from E st t"
    by (induction rule: main_timeout.induct) (simp_all add: flushed_from_def split: st_pc.splits)
  show "server_timeout s t \<Longrightarrow> flushed_from E st s \<Longrightarrow> flushed_from E st t"
    by (induction rule: server_timeout.induct) (simp add: flushed_from_def split: st_pc.splits)
qed

text \<open>Without a signal the program only returns without an error.\<close>

definition quiet_exit :: "'s sys \<Rightarrow> bool" where
  "quiet_exit s \<longleftrightarrow> signalled s \<or> main_pc s \<in> {M_Select, M_Exit (Ok ())}"

interpretation qe: task_invariant E quiet_exit
  for E :: "'s sys_env"
proof
  fix s t :: "'s sys"
  show "main_step s t \<Longrightarrow> quiet_exit s \<Longrightarrow> quiet_exit t"
    by (induction rule: main_step.induct) (auto simp: quiet_exit_def)
  show "main_timeout s t \<Longrightarrow> quiet_exit s \<Longrightarrow> quiet_exit t"
    by (induction rule: main_timeout.induct) (auto simp: quiet_exit_def)
qed (auto simp: quiet_exit_def split: if_splits
      elim!: server_step.cases client_step.cases store_step.cases server_timeout.cases)

section \<open>Properties\<close>

text \<open>
  C6: The shutdown terminates: however the tasks are interleaved, whatever fails, and with or
  without timeouts, a run of the program has at most eleven steps; and once the program was told
  to stop it is never stuck: as long as \<^verbatim>\<open>main\<close> has not returned some task can take a step
  without waiting for a timeout.
\<close>

theorem shutdown_terminates:
  assumes "prog_run E (sys_new b st) n t"
  shows "n \<le> 11 \<and> (exited t \<or> main_pc t = M_Select \<or> (\<exists>u. prog_step E t u))"
  using prog_run_bound [OF assms] steps_left_new [of b st]
    no_deadlock [OF ho.prog_run_keeps [OF assms hand_over_new], of E] by auto

text \<open>
  C18: When the program was stopped by a signal and returns without an error, the shutdown of the
  store has run to its end before: it flushed the memtable and wrote the filters, or it failed
  and its task panicked.
\<close>

theorem exit_after_store_shutdown:
  assumes "prog_run E (sys_new b st) n t" and "main_pc t = M_Exit (Ok ())" and "signalled t"
  shows "st_pc t = T_End \<and> flush_store E st = (Ok (), sys_store t) \<or>
    st_pc t = T_Panic \<and> fst (flush_store E st) \<noteq> Ok () \<and> sys_store t = snd (flush_store E st)"
proof -
  have "flushed_from E st (sys_new b st)"
    by (simp add: flushed_from_def sys_new_def)
  from ff.prog_run_keeps [OF assms(1) this] ho.prog_run_keeps [OF assms(1) hand_over_new] assms(2,3)
  show ?thesis
    by (cases "st_pc t") (auto simp: flushed_from_def hand_over_def)
qed

text \<open>An orderly shutdown with a connected client, step by step.\<close>

abbreviation at ::
    "main_pc \<Rightarrow> svr_pc \<Rightarrow> cl_pc \<Rightarrow> st_pc \<Rightarrow> bool \<Rightarrow> bool \<Rightarrow> bool \<Rightarrow> bool \<Rightarrow> bool \<Rightarrow> bool \<Rightarrow> 's \<Rightarrow> 's sys" where
  "at m v c k sg sc cd sd rq sn x \<equiv>
     \<lparr>main_pc = m, svr_pc = v, cl_pc = c, st_pc = k, sig = sg, sig_client = sc, cl_done = cd, svr_done = sd,
      store_req = rq, signalled = sn, sys_store = x\<rparr>"

lemma orderly_start:
  assumes up: "up_cluster E = Ok ()" "up_client E = Ok ()" and f: "flush_store E st = (r, st')"
  shows "prog_run E (sys_new True st) 5
    (at M_Wait S_Select C_Loop (if r = Ok () then T_End else T_Panic) True False False False False True st')"
proof -
  let ?k = "if r = Ok () then T_End else T_Panic"
  have 1: "prog_step E (sys_new True st) (at M_Select S_Select C_Start T_Wait False False False False False False st)"
    using p_server [OF s_listen [of "sys_new True st" E]] up by (simp add: sys_new_def exited_def)
  have 2: "prog_step E (at M_Select S_Select C_Start T_Wait False False False False False False st)
      (at M_Select S_Select C_Loop T_Wait False False False False False False st)"
    using p_client [OF c_listen [of "at M_Select S_Select C_Start T_Wait False False False False False False st" E]] up
    by (simp add: exited_def)
  have 3: "prog_step E (at M_Select S_Select C_Loop T_Wait False False False False False False st)
      (at M_Confirm S_Select C_Loop T_Wait True False False False True True st)"
    using p_main [OF m_signal [of "at M_Select S_Select C_Loop T_Wait False False False False False False st"], of E]
    by (simp add: exited_def svr_gone_def)
  have 4: "prog_step E (at M_Confirm S_Select C_Loop T_Wait True False False False True True st)
      (at M_Confirm S_Select C_Loop ?k True False False False False True st')"
    using p_store [OF t_flush [of "at M_Confirm S_Select C_Loop T_Wait True False False False True True st" E r st']] f
    by (simp add: exited_def)
  have 5: "prog_step E (at M_Confirm S_Select C_Loop ?k True False False False False True st')
      (at M_Wait S_Select C_Loop ?k True False False False False True st')"
    using p_main [OF m_confirmed [of "at M_Confirm S_Select C_Loop ?k True False False False False True st'"], of E]
    by (simp add: exited_def)
  show ?thesis
    using run_step [OF run_step [OF run_step [OF run_step [OF run_step [OF run_start 1] 2] 3] 4] 5]
    by (simp add: eval_nat_numeral)
qed

lemma orderly_run:
  assumes up: "up_cluster E = Ok ()" "up_client E = Ok ()" and f: "flush_store E st = (r, st')"
  shows "prog_run E (sys_new True st) 11
    (at (M_Exit (Ok ())) S_End C_End (if r = Ok () then T_End else T_Panic) False False False False False True st')"
proof -
  let ?k = "if r = Ok () then T_End else T_Panic"
  have 6: "prog_step E (at M_Wait S_Select C_Loop ?k True False False False False True st')
      (at M_Wait S_Wait C_Loop ?k False True False False False True st')"
    using p_server [OF s_signal [of "at M_Wait S_Select C_Loop ?k True False False False False True st'" E]]
    by (simp add: exited_def cl_gone_def)
  have 7: "prog_step E (at M_Wait S_Wait C_Loop ?k False True False False False True st')
      (at M_Wait S_Wait C_Send ?k False False False False False True st')"
    using p_client [OF c_shutdown [of "at M_Wait S_Wait C_Loop ?k False True False False False True st'" E True]]
    by (simp add: exited_def)
  have 8: "prog_step E (at M_Wait S_Wait C_Send ?k False False False False False True st')
      (at M_Wait S_Wait C_End ?k False False True False False True st')"
    using p_client [OF c_finish [of "at M_Wait S_Wait C_Send ?k False False False False False True st'" E]]
    by (simp add: exited_def server_start_returned_def)
  have 9: "prog_step E (at M_Wait S_Wait C_End ?k False False True False False True st')
      (at M_Wait S_Send C_End ?k False False False False False True st')"
    using p_server [OF s_client_down [of "at M_Wait S_Wait C_End ?k False False True False False True st'" E]]
    by (simp add: exited_def)
  have 10: "prog_step E (at M_Wait S_Send C_End ?k False False False False False True st')
      (at M_Wait S_End C_End ?k False False False True False True st')"
    using p_server [OF s_finish [of "at M_Wait S_Send C_End ?k False False False False False True st'" E]]
    by (simp add: exited_def)
  have 11: "prog_step E (at M_Wait S_End C_End ?k False False False True False True st')
      (at (M_Exit (Ok ())) S_End C_End ?k False False False False False True st')"
    using p_main [OF m_server_down [of "at M_Wait S_End C_End ?k False False False True False True st'"], of E]
    by (simp add: exited_def)
  show ?thesis
    using run_step [OF run_step [OF run_step [OF run_step [OF run_step [OF run_step [OF
      orderly_start [OF assms] 6] 7] 8] 9] 10] 11]
    by (simp add: eval_nat_numeral)
qed

text \<open>
  C38: A failed flush goes unnoticed: when the shutdown of the store fails, its task panics and
  drops the sender of the confirmation, and \<^verbatim>\<open>main\<close> takes the closed channel for a confirmation;
  the program then returns without an error.
\<close>

theorem failed_flush_exits_ok:
  assumes "up_cluster E = Ok ()" and "up_client E = Ok ()" and "fst (flush_store E st) \<noteq> Ok ()"
  shows "\<exists>n t. prog_run E (sys_new True st) n t \<and> main_pc t = M_Exit (Ok ()) \<and> signalled t \<and> st_pc t = T_Panic"
proof -
  obtain r st' where "flush_store E st = (r, st')" by fastforce
  with orderly_run [OF assms(1,2) this] assms(3) show ?thesis by fastforce
qed

text \<open>
  C39: A server that cannot start looks like a success: when the cluster server cannot be set up
  (no key, refused certificates, an address in use), the program returns by itself, and always
  without an error, so that its exit status is that of a normal end.
\<close>

theorem failed_start_exits_ok:
  assumes "up_cluster E \<noteq> Ok ()"
  shows "(\<exists>n t. prog_run E (sys_new b st) n t \<and> exited t \<and> \<not> signalled t) \<and>
    (\<forall>n t. prog_run E (sys_new b st) n t \<longrightarrow> exited t \<longrightarrow> \<not> signalled t \<longrightarrow> main_pc t = M_Exit (Ok ()))"
proof
  let ?v = "case up_cluster E of Ok _ \<Rightarrow> S_Select | Err _ \<Rightarrow> S_Send | Panic _ \<Rightarrow> S_Panic"
  let ?s1 = "(sys_new b st)\<lparr>svr_pc := ?v\<rparr>" and ?s2 = "(sys_new b st)\<lparr>svr_done := True, svr_pc := S_End\<rparr>"
  have 1: "prog_step E (sys_new b st) ?s1"
    by (rule p_server [OF s_listen]) (simp_all add: sys_new_def exited_def)
  have r1: "prog_run E (sys_new b st) 1 ?s1"
    using run_step [OF run_start 1] by simp
  have e: "prog_step E s (s\<lparr>svr_done := False, main_pc := M_Exit (Ok ())\<rparr>)"
    if "main_pc s = M_Select" "svr_gone s" for s :: "'a sys"
    by (rule p_main [OF m_server]) (use that in \<open>simp_all add: exited_def\<close>)
  show "\<exists>n t. prog_run E (sys_new b st) n t \<and> exited t \<and> \<not> signalled t"
  proof (cases "?v = S_Panic")
    case True
    then have "prog_run E (sys_new b st) 2 (?s1\<lparr>svr_done := False, main_pc := M_Exit (Ok ())\<rparr>)"
      using run_step [OF r1 e [of ?s1]] by (simp add: sys_new_def svr_gone_def numeral_2_eq_2)
    then show ?thesis
      by (intro exI conjI) (assumption, simp_all add: exited_def sys_new_def)
  next
    case False
    with assms have "?v = S_Send"
      by (cases "up_cluster E") simp_all
    then have "prog_step E ?s1 ?s2"
      using p_server [OF s_finish [of ?s1 E]] by (simp add: sys_new_def exited_def)
    then have "prog_run E (sys_new b st) 3 (?s2\<lparr>svr_done := False, main_pc := M_Exit (Ok ())\<rparr>)"
      using run_step [OF run_step [OF r1] e [of ?s2]] by (simp add: sys_new_def svr_gone_def numeral_3_eq_3)
    then show ?thesis
      by (intro exI conjI) (assumption, simp_all add: exited_def sys_new_def)
  qed
  show "\<forall>n t. prog_run E (sys_new b st) n t \<longrightarrow> exited t \<longrightarrow> \<not> signalled t \<longrightarrow> main_pc t = M_Exit (Ok ())"
  proof (intro allI impI)
    fix n t assume t: "prog_run E (sys_new b st) n t" "exited t" "\<not> signalled t"
    have "quiet_exit (sys_new b st)"
      by (simp add: quiet_exit_def sys_new_def)
    from qe.prog_run_keeps [OF t(1) this] t(2,3) show "main_pc t = M_Exit (Ok ())"
      by (auto simp: quiet_exit_def exited_def)
  qed
qed

section \<open>Witnesses\<close>

text \<open>A server on the LSM store whose set-up succeeds; a store whose next table name is taken.\<close>

definition ex_node :: "rstring list lsm_store \<Rightarrow> rstring list lsm_store sys_env" where
  "ex_node s = node_env ex_lsm (\<lambda>_ _. True) (\<lambda>_. None) ex_config (server_new [] [bs ''k''] s)"

lemma ex_node_up: "up_cluster (ex_node s) = Ok ()" "up_client (ex_node s) = Ok ()" "flush_store (ex_node s) = lsm_shutdown ex_lsm"
  by (simp_all add: ex_node_def node_env_def server_listen_def server_new_def spawn_client_server_def
      cs_listen_def client_server_new_def)

definition ex_clash :: "rstring list lsm_store" where
  "ex_clash = ex_store\<lparr>memtable := [(bs ''foo'', Tombstone)], lsm_fs := put_file (flush_path ex_store) [] empty_disk\<rparr>"

lemma ex_clash_fails: "fst (lsm_shutdown ex_lsm ex_clash) \<noteq> Ok ()"
  by (simp add: lsm_shutdown_def write_sstable_def ex_clash_def ex_store_def lsm_new_def flush_path_def on_disk_def
      sst_write_def fs_metadata_def fs_call_def next_fault_def put_file_def empty_disk_def sbind_def Let_def)

lemma ex_store_shutdown: "\<exists>s'. lsm_shutdown ex_lsm ex_store = (Ok (), s')"
  by (simp add: lsm_shutdown_def write_sstable_def write_bloom_map_def ex_store_def lsm_new_def sbind_def)

theorem shutdown_terminates_witness:
  "\<exists>n t. prog_run (ex_node ex_store) (sys_new True ex_store) n t \<and> n \<le> 11 \<and> exited t"
proof -
  obtain s' where "flush_store (ex_node ex_store) ex_store = (Ok (), s')"
    using ex_store_shutdown ex_node_up(3) by metis
  from orderly_run [OF ex_node_up(1,2) this] obtain n t where
    t: "prog_run (ex_node ex_store) (sys_new True ex_store) n t" "main_pc t = M_Exit (Ok ())"
    by fastforce
  with shutdown_terminates [OF t(1)] show ?thesis
    by (auto simp: exited_def)
qed

theorem exit_after_store_shutdown_witness:
  "\<exists>n t. prog_run (ex_node ex_store) (sys_new True ex_store) n t \<and> main_pc t = M_Exit (Ok ()) \<and>
     st_pc t = T_End \<and> lsm_shutdown ex_lsm ex_store = (Ok (), sys_store t)"
proof -
  obtain s' where f: "flush_store (ex_node ex_store) ex_store = (Ok (), s')"
    using ex_store_shutdown ex_node_up(3) by metis
  from orderly_run [OF ex_node_up(1,2) this] obtain n t where
    t: "prog_run (ex_node ex_store) (sys_new True ex_store) n t" "main_pc t = M_Exit (Ok ())" "signalled t"
    by fastforce
  from exit_after_store_shutdown [OF t] t f show ?thesis
    by (auto simp: ex_node_up(3))
qed

theorem failed_flush_exits_ok_witness:
  "\<exists>n t. prog_run (ex_node ex_clash) (sys_new True ex_clash) n t \<and> main_pc t = M_Exit (Ok ()) \<and>
     signalled t \<and> st_pc t = T_Panic"
  by (rule failed_flush_exits_ok) (simp_all add: ex_node_up ex_clash_fails)

text \<open>A server whose key file held no key.\<close>

theorem failed_start_exits_ok_witness:
  "\<exists>n t. prog_run (node_env ex_lsm (\<lambda>_ _. True) (\<lambda>_. None) ex_config (server_new [] [] ex_store)) (sys_new True ex_store) n t \<and>
     main_pc t = M_Exit (Ok ()) \<and> \<not> signalled t"
proof -
  have "up_cluster (node_env ex_lsm (\<lambda>_ _. True) (\<lambda>_. None) ex_config (server_new [] [] ex_store)) \<noteq> Ok ()"
    by (simp add: node_env_def server_listen_def server_new_def)
  from failed_start_exits_ok [OF this, of True ex_store] show ?thesis
    by blast
qed

end
