(* ===== verification/Program.thy ===== *)
theory Program
  imports Shutdown
begin

text \<open>
  The start of the program: \<^verbatim>\<open>setup\<close> and the first half of \<^verbatim>\<open>run\<close> in \<^verbatim>\<open>src/main.rs\<close>, and the
  loading of certificates and keys in \<^verbatim>\<open>src/server/mod.rs\<close>.  The parsers of the PEM format and
  the environment that results from reading the \<^verbatim>\<open>.env\<close> file are arguments.
\<close>

section \<open>Certificates and keys\<close>

text \<open>
  The file is opened, which may fail with an I/O error, and handed to the parser; an I/O error
  while it is read and a file that cannot be parsed are reported in the same way.
\<close>

definition load_pem :: "(bytes \<Rightarrow> bytes list option) \<Rightarrow> string \<Rightarrow> rstring \<Rightarrow> (fs, bytes list) action" where
  "load_pem parse_pem what p =
     sbind (fs_open_read (path_of p)) (\<lambda>_ s.
       case fs_call (\<lambda>_ s. s) (\<lambda>s. (of_option (Err_IO NotFound) (file_of (path_of p) s), s)) s of
         (Ok c, s') \<Rightarrow> (of_option (Err_E (bs what)) (parse_pem c), s')
       | (_, s') \<Rightarrow> (Err (Err_E (bs what)), s'))"

definition load_certs :: "(bytes \<Rightarrow> bytes list option) \<Rightarrow> rstring \<Rightarrow> (fs, bytes list) action" where
  "load_certs pem_certs p = load_pem pem_certs ''invalid cert file'' p"

definition load_keys :: "(bytes \<Rightarrow> bytes list option) \<Rightarrow> rstring \<Rightarrow> (fs, bytes list) action" where
  "load_keys pem_rsa_keys p = load_pem pem_rsa_keys ''invalid key file'' p"

section \<open>Command line and environment\<close>

text \<open>The options of \<^verbatim>\<open>build_app\<close> that \<^verbatim>\<open>setup\<close> looks at.\<close>

record args =
  arg_env :: "rstring option"
  arg_log_level :: "rstring option"
  arg_log_format :: "rstring option"

text \<open>
  \<open>dotenv\<close> gives the environment after the named file, or the default one, was read; a file
  that cannot be read leaves the environment as it is and is only logged.  The result is what
  the logger is set up with; the configuration is kept for the calls that follow.
\<close>

definition program_setup ::
    "(rstring option \<Rightarrow> env) \<Rightarrow> path \<Rightarrow> args \<Rightarrow> (config option, rstring \<times> log_format) action" where
  "program_setup dotenv temp_dir a =
     sbind (get_config temp_dir (dotenv (arg_env a))) (\<lambda>cfg.
     sbind (lift_result (case arg_log_format a of Some f \<Rightarrow> log_format_from_str f | None \<Rightarrow> Ok (cfg_log_format cfg))) (\<lambda>fmt.
       sreturn (case arg_log_level a of Some l \<Rightarrow> l | None \<Rightarrow> log_level cfg, fmt)))"

section \<open>Starting\<close>

text \<open>\<^verbatim>\<open>run\<close>, up to the point where the server is spawned.\<close>

definition program_start ::
    "('b, 'z) lsm_env_scheme \<Rightarrow> (bytes \<Rightarrow> bytes list option) \<Rightarrow> (bytes \<Rightarrow> bytes list option) \<Rightarrow>
     (rstring option \<Rightarrow> env) \<Rightarrow> path \<Rightarrow> args \<Rightarrow> (fs, config \<times> 'b lsm_store server) action" where
  "program_start E pem_certs pem_rsa_keys dotenv temp_dir a =
     (case program_setup dotenv temp_dir a None of (r, kept) \<Rightarrow>
        sbind (lift_result r) (\<lambda>(level, fmt).
        sbind (lift_result (fst (get_config temp_dir (dotenv (arg_env a)) kept))) (\<lambda>cfg.
        sbind (load_certs pem_certs (cert_path cfg)) (\<lambda>cts.
        sbind (load_keys pem_rsa_keys (key_path cfg)) (\<lambda>ks.
        sbind (initialize_from_config E cfg) (\<lambda>store.
        sreturn (cfg, server_new cts ks store)))))))"

section \<open>Lemmas\<close>

lemma load_pem_ok:
  assumes "faults s = []" and "file_of (path_of p) s = Some c" and "parse_pem c = Some xs"
  shows "load_pem parse_pem what p s = (Ok xs, s)"
proof -
  have "fs_open_read (path_of p) s = (Ok (), s)"
    using assms(1,2) by (auto simp: fs_open_read_def fs_call_def next_fault_def file_of_def)
  with assms show ?thesis
    by (simp add: load_pem_def fs_call_def next_fault_def)
qed

lemma initialize_durable:
  assumes "durable E s ls" and "cfg_data_dir cfg = data_dir s" and "commit_log_path cfg = log_path (lsm_log s)"
    and "memtable_max_mb cfg \<le> 18446744073709"
  shows "\<exists>s'. initialize_from_config E cfg (lsm_fs s) = (Ok s', lsm_fs s') \<and> durable E s' ls \<and>
    lsm_view E s' = lsm_view E s"
proof -
  let ?n = "memtable_max_mb cfg * 1000000"
  have "from_config cfg (lsm_fs s) = Ok (restart s ?n)"
    using assms(2-4) by (simp add: from_config_def restart_def)
  moreover obtain s' where "lsm_initialize E (restart s ?n) = (Ok (), s')" "durable E s' ls" "lsm_map E s' = lsm_map E s"
    using restart_durable [OF assms(1), of ?n] by blast
  ultimately show ?thesis
    by (simp add: initialize_from_config_def lsm_view_def)
qed

section \<open>Properties\<close>


text \<open>A disk with a certificate and a key, and the variables of its environment.\<close>

definition ex_home :: fs where
  "ex_home = put_file [bs ''certs'', bs ''key.pem''] [2] (put_file [bs ''certs'', bs ''cert.pem''] [1] empty_disk)"

definition ex_home_store :: "rstring list lsm_store" where
  "ex_home_store = lsm_new [bs ''data''] [bs ''data'', bs ''commit_log''] 1 ex_home"

definition ex_dotenv :: "rstring option \<Rightarrow> env" where
  "ex_dotenv f = [bs ''DATA_DIR'' \<mapsto> bs ''data'', bs ''COMMIT_LOG_PATH'' \<mapsto> bs ''data/commit_log'']"

lemma ex_names:
  "bs ''certs'' \<noteq> bs ''data''" "bs ''cert.pem'' \<noteq> bs ''key.pem''"
  by (simp_all add: bs_def)

lemma ex_home_files:
  "file_of [bs ''certs'', bs ''cert.pem''] ex_home = Some [1]" "file_of [bs ''certs'', bs ''key.pem''] ex_home = Some [2]"
  using ex_names by (simp_all add: ex_home_def put_file_def file_of_def)

lemma ex_home_durable: "durable ex_lsm ex_home_store []" "lsm_map ex_lsm ex_home_store = Map.empty"
proof -
  have lp: "\<not> is_sst [bs ''data'', bs ''commit_log'']"
      "[bs ''data'', bs ''commit_log''] \<noteq> [bs ''data''] @ [bs ''bloom_map'']"
    by (simp_all add: is_sst_def extension_def bs_def)
  have h: "faults ex_home = []" "bt_wf (files ex_home)" "sst_paths [bs ''data''] ex_home = []"
      "milli_ok (as_millis (clock ex_home))" "bt_get (files ex_home) [bs ''data'', bs ''commit_log''] = None"
      "bt_get (files ex_home) [bs ''data'', bs ''bloom_map''] = None"
  proof -
    show "bt_wf (files ex_home)"
      by (simp add: ex_home_def put_file_def empty_disk_def bt_wf_insert del: bt_insert.simps)
    have "p \<notin> set (sst_paths [bs ''data''] ex_home)" for p
      using ex_names
      by (auto simp: in_sst_paths ex_home_def put_file_def file_of_def in_dir_def empty_disk_def split: if_splits)
    then show "sst_paths [bs ''data''] ex_home = []"
      using last_in_set by blast
  qed (use ex_names in \<open>simp_all add: ex_home_def put_file_def empty_disk_def milli_ok_def as_millis_def\<close>)
  have inv: "lsm_inv ex_lsm ex_home_store" "lsm_map ex_lsm ex_home_store = Map.empty" "names_ok ex_home_store"
    using lsm_new_inv [OF ex_lsm_ok h(1-3), of "[bs ''data'', bs ''commit_log'']" 1] lp h(4)
    by (simp_all add: ex_home_store_def)
  then show "durable ex_lsm ex_home_store []"
    using h by (simp add: durable_def lsm_live_def log_holds_def filters_fresh_def replay_def ex_home_store_def
        lsm_new_def lsm_paths_def log_bytes_def file_of_def commit_log_new_def)
  show "lsm_map ex_lsm ex_home_store = Map.empty"
    by (rule inv(2))
qed

lemma ex_setup:
  "\<exists>cfg. program_setup ex_dotenv [] \<lparr>arg_env = None, arg_log_level = None, arg_log_format = None\<rparr> None =
       (Ok (bs ''info'', Pretty), Some cfg) \<and> cfg_data_dir cfg = [bs ''data''] \<and>
     commit_log_path cfg = [bs ''data'', bs ''commit_log''] \<and> memtable_max_mb cfg = 256 \<and>
     path_of (cert_path cfg) = [bs ''certs'', bs ''cert.pem''] \<and> path_of (key_path cfg) = [bs ''certs'', bs ''key.pem'']"
proof -
  have e: "get_env (ex_dotenv None) ''DATA_DIR'' = Some (bs ''data'')"
      "get_env (ex_dotenv None) ''COMMIT_LOG_PATH'' = Some (bs ''data/commit_log'')"
      "get_env (ex_dotenv None) ''CLIENT_PORT'' = None" "get_env (ex_dotenv None) ''CLUSTER_PORT'' = None"
      "get_env (ex_dotenv None) ''LOG_FORMAT'' = None" "get_env (ex_dotenv None) ''MEMTABLE_MAX_MB'' = None"
      "get_env (ex_dotenv None) ''LOG_LEVEL'' = None" "get_env (ex_dotenv None) ''CERT_PATH'' = None"
      "get_env (ex_dotenv None) ''KEY_PATH'' = None"
    by code_simp+
  have q: "path_of (bs ''data'') = [bs ''data'']" "path_of (bs ''data/commit_log'') = [bs ''data'', bs ''commit_log'']"
      "path_of (bs ''certs/cert.pem'') = [bs ''certs'', bs ''cert.pem'']"
      "path_of (bs ''certs/key.pem'') = [bs ''certs'', bs ''key.pem'']"
    by code_simp+
  show ?thesis
    by (simp add: program_setup_def get_config_first sbind_def sreturn_def lift_result_def load_def env_or_def expect_def default_values e q)
qed

lemma ex_home_set:
  "\<exists>s. lsm_transact ex_lsm (ex_set 1 ''foo'' ''bar'') ex_home_store = (Ok (), s) \<and>
     durable ex_lsm s [BeginTx (ex_set 1 ''foo'' ''bar'')] \<and> lsm_view ex_lsm s = [bs ''foo'' \<mapsto> bs ''bar''] \<and>
     data_dir s = [bs ''data''] \<and> log_path (lsm_log s) = [bs ''data'', bs ''commit_log''] \<and>
     file_of [bs ''certs'', bs ''cert.pem''] (lsm_fs s) = Some [1] \<and>
     file_of [bs ''certs'', bs ''key.pem''] (lsm_fs s) = Some [2]"
proof -
  let ?l = "BeginTx (ex_set 1 ''foo'' ''bar'')" and ?h = ex_home_store
  have enc: "encode (line_codec ex_lsm) ?l = Ok (u64_to_be 62 @ enc_line ?l)"
    using ex_set_line [of "''foo''" "''bar''" 1] by simp
  have h: "log_bytes (lsm_log ?h) (lsm_fs ?h) = []" "lsm_fs ?h = ex_home" "data_dir ?h = [bs ''data'']"
      "log_path (lsm_log ?h) = [bs ''data'', bs ''commit_log'']" "tx_ids ?h = []"
    using ex_names
    by (simp_all add: ex_home_store_def lsm_new_def commit_log_new_def log_bytes_def file_of_def ex_home_def
        put_file_def empty_disk_def)
  obtain s where s: "lsm_transact ex_lsm (ex_set 1 ''foo'' ''bar'') ?h = (Ok (), s)" "data_dir s = [bs ''data'']"
      "log_path (lsm_log s) = [bs ''data'', bs ''commit_log'']"
      "log_bytes (lsm_log s) (lsm_fs s) = u64_to_be 62 @ enc_line ?l"
      "\<forall>q. q \<noteq> [bs ''data'', bs ''commit_log''] \<longrightarrow> bt_get (files (lsm_fs s)) q = bt_get (files ex_home) q"
    using lsm_transact_ok [OF durableD(1) [OF ex_home_durable(1)] enc] h by auto
  have files: "file_of [bs ''certs'', n] (lsm_fs s) = file_of [bs ''certs'', n] ex_home" for n
    using s(5) ex_names by (simp add: file_of_def)
  have "log_replays ex_lsm s"
    using enc s(4) by (intro ex_log_readable [where ls = "[?l]"]) (simp_all add: length_enc_set del: enc_line.simps)
  then have "durable ex_lsm s [?l]"
    using transact_durable [OF ex_home_durable(1) enc _ s(1)] h(5) by simp
  moreover have "lsm_view ex_lsm s = [bs ''foo'' \<mapsto> bs ''bar'']"
    using lsm_transact_step [OF durableD(1) [OF ex_home_durable(1)] enc s(1)] ex_home_durable(2)
    by (auto simp: lsm_view_def ex_set_def with_random_id_def operation_set_def)
  ultimately show ?thesis
    using s(1-3) files ex_home_files by simp
qed


end
