(* ===== verification/LSM_Race.thy ===== *)
theory LSM_Race
  imports LSM_Recovery
begin

text \<open>
  Two transactions at once.  \<^verbatim>\<open>LSMStore::do_transact\<close> holds the lock of the commit log only while
  it appends its line, and takes the lock of the data afterwards; between the two another
  transaction may do both.  The two phases of a transaction are steps of their own here, and the
  orders in the log and in the memtable can differ.
\<close>

section \<open>The two phases of a transaction\<close>

definition log_phase :: "('b, 'z) lsm_env_scheme \<Rightarrow> transaction \<Rightarrow> ('b lsm_store, unit) action" where
  "log_phase E tx = on_log (begin_transaction (line_codec E) tx)"

definition data_phase :: "transaction \<Rightarrow> 'b lsm_store \<Rightarrow> 'b lsm_store" where
  "data_phase tx s =
     s\<lparr>tx_ids := tx_ids s @ [tx_id tx], memtable := fold memtable_instruction (operations tx) (memtable s)\<rparr>"

lemma transact_phases: "lsm_transact E tx = sbind (log_phase E tx) (\<lambda>_ s. (Ok (), data_phase tx s))"
  by (simp add: lsm_transact_def do_transact_def log_phase_def data_phase_def)

text \<open>The phases work on different parts of the store.\<close>

lemma log_phase_commutes:
  "log_phase E tx s = (r, s') \<Longrightarrow> log_phase E tx (data_phase tx' s) = (r, data_phase tx' s')"
  by (auto simp: log_phase_def data_phase_def on_log_def split: prod.splits)

lemma log_phase_ids: "log_phase E tx s = (r, s') \<Longrightarrow> tx_ids s' = tx_ids s"
  by (auto simp: log_phase_def on_log_def split: prod.splits)

lemma data_phase_disk [simp]:
  "lsm_fs (data_phase tx s) = lsm_fs s" "lsm_log (data_phase tx s) = lsm_log s" "data_dir (data_phase tx s) = data_dir s"
  by (simp_all add: data_phase_def)

lemma restart_data_phase [simp]: "restart (data_phase tx s) n = restart s n"
  by (simp add: restart_def)

lemma disk_map_data_phase [simp]: "disk_map E (data_phase tx s) = disk_map E s"
  by (simp add: disk_map_def lsm_paths_def)

lemma view_data_phase_set:
  assumes "operations tx = [Set k v]"
  shows "lsm_view E (data_phase tx s) k = Some v"
  using assms by (simp add: lsm_view_def lsm_map_def data_phase_def disk_map_def lsm_paths_def)

text \<open>One transaction after the other.\<close>

lemma both_phases_durable:
  assumes "durable E s ls" and "loggable E tx" and "tx_id tx \<notin> set (tx_ids s)" and "log_phase E tx s = (Ok (), s1)"
    and "log_replays E s1"
  shows "durable E (data_phase tx s1) (ls @ [BeginTx tx])"
proof -
  obtain b where b: "encode (line_codec E) (BeginTx tx) = Ok b"
    using assms(2) by (auto simp: loggable_def)
  have "lsm_transact E tx s = (Ok (), data_phase tx s1)"
    using assms(4) by (simp add: transact_phases)
  with transact_durable [OF assms(1) b assms(3)] assms(5) show ?thesis
    by simp
qed

lemma log_phase_ok:
  assumes "disk_ok E s" and "loggable E tx"
  shows "\<exists>s1 b. log_phase E tx s = (Ok (), s1) \<and> encode (line_codec E) (BeginTx tx) = Ok b \<and> disk_ok E s1 \<and>
    log_bytes (lsm_log s1) (lsm_fs s1) = log_bytes (lsm_log s) (lsm_fs s) @ b"
proof -
  obtain b where b: "encode (line_codec E) (BeginTx tx) = Ok b"
    using assms(2) by (auto simp: loggable_def)
  with log_append_ok [OF assms(1) b] show ?thesis
    by (auto simp: log_phase_def begin_transaction_def)
qed

text \<open>When the log can be replayed after the second of two transactions, it could after the first.\<close>

lemma log_phase_replays:
  assumes "durable E s ls" and "loggable E t1" and "log_phase E t1 s = (Ok (), s1)"
    and "loggable E t2" and "log_phase E t2 s1 = (Ok (), s2)" and "log_replays E s2"
  shows "log_replays E s1"
proof -
  note d = durableD [OF assms(1)]
  obtain b1 where b1: "encode (line_codec E) (BeginTx t1) = Ok b1" "disk_ok E s1"
      "log_bytes (lsm_log s1) (lsm_fs s1) = log_bytes (lsm_log s) (lsm_fs s) @ b1"
    using log_phase_ok [OF d(3) assms(2)] assms(3) by auto
  obtain b2 where "log_bytes (lsm_log s2) (lsm_fs s2) = log_bytes (lsm_log s1) (lsm_fs s1) @ b2"
    using log_phase_ok [OF b1(2) assms(4)] assms(5) by auto
  moreover have "encode_all (line_codec E) (ls @ [BeginTx t1]) = Ok (log_bytes (lsm_log s1) (lsm_fs s1))"
    using encode_all_snoc [OF _ b1(1)] d(4) b1(3) by (simp add: log_holds_def)
  ultimately show ?thesis
    using log_readable_prefix [of "line_codec E"] disk_okD(1) [OF d(3)] assms(6) by (auto simp: lsm_env_ok_def)
qed

section \<open>Transactions that overlap\<close>

fun op_key :: "operation \<Rightarrow> rstring" where
  "op_key (Set k v) = k"
| "op_key (Delete k) = k"

definition apart :: "transaction \<Rightarrow> transaction \<Rightarrow> bool" where
  "apart t u \<longleftrightarrow> set (map op_key (operations t)) \<inter> set (map op_key (operations u)) = {}"

text \<open>
  Runs of a store with transactions between their phases: \<open>P\<close> holds those that are logged but not
  yet applied, \<open>L\<close> all that were logged.  Phases of different transactions, flushes and the
  passing of time come in any order; transactions that overlap touch different keys.
\<close>

inductive racing ::
    "('b, 'z) lsm_env_scheme \<Rightarrow> 'b lsm_store \<Rightarrow> 'b lsm_store \<Rightarrow> transaction list \<Rightarrow> transaction list \<Rightarrow> bool" for E s0 where
  race_start: "racing E s0 s0 [] []"
| race_log: "racing E s0 s P L \<Longrightarrow> list_all (\<lambda>t. apart t tx) P \<Longrightarrow> loggable E tx \<Longrightarrow>
    tx_id tx \<notin> set (tx_ids s @ map tx_id P) \<Longrightarrow>
    log_phase E tx s = (Ok (), s') \<Longrightarrow> log_replays E s' \<Longrightarrow>
    racing E s0 s' (P @ [tx]) (L @ [tx])"
| race_data: "racing E s0 s P L \<Longrightarrow> tx \<in> set P \<Longrightarrow> racing E s0 (data_phase tx s) (remove1 tx P) L"
| race_flush: "racing E s0 s P L \<Longrightarrow> readable E (memtable s) \<Longrightarrow> filters_old s \<Longrightarrow>
    write_sstable E s = (Ok r, s') \<Longrightarrow> log_replays E s' \<Longrightarrow> racing E s0 s' P L"
| race_time: "racing E s0 s P L \<Longrightarrow> clock (lsm_fs s) \<le> t \<Longrightarrow> milli_ok (as_millis t) \<Longrightarrow>
    racing E s0 (s\<lparr>lsm_fs := (lsm_fs s)\<lparr>clock := t\<rparr>\<rparr>) P L"

text \<open>
  The store as it would be had all logged transactions been applied in the order of the log.  The
  invariant says that this store is durable, and that the pending transactions are what the
  memtable lacks.
\<close>

definition caught_up :: "'b lsm_store \<Rightarrow> commit_log_line list \<Rightarrow> 'b lsm_store" where
  "caught_up s ls = s\<lparr>tx_ids := map tx_id (open_txs ls), memtable := replay (open_txs ls)\<rparr>"

definition in_race ::
    "('b, 'z) lsm_env_scheme \<Rightarrow> 'b lsm_store \<Rightarrow> transaction list \<Rightarrow> commit_log_line list \<Rightarrow> bool" where
  "in_race E s P ls \<longleftrightarrow> durable E (caught_up s ls) ls \<and> bt_wf (memtable s) \<and>
     filter (\<lambda>t. tx_id t \<notin> set (tx_ids s)) (open_txs ls) = P \<and>
     map_of (memtable s) ++ map_of (replay P) = map_of (replay (open_txs ls)) \<and>
     sorted_wrt apart P \<and> (memtable s \<noteq> [] \<longrightarrow> tx_ids s \<noteq> [])"

lemma caught_up_simps [simp]:
  "lsm_fs (caught_up s ls) = lsm_fs s" "lsm_log (caught_up s ls) = lsm_log s" "data_dir (caught_up s ls) = data_dir s"
  "lsm_paths (caught_up s ls) = lsm_paths s" "disk_map E (caught_up s ls) = disk_map E s" "disk_ok E (caught_up s ls) = disk_ok E s"
  "restart (caught_up s ls) n = restart s n" "tx_ids (caught_up s ls) = map tx_id (open_txs ls)"
  "memtable (caught_up s ls) = replay (open_txs ls)"
  "lsm_map E (caught_up s ls) = disk_map E s ++ map_of (replay (open_txs ls))" "names_ok (caught_up s ls) = names_ok s"
  by (simp_all add: caught_up_def lsm_paths_def disk_map_def restart_def lsm_map_def names_ok_def)

lemma caught_up_durable: "durable E s ls \<Longrightarrow> caught_up s ls = s"
  using durableD(6,7) [of E s ls] by (simp add: caught_up_def)

lemma log_phase_caught_up:
  "log_phase E tx s = (r, s') \<Longrightarrow> log_phase E tx (caught_up s ls) = (r, caught_up s' ls)"
  by (auto simp: log_phase_def caught_up_def on_log_def split: prod.splits)

lemma log_phase_memtable: "log_phase E tx s = (r, s') \<Longrightarrow> memtable s' = memtable s \<and> bloom_map s' = bloom_map s"
  by (auto simp: log_phase_def on_log_def split: prod.splits)

lemma dom_value_ops: "dom (fold value_op ops m) = set (map op_key ops) \<union> dom m"
proof (induction ops arbitrary: m)
  case (Cons op ops)
  then show ?case by (cases op) auto
qed simp

lemma dom_replay: "dom (map_of (replay ts)) = (\<Union>t \<in> set ts. set (map op_key (operations t)))"
  unfolding map_of_replay dom_value_ops by auto

text \<open>A transaction that is apart from those before it can go first.\<close>

lemma replay_first:
  assumes "sorted_wrt apart P" and "tx \<in> set P"
  shows "map_of (replay P) = map_of (replay [tx]) ++ map_of (replay (remove1 tx P))"
proof -
  obtain A B where P: "P = A @ tx # B" "tx \<notin> set A"
    using split_list_first [OF assms(2)] by blast
  then have "\<forall>t \<in> set A. apart t tx"
    using assms(1) by (auto simp: sorted_wrt_append)
  then have "dom (map_of (replay A)) \<inter> dom (map_of (replay [tx])) = {}"
    unfolding dom_replay by (auto simp: apart_def)
  then have "map_of (replay A) ++ map_of (replay [tx]) = map_of (replay [tx]) ++ map_of (replay A)"
    by (rule map_add_comm)
  with P show ?thesis
    using map_of_replay_append [of A "[tx] @ B"] map_of_replay_append [of "[tx]" B] map_of_replay_append [of A B]
    by (simp add: remove1_append)
qed

lemma pending_ids: "in_race E s P ls \<Longrightarrow> tx_id ` set (open_txs ls) \<subseteq> set (tx_ids s @ map tx_id P)"
  by (auto simp: in_race_def)

lemma in_race_map: "in_race E s P ls \<Longrightarrow> lsm_map E (caught_up s ls) = lsm_map E s ++ map_of (replay P)"
  by (simp add: in_race_def lsm_map_def flip: map_add_assoc)

lemma in_race_log:
  assumes "in_race E s P ls" and "list_all (\<lambda>t. apart t tx) P" and "loggable E tx"
    and "tx_id tx \<notin> set (tx_ids s @ map tx_id P)"
    and "log_phase E tx s = (Ok (), s')" and "log_replays E s'"
  shows "in_race E s' (P @ [tx]) (ls @ [BeginTx tx]) \<and>
    lsm_map E (caught_up s' (ls @ [BeginTx tx])) = fold value_op (operations tx) (lsm_map E (caught_up s ls))"
proof -
  let ?ls = "ls @ [BeginTx tx]" and ?c = "caught_up s ls"
  note i = assms(1) [unfolded in_race_def]
  have new: "tx_id tx \<notin> tx_id ` set (open_txs ls)"
    using pending_ids [OF assms(1)] assms(4) by auto
  then have o: "open_txs ?ls = open_txs ls @ [tx]"
    by (auto simp: open_txs_snoc_begin filter_id_conv image_iff)
  then have d: "data_phase tx (caught_up s' ls) = caught_up s' ?ls"
    by (simp add: caught_up_def data_phase_def replay_snoc)
  have lp: "log_phase E tx ?c = (Ok (), caught_up s' ls)"
    by (rule log_phase_caught_up [OF assms(5)])
  have dur: "durable E (caught_up s' ?ls) ?ls"
    using both_phases_durable [OF _ assms(3) _ lp, of ls] i new assms(6) unfolding d by simp
  obtain b where b: "encode (line_codec E) (BeginTx tx) = Ok b"
    using assms(3) by (auto simp: loggable_def)
  have "lsm_transact E tx ?c = (Ok (), caught_up s' ?ls)"
    using lp d by (simp add: transact_phases)
  then have "lsm_map E (caught_up s' ?ls) = fold value_op (operations tx) (lsm_map E ?c)"
    using lsm_transact_step [OF _ b] i durableD(1) by blast
  moreover have "map_of (memtable s) ++ map_of (replay (P @ [tx])) = map_of (replay (open_txs ls @ [tx]))"
    using i by (simp add: map_of_replay_append)
  ultimately show ?thesis
    using i dur o log_phase_ids [OF assms(5)] log_phase_memtable [OF assms(5)] assms(2,4)
    by (auto simp: in_race_def sorted_wrt_append list_all_iff)
qed

lemma remove1_by_id:
  "distinct (map f xs) \<Longrightarrow> x \<in> set xs \<Longrightarrow> remove1 x xs = filter (\<lambda>y. f y \<noteq> f x) xs"
proof (induction xs)
  case (Cons y ys)
  then have "x = y \<Longrightarrow> filter (\<lambda>z. f z \<noteq> f x) ys = ys"
    by (intro filter_True) (auto simp: image_iff)
  with Cons show ?case
    by auto
qed simp

lemma in_race_data:
  assumes "in_race E s P ls" and "tx \<in> set P"
  shows "in_race E (data_phase tx s) (remove1 tx P) ls \<and> caught_up (data_phase tx s) ls = caught_up s ls"
proof
  note i = assms(1) [unfolded in_race_def]
  have "distinct (map tx_id P)"
    using i distinct_map_filter [OF distinct_open_txs] by blast
  then have P: "remove1 tx P = filter (\<lambda>t. tx_id t \<noteq> tx_id tx) P"
    by (rule remove1_by_id [OF _ assms(2)])
  have "filter (\<lambda>t. tx_id t \<notin> set (tx_ids s @ [tx_id tx])) (open_txs ls) =
      filter (\<lambda>t. tx_id t \<noteq> tx_id tx) (filter (\<lambda>t. tx_id t \<notin> set (tx_ids s)) (open_txs ls))"
    by (simp add: conj_commute)
  then have f: "filter (\<lambda>t. tx_id t \<notin> set (tx_ids s @ [tx_id tx])) (open_txs ls) = remove1 tx P"
    unfolding P using i by simp
  have m: "bt_wf (memtable (data_phase tx s))" "map_of (memtable (data_phase tx s)) = map_of (memtable s) ++ map_of (replay [tx])"
    using i fold_memtable_instruction [of "memtable s" "operations tx"] fold_value_op_eq [of "operations tx" "map_of (memtable s)"]
    by (simp_all add: data_phase_def map_of_replay)
  have "map_of (memtable (data_phase tx s)) ++ map_of (replay (remove1 tx P)) = map_of (replay (open_txs ls))"
    using i replay_first [of P tx] assms(2) unfolding m(2) by (simp flip: map_add_assoc)
  moreover have "sorted_wrt apart (remove1 tx P)"
    using i unfolding P by (simp add: sorted_wrt_filter)
  moreover show c: "caught_up (data_phase tx s) ls = caught_up s ls"
    by (simp add: caught_up_def data_phase_def)
  ultimately show "in_race E (data_phase tx s) (remove1 tx P) ls"
    using i m(1) f unfolding in_race_def c by (simp add: data_phase_def)
qed

lemma in_race_flush:
  assumes "in_race E s P ls" and "readable E (memtable s)" and "filters_old s"
    and "write_sstable E s = (Ok r, s')" and "log_replays E s'"
  shows "\<exists>ls'. in_race E s' P ls' \<and> lsm_map E (caught_up s' ls') = lsm_map E (caught_up s ls)"
proof (cases "memtable s = []")
  case True
  with assms(1,4) show ?thesis
    by (auto simp: write_sstable_def)
next
  case False
  note i = assms(1) [unfolded in_race_def]
  let ?ls = "ls @ map EndTx (tx_ids s)"
  obtain s2 where s2: "flush_cut E (length (tx_ids s)) s s2" "s' = s2\<lparr>tx_ids := []\<rparr>"
    using write_sstable_cut [OF assms(4) False] by blast
  have d: "lsm_inv E (caught_up s ls)" "names_ok s" "log_holds E (lsm_log s) (lsm_fs s) ls"
    using durableD [of E "caught_up s ls" ls] i by auto
  then have inv: "lsm_inv E s"
    using i by (simp add: lsm_inv_def caught_up_def)
  have st: "disk_ok E s2" "names_ok s2" "filters_fresh E s2" "lsm_inv E s2"
      "log_holds E (lsm_log s2) (lsm_fs s2) ?ls" "disk_map E s2 = lsm_map E s" "memtable s2 = []"
      "bt_get (files (lsm_fs s2)) (log_path (lsm_log s2)) \<noteq> None"
    using flush_cut_state [OF inv d(2,3) assms(2) s2(1)] assms(3,5) s2(2) i False by auto
  have o: "open_txs ?ls = P"
    using i by (simp add: open_txs_ended)
  have "durable E (caught_up s' ?ls) ?ls"
    using st s2(2) bt_wf_replay
    by (simp add: durable_def lsm_live_def lsm_inv_def names_ok_def lsm_paths_def filters_fresh_def caught_up_def)
  moreover have "lsm_map E (caught_up s' ?ls) = lsm_map E (caught_up s ls)"
    using st(6) s2(2) o in_race_map [OF assms(1)] by (simp add: disk_map_def lsm_paths_def)
  ultimately show ?thesis
    using i o st(7) s2(2) by (intro exI [of _ ?ls]) (simp add: in_race_def)
qed

lemma racing_inv:
  "racing E s0 s P L \<Longrightarrow> durable E s0 ls0 \<Longrightarrow>
   \<exists>ls. in_race E s P ls \<and> lsm_map E (caught_up s ls) = fold value_op (concat (map operations L)) (lsm_map E s0)"
proof (induction rule: racing.induct)
  case race_start
  then show ?case
    using caught_up_durable [OF race_start] durableD [OF race_start] bt_wf_replay
    by (intro exI [of _ ls0]) (auto simp: in_race_def filter_empty_conv replay_def)
next
  case (race_log s P L tx s')
  then show ?case
    using in_race_log [OF _ race_log.hyps(2-6)] by fastforce
next
  case (race_data s P L tx)
  then show ?case
    using in_race_data [OF _ race_data.hyps(2)] by metis
next
  case (race_flush s P L r s')
  then show ?case
    using in_race_flush [OF _ race_flush.hyps(2-5)] by metis
next
  case (race_time s P L t)
  then obtain ls where ls: "in_race E s P ls" "lsm_map E (caught_up s ls) = fold value_op (concat (map operations L)) (lsm_map E s0)"
    by blast
  let ?s = "s\<lparr>lsm_fs := (lsm_fs s)\<lparr>clock := t\<rparr>\<rparr>"
  have "caught_up ?s ls = (caught_up s ls)\<lparr>lsm_fs := (lsm_fs (caught_up s ls))\<lparr>clock := t\<rparr>\<rparr>"
    by (simp add: caught_up_def)
  with time_durable [of E "caught_up s ls" ls t] ls race_time.hyps(2,3) show ?case
    by (intro exI [of _ ls]) (simp add: in_race_def)
qed

section \<open>Properties\<close>


text \<open>
  C40: Two sets of the same key that run at the same time can end with different values before and
  after a crash: when the first one is logged first but reaches the memtable last, a get returns
  its value, both were acknowledged, and after a crash and a restart the value of the other one
  is found.
\<close>

theorem racing_sets_diverge:
  assumes "durable E s ls" and "operations t1 = [Set k v1]" and "operations t2 = [Set k v2]"
    and "loggable E t1" and "loggable E t2" and "distinct (tx_ids s @ [tx_id t1, tx_id t2])"
    and "log_phase E t1 s = (Ok (), s1)" and "log_phase E t2 s1 = (Ok (), s2)" and "log_replays E s2"
  shows "lsm_view E (data_phase t1 (data_phase t2 s2)) k = Some v1 \<and>
    (\<exists>s'. lsm_initialize E (restart (data_phase t1 (data_phase t2 s2)) n) = (Ok (), s') \<and>
       lsm_view E s' k = Some v2)"
proof
  show "lsm_view E (data_phase t1 (data_phase t2 s2)) k = Some v1"
    by (rule view_data_phase_set [OF assms(2)])
  let ?s1 = "data_phase t1 s1" and ?s2 = "data_phase t1 s2"
  have log2: "log_phase E t2 ?s1 = (Ok (), ?s2)"
    by (rule log_phase_commutes [OF assms(8)])
  have "log_replays E s1"
    by (rule log_phase_replays [OF assms(1,4,7,5,8,9)])
  then have d1: "durable E ?s1 (ls @ [BeginTx t1])"
    using assms(6) by (intro both_phases_durable [OF assms(1,4) _ assms(7)]) simp_all
  have "durable E (data_phase t2 ?s2) ((ls @ [BeginTx t1]) @ [BeginTx t2])"
    using assms(6,9) log_phase_ids [OF assms(7)]
    by (intro both_phases_durable [OF d1 assms(5) _ log2]) (auto simp: data_phase_def)
  from restart_durable [OF this, of n] obtain s' where
    s': "lsm_initialize E (restart s2 n) = (Ok (), s')" "lsm_map E s' = lsm_map E (data_phase t2 ?s2)"
    by auto
  have "lsm_view E s' k = Some v2"
    using view_data_phase_set [OF assms(3), of E ?s2] s'(2) by (simp add: lsm_view_def)
  with s'(1) show "\<exists>s'. lsm_initialize E (restart (data_phase t1 (data_phase t2 s2)) n) = (Ok (), s') \<and> lsm_view E s' k = Some v2"
    by auto
qed

section \<open>Witnesses\<close>

lemma ex_set_loggable: "length k + length v \<le> 8 \<Longrightarrow> loggable ex_lsm (ex_set i k v)"
  using ex_set_line by (auto simp: loggable_def)

text \<open>Two small transactions in the log of the empty store.\<close>

lemma ex_two_logged:
  assumes "length k1 + length v1 \<le> 8" and "length k2 + length v2 \<le> 8"
  shows "\<exists>s1 s2. log_phase ex_lsm (ex_set 1 k1 v1) ex_store = (Ok (), s1) \<and> log_phase ex_lsm (ex_set 2 k2 v2) s1 = (Ok (), s2) \<and>
    log_replays ex_lsm s1 \<and> log_replays ex_lsm s2"
proof -
  let ?l1 = "BeginTx (ex_set 1 k1 v1)" and ?l2 = "BeginTx (ex_set 2 k2 v2)"
  note lg = ex_set_loggable [OF assms(1), of 1] ex_set_loggable [OF assms(2), of 2]
  have "log_bytes (lsm_log ex_store) (lsm_fs ex_store) = []"
    by (simp add: ex_store_def lsm_new_def log_bytes_def empty_disk_def file_of_def)
  then obtain s1 b1 where s1: "log_phase ex_lsm (ex_set 1 k1 v1) ex_store = (Ok (), s1)" "disk_ok ex_lsm s1"
      "encode (line_codec ex_lsm) ?l1 = Ok b1" "log_bytes (lsm_log s1) (lsm_fs s1) = b1"
    using log_phase_ok [OF durableD(3) [OF ex_store_durable] lg(1)] by auto
  obtain s2 b2 where s2: "log_phase ex_lsm (ex_set 2 k2 v2) s1 = (Ok (), s2)"
      "encode (line_codec ex_lsm) ?l2 = Ok b2" "log_bytes (lsm_log s2) (lsm_fs s2) = b1 @ b2"
    using log_phase_ok [OF s1(2) lg(2)] s1(4) by auto
  have "length b1 \<le> 72" "length b2 \<le> 72"
    using s1(3) s2(2) assms by (auto simp: ex_set_line length_enc_set simp del: enc_line.simps)
  then have "log_replays ex_lsm s2"
    using s1(3) s2(2,3) assms by (intro ex_log_readable [where ls = "[?l1, ?l2]"]) simp_all
  with log_phase_replays [OF ex_store_durable lg(1) s1(1) lg(2) s2(1)] s1(1) s2(1) show ?thesis
    by auto
qed

lemma ex_set_simps: "operations (ex_set i k v) = [Set (bs k) (bs v)]" "tx_id (ex_set i k v) = i" "tx_ids ex_store = []"
  by (simp_all add: ex_set_def with_random_id_def operation_set_def ex_store_def lsm_new_def)

theorem racing_sets_diverge_witness:
  "\<exists>s2 s'. lsm_view ex_lsm (data_phase (ex_set 1 ''foo'' ''bar'') (data_phase (ex_set 2 ''foo'' ''qux'') s2)) (bs ''foo'') = Some (bs ''bar'') \<and>
     lsm_initialize ex_lsm (restart (data_phase (ex_set 1 ''foo'' ''bar'') (data_phase (ex_set 2 ''foo'' ''qux'') s2)) 1000) = (Ok (), s') \<and>
     lsm_view ex_lsm s' (bs ''foo'') = Some (bs ''qux'')"
proof -
  obtain s1 s2 where s: "log_phase ex_lsm (ex_set 1 ''foo'' ''bar'') ex_store = (Ok (), s1)"
      "log_phase ex_lsm (ex_set 2 ''foo'' ''qux'') s1 = (Ok (), s2)" "log_replays ex_lsm s2"
    using ex_two_logged [of "''foo''" "''bar''" "''foo''" "''qux''"] by auto
  show ?thesis
    using racing_sets_diverge [OF ex_store_durable ex_set_simps(1) ex_set_simps(1) ex_set_loggable
        ex_set_loggable _ s, of 1000]
    by (auto simp: ex_set_simps)
qed


end
