(* ===== verification/Client.thy ===== *)
theory Client
  imports Kave_Prelude
begin

text \<open>
  \<^verbatim>\<open>src/client.rs\<close>: connecting to a node.  The resolver, the TCP stack and the TLS library are a
  record of functions; the TLS library is handed the certificate verifier of the code.
\<close>

section \<open>The verifier\<close>

record exact_verifier =
  ver_certs :: "bytes list"

definition exact_verifier_new :: "bytes list \<Rightarrow> exact_verifier" where
  "exact_verifier_new cts = \<lparr>ver_certs = cts\<rparr>"

text \<open>The verifier accepts, or rejects with a message.\<close>

definition verify_server_cert :: "exact_verifier \<Rightarrow> bytes \<Rightarrow> rstring + unit" where
  "verify_server_cert V end_entity =
     (if list_ex (\<lambda>cert. end_entity = cert) (ver_certs V) then Inr ()
      else Inl (bs ''server certificate does not match what the client expected''))"

section \<open>Connecting\<close>

record ('ip, 'tcp, 'tls) net =
  new_resolver :: bool
  lookup_ip :: "rstring \<Rightarrow> 'ip list option"
  tcp_connect :: "'ip \<Rightarrow> nat \<Rightarrow> 'tcp + io_kind"
  server_name_ok :: "rstring \<Rightarrow> bool"
  tls_connect :: "(bytes \<Rightarrow> rstring + unit) \<Rightarrow> rstring \<Rightarrow> 'tcp \<Rightarrow> 'tls + io_kind"
  peer_cert :: "'tls \<Rightarrow> bytes"

text \<open>
  What the TLS library promises of a handshake: it succeeds only when the verifier accepted the
  certificate of the peer.
\<close>

definition verified_handshakes :: "('ip, 'tcp, 'tls, 'z) net_scheme \<Rightarrow> bool" where
  "verified_handshakes N \<longleftrightarrow> (\<forall>v name s t. tls_connect N v name s = Inl t \<longrightarrow> v (peer_cert N t) = Inr ())"

definition resolve_dns :: "('ip, 'tcp, 'tls, 'z) net_scheme \<Rightarrow> rstring \<Rightarrow> 'ip option result" where
  "resolve_dns N host =
     (if \<not> new_resolver N then Err (Err_E (bs ''error constructing DNS resolver client''))
      else (case lookup_ip N host of
              None \<Rightarrow> Err Err_DnsResolve
            | Some [] \<Rightarrow> Ok None
            | Some (ip # ips) \<Rightarrow> Ok (Some ip)))"

definition connect :: "('ip, 'tcp, 'tls, 'z) net_scheme \<Rightarrow> rstring \<Rightarrow> nat \<Rightarrow> bytes list \<Rightarrow> 'tls result" where
  "connect N addr port cts =
     rbind (resolve_dns N addr) (\<lambda>ip_addr.
     case ip_addr of
       None \<Rightarrow> Err (Err_DnsResolutionFailure addr)
     | Some ip \<Rightarrow>
         (let verifier = verify_server_cert (exact_verifier_new cts) in
          case tcp_connect N ip port of
            Inr k \<Rightarrow> Err (Err_IO k)
          | Inl stream \<Rightarrow>
              if \<not> server_name_ok N (bs ''bread.com'') then Err (Err_E (bs ''error parsing host''))
              else (case tls_connect N verifier (bs ''bread.com'') stream of
                      Inl t \<Rightarrow> Ok t
                    | Inr k \<Rightarrow> Err (Err_IO k))))"

section \<open>Properties\<close>

text \<open>
  C19: A client talks only to a server it knows: a connection comes about only with a peer whose
  certificate is byte for byte one of the configured ones, at the first address the name
  resolves to; with no configured certificate there is no connection at all.
\<close>

theorem connect_only_pinned:
  assumes "verified_handshakes N" and "connect N addr port cts = Ok t"
  shows "peer_cert N t \<in> set cts \<and> cts \<noteq> [] \<and>
    (\<exists>ip ips stream. lookup_ip N addr = Some (ip # ips) \<and> tcp_connect N ip port = Inl stream \<and>
       tls_connect N (verify_server_cert (exact_verifier_new cts)) (bs ''bread.com'') stream = Inl t)"
proof -
  obtain ip_addr where a: "resolve_dns N addr = Ok ip_addr"
    using assms(2) by (auto simp: connect_def rbind_eq_Ok_iff)
  then obtain ip where ip: "ip_addr = Some ip"
    using assms(2) by (cases ip_addr) (auto simp: connect_def)
  with a obtain ips where l: "lookup_ip N addr = Some (ip # ips)"
    by (auto simp: resolve_dns_def split: if_splits option.splits list.splits)
  obtain stream where s: "tcp_connect N ip port = Inl stream"
    using assms(2) a ip by (cases "tcp_connect N ip port") (auto simp: connect_def)
  then have "tls_connect N (verify_server_cert (exact_verifier_new cts)) (bs ''bread.com'') stream = Inl t"
    using assms(2) a ip by (auto simp: connect_def split: if_splits sum.splits)
  note c = l s this
  have "verify_server_cert (exact_verifier_new cts) (peer_cert N t) = Inr ()"
    using assms(1) c(3) by (auto simp: verified_handshakes_def)
  then have "peer_cert N t \<in> set cts"
    by (simp add: verify_server_cert_def exact_verifier_new_def list_ex_iff split: if_splits)
  with c show ?thesis by auto
qed

text \<open>A network with one host whose server has the certificate \<open>[7]\<close>.\<close>

definition ex_net :: "(nat, nat, bytes) net" where
  "ex_net =
     \<lparr>new_resolver = True, lookup_ip = (\<lambda>h. if h = bs ''node'' then Some [1] else None),
      tcp_connect = (\<lambda>ip port. Inl ip), server_name_ok = (\<lambda>_. True),
      tls_connect = (\<lambda>v name s. if v [7] = Inr () then Inl [7] else Inr OtherIO), peer_cert = id\<rparr>"

theorem connect_only_pinned_witness:
  "connect ex_net (bs ''node'') 7719 [[5], [7]] = Ok [7] \<and> peer_cert ex_net [7] \<in> set [[5], [7]]"
proof -
  have "verified_handshakes ex_net"
    by (simp add: verified_handshakes_def ex_net_def)
  moreover have "connect ex_net (bs ''node'') 7719 [[5], [7]] = Ok [7]"
    by (simp add: connect_def resolve_dns_def ex_net_def verify_server_cert_def exact_verifier_new_def)
  ultimately show ?thesis
    using connect_only_pinned [of ex_net] by blast
qed

end
