(* ===== verification/Crate_Tests.thy ===== *)
theory Crate_Tests
  imports LSM_Recovery
begin

text \<open>
  The unit tests of the crate, \<^verbatim>\<open>mod tests\<close> of \<^verbatim>\<open>src/store/lsm.rs\<close>,
  \<^verbatim>\<open>src/store/lsm/commit_log.rs\<close> and \<^verbatim>\<open>src/store/lsm/sstable.rs\<close>, as programs over the
  definitions of the model.  A failed assertion or \<^verbatim>\<open>expect\<close> is a panic, so that a test passes
  when it returns.  The random identifiers, the temporary directory, the disk it is on and the
  times at which the background task runs are arguments: the tests pass for all of them.
\<close>

section \<open>Assertions\<close>

definition assert_eq :: "'a \<Rightarrow> 'a \<Rightarrow> ('s, unit) action" where
  "assert_eq a b s = (if a = b then Ok () else Panic ''assertion failed: `(left == right)`'', s)"

definition expect_some :: "string \<Rightarrow> 'a option \<Rightarrow> ('s, 'a) action" where
  "expect_some m x s = (case x of Some a \<Rightarrow> Ok a | None \<Rightarrow> Panic m, s)"

lemma assert_eq_same [simp]: "assert_eq a a s = (Ok (), s)"
  by (simp add: assert_eq_def)

lemma expect_some_Some [simp]: "expect_some m (Some a) s = (Ok a, s)"
  by (simp add: expect_some_def)

section \<open>Tests of the commit log\<close>

definition unfinished :: "commit_log_line codec \<Rightarrow> read_env \<Rightarrow> (commit_log \<times> fs, transaction list) action" where
  "unfinished C rd cs =
     (case get_unfinished_transactions C rd (fst cs) (snd cs) of (r, f) \<Rightarrow> (r, (fst cs, f)))"

definition log_test_end_to_end ::
    "commit_log_line codec \<Rightarrow> read_env \<Rightarrow> path \<Rightarrow> uuid \<Rightarrow> uuid \<Rightarrow> uuid \<Rightarrow> fs \<Rightarrow> unit result" where
  "log_test_end_to_end C rd p u1 u2 u3 f =
     (let tx1 = with_random_id u1 [operation_set (bs ''foo'') (bs ''bar'')];
          tx2 = with_random_id u2 [operation_set (bs ''foo'') (bs ''bar'')];
          tx3 = with_random_id u3 [operation_set (bs ''foo'') (bs ''bar'')]
      in fst (sbind (begin_transaction C tx1) (\<lambda>_.
         sbind (begin_transaction C tx2) (\<lambda>_.
         sbind (begin_transaction C tx3) (\<lambda>_.
         sbind (end_transaction C (tx_id tx1)) (\<lambda>_.
         sbind (unfinished C rd) (\<lambda>txs.
         sbind (assert_eq [tx2, tx3] txs) (\<lambda>_.
         sbind (end_transaction C (tx_id tx3)) (\<lambda>_.
         sbind (unfinished C rd) (\<lambda>txs.
         assert_eq [tx2] txs)))))))) (commit_log_new p, f)))"

definition log_test_empty_log :: "commit_log_line codec \<Rightarrow> read_env \<Rightarrow> path \<Rightarrow> fs \<Rightarrow> unit result" where
  "log_test_empty_log C rd p f =
     fst (sbind (unfinished C rd) (\<lambda>txs. assert_eq [] txs) (commit_log_new p, f))"

lemma append_lines:
  assumes "faults f = []" and "log_ready cl f" and "encode C l = Ok b"
  shows "\<exists>cl' f'. append_line C l (cl, f) = (Ok (), (cl', f')) \<and> log_path cl' = log_path cl \<and> faults f' = [] \<and>
     log_ready cl' f' \<and> log_bytes cl' f' = log_bytes cl f @ b \<and> file_of (log_path cl') f' = Some (log_bytes cl f @ b)"
  using append_line_ok [OF assms] by (auto simp: log_ready_def log_bytes_def)

lemma unfinished_lines:
  assumes "codec_ok C" and "size_reads rd" and "encode_all C ls = Ok (log_bytes cl f)" and "log_readable rd (log_bytes cl f)"
    and "faults f = []" and "file_of (log_path cl) f = Some (log_bytes cl f)"
  shows "unfinished C rd (cl, f) = (Ok (open_txs ls), (cl, f))"
  using replay_lines [OF assms(1-5), where cl = cl and rest = "[]"] assms(6) by (simp add: unfinished_def)

text \<open>
  The test of the commit log passes for every lawful serializer, every path that is not in use
  and every three different identifiers, when the log can be read back.
\<close>

theorem log_test_end_to_end_passes:
  assumes "codec_ok C" and "size_reads rd" and "faults f = []" and "file_of p f = None" and "distinct [u1, u2, u3]"
    and "encode_all C [BeginTx (with_random_id u1 [operation_set (bs ''foo'') (bs ''bar'')]),
        BeginTx (with_random_id u2 [operation_set (bs ''foo'') (bs ''bar'')]),
        BeginTx (with_random_id u3 [operation_set (bs ''foo'') (bs ''bar'')]), EndTx u1, EndTx u3] = Ok b"
    and "log_readable rd b"
  shows "log_test_end_to_end C rd p u1 u2 u3 f = Ok ()"
proof -
  let ?tx = "\<lambda>u. with_random_id u [operation_set (bs ''foo'') (bs ''bar'')]"
  obtain b1 b2 b3 b4 b5 where b: "encode C (BeginTx (?tx u1)) = Ok b1" "encode C (BeginTx (?tx u2)) = Ok b2"
      "encode C (BeginTx (?tx u3)) = Ok b3" "encode C (EndTx u1) = Ok b4" "encode C (EndTx u3) = Ok b5"
      "b = (b1 @ b2 @ b3 @ b4) @ b5"
    using assms(6) by (auto simp: rbind_eq_Ok_iff)
  have l0: "log_ready (commit_log_new p) f" "log_bytes (commit_log_new p) f = []"
    using assms(4) by (simp_all add: log_ready_def commit_log_new_def log_bytes_def)
  obtain c1 f1 where 1: "append_line C (BeginTx (?tx u1)) (commit_log_new p, f) = (Ok (), (c1, f1))"
      "faults f1 = []" "log_ready c1 f1" "log_bytes c1 f1 = b1"
    using append_lines [OF assms(3) l0(1) b(1)] l0(2) by auto
  obtain c2 f2 where 2: "append_line C (BeginTx (?tx u2)) (c1, f1) = (Ok (), (c2, f2))"
      "faults f2 = []" "log_ready c2 f2" "log_bytes c2 f2 = b1 @ b2"
    using append_lines [OF 1(2,3) b(2)] 1(4) by auto
  obtain c3 f3 where 3: "append_line C (BeginTx (?tx u3)) (c2, f2) = (Ok (), (c3, f3))"
      "faults f3 = []" "log_ready c3 f3" "log_bytes c3 f3 = b1 @ b2 @ b3"
    using append_lines [OF 2(2,3) b(3)] 2(4) by auto
  obtain c4 f4 where 4: "append_line C (EndTx u1) (c3, f3) = (Ok (), (c4, f4))" "faults f4 = []" "log_ready c4 f4"
      "log_bytes c4 f4 = b1 @ b2 @ b3 @ b4" "file_of (log_path c4) f4 = Some (b1 @ b2 @ b3 @ b4)"
    using append_lines [OF 3(2,3) b(4)] 3(4) by auto
  obtain c5 f5 where 5: "append_line C (EndTx u3) (c4, f4) = (Ok (), (c5, f5))" "faults f5 = []"
      "log_bytes c5 f5 = b" "file_of (log_path c5) f5 = Some b"
    using append_lines [OF 4(2,3) b(5)] 4(4) b(6) by auto
  have e4: "encode_all C [BeginTx (?tx u1), BeginTx (?tx u2), BeginTx (?tx u3), EndTx u1] = Ok (b1 @ b2 @ b3 @ b4)"
    using b by simp
  have "log_readable rd (b1 @ b2 @ b3 @ b4)"
    using log_readable_prefix [OF assms(1) e4, of rd b5] assms(7) b(6) by simp
  then have "unfinished C rd (c4, f4) = (Ok (open_txs [BeginTx (?tx u1), BeginTx (?tx u2), BeginTx (?tx u3), EndTx u1]), (c4, f4))"
    using e4 4 by (intro unfinished_lines [OF assms(1,2)]) simp_all
  moreover have "unfinished C rd (c5, f5) =
      (Ok (open_txs [BeginTx (?tx u1), BeginTx (?tx u2), BeginTx (?tx u3), EndTx u1, EndTx u3]), (c5, f5))"
    using assms(6,7) 5 by (intro unfinished_lines [OF assms(1,2)]) simp_all
  moreover have "open_txs [BeginTx (?tx u1), BeginTx (?tx u2), BeginTx (?tx u3), EndTx u1] = [?tx u2, ?tx u3]"
      "open_txs [BeginTx (?tx u1), BeginTx (?tx u2), BeginTx (?tx u3), EndTx u1, EndTx u3] = [?tx u2]"
    using assms(5) by (auto simp: with_random_id_def)
  ultimately show ?thesis
    using 1(1) 2(1) 3(1) 4(1) 5(1)
    by (simp del: open_txs.simps add: log_test_end_to_end_def begin_transaction_def end_transaction_def Let_def with_random_id_def)
qed

theorem log_test_empty_log_passes:
  assumes "codec_ok C" and "size_reads rd" and "faults f = []" and "file_of p f = None"
  shows "log_test_empty_log C rd p f = Ok ()"
proof -
  let ?f = "put_file p [] f"
  have "get_unfinished_transactions C rd (commit_log_new p) ?f = (Ok (open_txs []), ?f)"
    using assms by (intro replay_lines [where b = "[]" and rest = "[]"]) (simp_all add: commit_log_new_def)
  moreover have "get_unfinished_transactions C rd (commit_log_new p) f = get_unfinished_transactions C rd (commit_log_new p) ?f"
    using assms(3,4) fs_open_create_old [of ?f p "[]"]
    by (simp add: get_unfinished_transactions_def sbind_def fs_open_create_new commit_log_new_def)
  ultimately show ?thesis
    by (simp add: log_test_empty_log_def unfinished_def)
qed

section \<open>Tests of tables\<close>

definition test_memtable :: memtable where
  "test_memtable =
     [(bs ''bar'', Data (bs ''qux'')), (bs ''foo'', Data (bs ''bar'')), (bs ''qux'', Data (bs ''boom'')), (bs ''zip'', Tombstone)]"

definition sst_test_read_write :: "'z sst_env_scheme \<Rightarrow> path \<Rightarrow> fs \<Rightarrow> unit result" where
  "sst_test_read_write E p f =
     fst (sbind (sst_write E p test_memtable) (\<lambda>_.
       sbind (sst_search E p (bs ''bar'')) (\<lambda>r.
       sbind (assert_eq (Some (Data (bs ''qux''))) r) (\<lambda>_.
       sbind (sst_search E p (bs ''zip'')) (\<lambda>r.
       sbind (assert_eq (Some Tombstone) r) (\<lambda>_.
       sbind (sst_search E p (bs ''missing'')) (\<lambda>r.
       sbind (assert_eq None r) (\<lambda>_.
       sbind (sst_scan E p (bs ''bar'') (bs ''quxx'')) (\<lambda>r.
       sbind (assert_eq [(bs ''bar'', Data (bs ''qux'')), (bs ''foo'', Data (bs ''bar'')),
                         (bs ''qux'', Data (bs ''boom''))] r) (\<lambda>_.
       sbind (sst_keys E p) (\<lambda>r.
       assert_eq [bs ''bar'', bs ''foo'', bs ''qux'', bs ''zip''] r)))))))))) f)"

definition sst_test_already_exists_error :: "'z sst_env_scheme \<Rightarrow> path \<Rightarrow> fs \<Rightarrow> unit result" where
  "sst_test_already_exists_error E p f =
     (let memtable = [(bs ''foo'', Data (bs ''bar''))]
      in fst (sbind (sst_write E p memtable) (\<lambda>_ f'.
           case sst_write E p memtable f' of
             (Err (Err_E msg), f'') \<Rightarrow> assert_eq (bs ''File '' @ path_str p @ bs '' already exists'') msg f''
           | (_, f'') \<Rightarrow> (Panic ''assertion failed: res.is_err()'', f'')) f))"

theorem sst_test_read_write_passes:
  assumes "sst_env_ok E" and "faults f = []" and "bt_wf (files f)" and "file_of p f = None"
    and "readable E test_memtable" and "sst_image E test_memtable = Ok c"
  shows "sst_test_read_write E p f = Ok ()"
proof -
  have w: "sst_write E p test_memtable f = (Ok (), put_file p c f)"
    by (rule sst_write_image [OF assms(2,3,4,6)])
  have m: "bt_wf test_memtable" "bt_get test_memtable (bs ''bar'') = Some (Data (bs ''qux''))"
      "bt_get test_memtable (bs ''zip'') = Some Tombstone" "bt_get test_memtable (bs ''missing'') = None"
      "filter (\<lambda>e. in_range (bs ''bar'') (bs ''quxx'') (fst e)) test_memtable =
       [(bs ''bar'', Data (bs ''qux'')), (bs ''foo'', Data (bs ''bar'')), (bs ''qux'', Data (bs ''boom''))]"
      "map fst test_memtable = [bs ''bar'', bs ''foo'', bs ''qux'', bs ''zip'']" "bs ''bar'' \<le> bs ''quxx''"
    by code_simp+
  have h: "sst_holds E p test_memtable (put_file p c f)" "faults (put_file p c f) = []"
    using sst_write_holds [OF assms(2,3) m(1) assms(5) w] by simp_all
  note r = sst_search_holds [OF assms(1) h(2,1)] sst_scan_holds [OF assms(1) h(2,1) m(7)] sst_keys_holds [OF assms(1) h(2,1)]
  show ?thesis
    unfolding sst_test_read_write_def using w by (simp add: r m(2-6))
qed

theorem sst_test_already_exists_error_passes:
  assumes "faults f = []" and "bt_wf (files f)" and "file_of p f = None"
    and "sst_image E [(bs ''foo'', Data (bs ''bar''))] = Ok c"
  shows "sst_test_already_exists_error E p f = Ok ()"
proof -
  have w: "sst_write E p [(bs ''foo'', Data (bs ''bar''))] f = (Ok (), put_file p c f)"
    by (rule sst_write_image [OF assms])
  have "sst_write E p [(bs ''foo'', Data (bs ''bar''))] (put_file p c f) =
      (Err (Err_E (bs ''File '' @ path_str p @ bs '' already exists'')), put_file p c f)"
    using assms(1) by (intro existing_table_kept [of _ _ c]) simp_all
  with w show ?thesis
    by (simp add: sst_test_already_exists_error_def)
qed

section \<open>Tests of the LSM store\<close>

definition setup_db :: "path \<Rightarrow> nat \<Rightarrow> fs \<Rightarrow> 'b lsm_store" where
  "setup_db dir max_bytes f = lsm_new dir (dir @ [bs ''commit_log'']) max_bytes f"

text \<open>
  Waiting for an event: the background task runs, at time \<open>t\<close>, and the receiver takes the oldest
  event there is; without one the wait times out.
\<close>

definition recv_event :: "('b, 'z) lsm_env_scheme \<Rightarrow> nat \<Rightarrow> ('b lsm_store, lsm_event) action" where
  "recv_event E t s =
     sbind (background_tick E) (\<lambda>_ s'.
       case events_sent s' of
         [] \<Rightarrow> (Err Err_Timeout, s')
       | e # es \<Rightarrow> (Ok e, s'\<lparr>events_sent := es\<rparr>)) (s\<lparr>lsm_fs := (lsm_fs s)\<lparr>clock := t\<rparr>\<rparr>)"

definition check_get :: "('b, 'z) lsm_env_scheme \<Rightarrow> string \<Rightarrow> string \<Rightarrow> ('b lsm_store, unit) action" where
  "check_get E k v =
     sbind (lsm_get E (bs k)) (\<lambda>r. sbind (expect_some ''Could not find key'' r) (\<lambda>d. assert_eq (bs v) d))"

definition check_scan :: "('b, 'z) lsm_env_scheme \<Rightarrow> string \<Rightarrow> string \<Rightarrow> string list \<Rightarrow> ('b lsm_store, unit) action" where
  "check_scan E a b vs = sbind (lsm_scan E (bs a) (bs b)) (\<lambda>r. assert_eq (map bs vs) r)"

definition sets :: "uuid \<Rightarrow> (string \<times> string) list \<Rightarrow> transaction" where
  "sets i kvs = with_random_id i (map (\<lambda>(k, v). operation_set (bs k) (bs v)) kvs)"

definition lsm_test_end_to_end :: "('b, 'z) lsm_env_scheme \<Rightarrow> path \<Rightarrow> uuid \<Rightarrow> nat \<Rightarrow> fs \<Rightarrow> unit result" where
  "lsm_test_end_to_end E dir i t f =
     fst (sbind (lsm_initialize E) (\<lambda>_ s.
       sbind (lsm_transact E (sets i [(''foo'', ''foobar'')])) (\<lambda>_.
       sbind (check_get E ''foo'' ''foobar'') (\<lambda>_.
       sbind (recv_event E t) (\<lambda>event. case event of WriteSSTable sstable_path \<Rightarrow>
       sbind (check_get E ''foo'' ''foobar'') (\<lambda>_.
       sbind (on_disk (fs_read_dir dir)) (\<lambda>ps.
         let sst_files = filter is_sst ps in
       sbind (assert_eq [sstable_path] sst_files) (\<lambda>_.
       sbind get_sstables_asc (\<lambda>asc.
       assert_eq sst_files asc))))))) (lsm_events s)) (setup_db dir 1 f))"

definition lsm_test_crash_recovery :: "('b, 'z) lsm_env_scheme \<Rightarrow> path \<Rightarrow> uuid \<Rightarrow> fs \<Rightarrow> unit result" where
  "lsm_test_crash_recovery E dir i f =
     fst (sbind (lsm_transact E (sets i [(''foo'', ''bar'')])) (\<lambda>_ s.
       sbind (lsm_initialize E) (\<lambda>_.
       check_get E ''foo'' ''bar'') (setup_db dir 1000 (lsm_fs s))) (setup_db dir 1000 f))"

definition lsm_test_shutdown_recovery :: "('b, 'z) lsm_env_scheme \<Rightarrow> path \<Rightarrow> uuid \<Rightarrow> fs \<Rightarrow> unit result" where
  "lsm_test_shutdown_recovery E dir i f =
     fst (sbind (lsm_transact E (sets i [(''foo'', ''bar'')])) (\<lambda>_.
       sbind (lsm_shutdown E) (\<lambda>_ s.
       sbind (lsm_initialize E) (\<lambda>_.
       sbind (check_get E ''foo'' ''bar'') (\<lambda>_.
       sbind (reconstruct_bloom_map_from_sstables E) (\<lambda>reconstructed_bloom.
       assert_eq 1 (length reconstructed_bloom)))) (setup_db dir 1000 (lsm_fs s)))) (setup_db dir 1000 f))"

definition lsm_test_scan :: "('b, 'z) lsm_env_scheme \<Rightarrow> path \<Rightarrow> uuid \<Rightarrow> uuid \<Rightarrow> nat \<Rightarrow> nat \<Rightarrow> fs \<Rightarrow> unit result" where
  "lsm_test_scan E dir i j t1 t2 f =
     fst (sbind (lsm_initialize E) (\<lambda>_ s.
       sbind (lsm_transact E (sets i
         [(''a'', ''first''), (''b'', ''second''), (''c'', ''third''), (''d'', ''fourth''), (''e'', ''fifth'')])) (\<lambda>_.
       sbind (check_scan E ''b'' ''dd'' [''second'', ''third'', ''fourth'']) (\<lambda>_.
       sbind (check_scan E ''ee'' ''f'' []) (\<lambda>_.
       sbind (check_scan E ''cc'' ''z'' [''fourth'', ''fifth'']) (\<lambda>_.
       sbind (recv_event E t1) (\<lambda>_.
       sbind (check_scan E ''b'' ''dd'' [''second'', ''third'', ''fourth'']) (\<lambda>_.
       sbind (lsm_transact E (sets j [(''0'', ''zeroth''), (''f'', ''sixth'')])) (\<lambda>_.
       sbind (check_scan E ''0'' ''z'' [''zeroth'', ''first'', ''second'', ''third'', ''fourth'', ''fifth'', ''sixth'']) (\<lambda>_.
       sbind (recv_event E t2) (\<lambda>_.
       check_scan E ''0'' ''z'' [''zeroth'', ''first'', ''second'', ''third'', ''fourth'', ''fifth'', ''sixth''])))))))))
         (lsm_events s)) (setup_db dir 1 f))"

subsection \<open>Stores over an empty directory\<close>

definition fresh_dir :: "path \<Rightarrow> fs \<Rightarrow> bool" where
  "fresh_dir dir f \<longleftrightarrow> faults f = [] \<and> bt_wf (files f) \<and> milli_ok (as_millis (clock f)) \<and>
     (\<forall>q. in_dir dir q \<longrightarrow> bt_get (files f) q = None)"

lemma in_dir_snoc [simp]: "in_dir dir (dir @ [n])"
  by (simp add: in_dir_def)

lemma not_sst_commit_log: "\<not> is_sst (dir @ [bs ''commit_log''])" "bs ''commit_log'' \<noteq> bs ''bloom_map''"
  by (simp_all add: is_sst_def extension_def bs_def)

lemma setup_db_simps [simp]:
  "data_dir (setup_db dir n f) = dir" "lsm_fs (setup_db dir n f) = f" "memtable (setup_db dir n f) = []"
  "tx_ids (setup_db dir n f) = []" "log_path (lsm_log (setup_db dir n f)) = dir @ [bs ''commit_log'']"
  "bloom_map_path (setup_db dir n f) = dir @ [bs ''bloom_map'']" "memtable_max_bytes (setup_db dir n f) = n"
  "event_receivers (setup_db dir n f) = 0" "events_sent (setup_db dir n f) = []" "\<not> is_shutdown (setup_db dir n f)"
  by (simp_all add: setup_db_def lsm_new_def commit_log_new_def)

lemma setup_db_restart:
  "data_dir s = dir \<Longrightarrow> log_path (lsm_log s) = dir @ [bs ''commit_log''] \<Longrightarrow> setup_db dir n (lsm_fs s) = restart s n"
  by (simp add: setup_db_def restart_def)

lemma setup_db_durable:
  fixes E :: "('b, 'z) lsm_env_scheme"
  assumes "lsm_env_ok E" and "fresh_dir dir f"
  shows "durable E (setup_db dir n f) []" and "lsm_map E (setup_db dir n f) = Map.empty"
    and "lsm_paths (setup_db dir n f :: 'b lsm_store) = []"
proof -
  have none: "bt_get (files f) (dir @ [x]) = None" for x
    using assms(2) by (simp add: fresh_dir_def)
  have "q \<notin> set (sst_paths dir f)" for q
    using assms(2) in_sst_paths [of q dir f] by (simp add: fresh_dir_def file_of_def)
  then have p: "sst_paths dir f = []"
    by (metis list.exhaust list.set_intros(1))
  have f: "faults f = []" "bt_wf (files f)" "milli_ok (as_millis (clock f))"
    using assms(2) by (simp_all add: fresh_dir_def)
  have l: "\<not> (in_dir dir (dir @ [bs ''commit_log'']) \<and> is_sst (dir @ [bs ''commit_log'']))"
      "dir @ [bs ''commit_log''] \<noteq> dir @ [bs ''bloom_map'']"
    using not_sst_commit_log by simp_all
  note i = lsm_new_inv [OF assms(1) f(1,2) p l, of n, folded setup_db_def]
  show "lsm_map E (setup_db dir n f) = Map.empty" "lsm_paths (setup_db dir n f :: 'b lsm_store) = []"
    using i(2) p by (simp_all add: lsm_paths_def)
  show "durable E (setup_db dir n f) []"
    using i(1,3) f(3) p none
    by (simp add: durable_def lsm_live_def log_holds_def log_bytes_def file_of_def filters_fresh_def replay_def
        lsm_paths_def)
qed

subsection \<open>Steps of the tests\<close>

text \<open>A store with one subscriber, as the tests use it.\<close>

definition watching :: "('b, 'z) lsm_env_scheme \<Rightarrow> path \<Rightarrow> 'b lsm_store \<Rightarrow> bool" where
  "watching E dir s \<longleftrightarrow> lsm_plain E s \<and> data_dir s = dir \<and> event_receivers s = 1 \<and> events_sent s = [] \<and>
     \<not> is_shutdown s \<and> memtable_max_bytes s = 1"

lemma start_watching:
  fixes E :: "('b, 'z) lsm_env_scheme"
  assumes "lsm_env_ok E" and "fresh_dir dir f"
  shows "\<exists>s. lsm_initialize E (setup_db dir 1 f) = (Ok (), s) \<and> watching E dir (lsm_events s) \<and>
     lsm_view E (lsm_events s) = Map.empty \<and> lsm_paths (lsm_events s) = [] \<and> memtable (lsm_events s) = [] \<and>
     clock (lsm_fs (lsm_events s)) = clock f"
proof -
  let ?s = "setup_db dir 1 f :: 'b lsm_store"
  note d = setup_db_durable [OF assms, of 1]
  have r: "restart ?s 1 = ?s"
    using setup_db_restart [of ?s dir 1, symmetric] by simp
  obtain s bm g where s: "lsm_initialize E ?s = (Ok (), s)" "durable E s []"
      "lsm_map E s = disk_map E ?s ++ map_of (replay [])" "lsm_paths s = lsm_paths ?s"
      "s = ?s\<lparr>bloom_map := bm, lsm_fs := g, tx_ids := [], memtable := replay []\<rparr>" "clock g = clock (lsm_fs ?s)"
    using initialize_ok [OF durableD(3,4,5,2) [OF d(1)], of 1, unfolded r open_txs.simps list.map]
    by (elim exE conjE) (rule that, assumption+)
  have m: "memtable (lsm_events s) = []" "data_dir s = dir" "event_receivers s = 0" "events_sent s = []"
      "\<not> is_shutdown s" "memtable_max_bytes s = 1" "clock (lsm_fs s) = clock f"
    using s(5,6) by (simp_all add: lsm_events_def replay_def)
  have "lsm_plain E (lsm_events s)"
    using s(2) m(1) by (simp add: lsm_plain_def durable_def lsm_events_def live_fields unmasked_def)
  moreover have "lsm_view E (lsm_events s) = Map.empty" "lsm_paths (lsm_events s) = []"
    using s(3,4) d(2,3) by (simp_all add: lsm_view_def lsm_map_def replay_def lsm_events_def lsm_paths_def)
  ultimately show ?thesis
    using s(1) m by (simp add: watching_def) (simp add: lsm_events_def)
qed

lemma transact_watching:
  assumes "watching E dir s" and "plain_tx E tx"
  shows "\<exists>s'. lsm_transact E tx s = (Ok (), s') \<and> watching E dir s' \<and>
     lsm_view E s' = apply_ops (operations tx) (lsm_view E s) \<and> lsm_paths s' = lsm_paths s \<and>
     memtable s' = fold memtable_instruction (operations tx) (memtable s) \<and> clock (lsm_fs s') = clock (lsm_fs s)"
proof -
  have p: "lsm_plain E s" "lsm_inv E s"
    using assms(1) by (simp_all add: watching_def lsm_plain_def lsm_live_def)
  obtain s' where s': "lsm_transact E tx s = (Ok (), s')" "lsm_plain E s'" "lsm_view E s' = apply_ops (operations tx) (lsm_view E s)"
    using lsm_kv.transact_law [OF p(1) assms(2)] by blast
  obtain b where "encode (line_codec E) (BeginTx tx) = Ok b"
    using assms(2) by (auto simp: plain_tx_def loggable_def)
  from lsm_transact_ok [OF p(2) this] s'(1) obtain cl g where
    "s' = s\<lparr>lsm_log := cl, lsm_fs := g, tx_ids := tx_ids s @ [tx_id tx],
       memtable := fold memtable_instruction (operations tx) (memtable s)\<rparr>"
    "same_tables (data_dir s) (lsm_fs s) g" "clock g = clock (lsm_fs s)"
    by auto
  with s' assms(1) same_tablesD(1) show ?thesis
    by (auto simp: watching_def lsm_paths_def)
qed

lemma recv_watching:
  assumes w: "watching E dir s" and m: "memtable s \<noteq> []" "readable E (memtable s)" "sst_image E (memtable s) = Ok c"
    and t: "clock (lsm_fs s) \<le> t" "milli_ok (as_millis t)" "table_path dir (as_millis t) \<notin> set (lsm_paths s)"
  shows "\<exists>s'. recv_event E t s = (Ok (WriteSSTable (table_path dir (as_millis t))), s') \<and> watching E dir s' \<and>
     lsm_view E s' = lsm_view E s \<and> lsm_paths s' = lsm_paths s @ [table_path dir (as_millis t)] \<and>
     memtable s' = [] \<and> clock (lsm_fs s') = t"
proof -
  let ?s = "s\<lparr>lsm_fs := (lsm_fs s)\<lparr>clock := t\<rparr>\<rparr>" and ?p = "table_path dir (as_millis t)"
  have live: "lsm_live E s"
    using w by (simp add: watching_def lsm_plain_def)
  have sc: "same_contents E s ?s"
    by (rule time_same [OF live t(1,2)])
  then have l: "lsm_live E ?s" "lsm_inv E ?s" "names_ok ?s"
    by (simp_all add: same_contents_def lsm_live_def)
  have p: "flush_path ?s = ?p"
    using w by (simp add: flush_path_eq watching_def)
  have ps: "lsm_paths ?s = lsm_paths s"
    by (simp add: lsm_paths_def sst_paths_def)
  have new: "file_of (flush_path ?s) (lsm_fs ?s) = None"
    using t(3) w in_sst_paths [of ?p dir "lsm_fs s"] unfolding p by (simp add: watching_def lsm_paths_def file_of_def)
  have newest: "\<forall>q \<in> set (lsm_paths ?s). q < flush_path ?s"
    by (rule newest_name [OF l(3) new])
  obtain s1 where s1: "write_sstable E ?s = (Ok (Some ?p), s1)"
    using write_sstable_succeeds [OF l(2) _ _ newest new] m unfolding p by auto
  obtain s2 where s2: "flush_cut E (length (tx_ids ?s)) ?s s2" "s1 = s2\<lparr>tx_ids := []\<rparr>"
    using write_sstable_cut [OF s1] m(1) by auto
  obtain cl g bm where s3: "s2 = ?s\<lparr>lsm_log := cl, lsm_fs := g, bloom_map := bm, memtable := []\<rparr>"
      "lsm_paths s2 = lsm_paths ?s @ [flush_path ?s]" "clock g = t"
    using flush_cut_disk [OF l(2,3) _ s2(1)] m(2) by auto
  have "same_contents E ?s s1"
    using flush_same [OF l(1) _ s1] m(2) by simp
  then have c: "lsm_live E s1" "lsm_view E s1 = lsm_view E s" "memtable s1 = []"
    using sc s2(2) s3(1) by (simp_all add: same_contents_def lsm_view_def)
  have f: "data_dir s1 = dir" "event_receivers s1 = 1" "events_sent s1 = []" "\<not> is_shutdown s1" "memtable_max_bytes s1 = 1"
      "clock (lsm_fs s1) = t" "lsm_paths s1 = lsm_paths s @ [?p]"
    using w s2(2) s3 ps p by (simp_all add: watching_def) (simp_all add: lsm_paths_def)
  have "background_tick E ?s = (Ok Running, s1\<lparr>events_sent := [WriteSSTable ?p]\<rparr>)"
    using w m(1) s1 f(2,3)
    by (simp add: background_tick_def watching_def should_flush_memtable_def size_of_BTreeMap_def)
  then have "recv_event E t s = (Ok (WriteSSTable ?p), s1\<lparr>events_sent := []\<rparr>)"
    by (simp add: recv_event_def)
  moreover have "s1\<lparr>events_sent := []\<rparr> = s1"
    using f(3) by simp
  moreover have "watching E dir s1"
    using c(1,3) f by (simp add: watching_def lsm_plain_def unmasked_def)
  ultimately show ?thesis
    using c f by auto
qed

lemma check_get_passes:
  "lsm_plain E s \<Longrightarrow> lsm_view E s (bs k) = Some (bs v) \<Longrightarrow> check_get E k v s = (Ok (), s)"
  by (simp add: check_get_def lsm_kv.get_law)

lemma check_scan_passes:
  assumes "lsm_plain E s" and "lsm_view E s = map_of m" and "bt_wf m" and "bs a \<le> bs b"
    and "map snd (filter (\<lambda>e. in_range (bs a) (bs b) (fst e)) m) = map bs vs"
  shows "check_scan E a b vs s = (Ok (), s)"
  using lsm_kv.scan_law [OF assms(1,4)] filter_range_values [OF assms(3), of "bs a" "bs b"] assms(2,5)
  by (simp add: check_scan_def)

lemma sets_simps [simp]: "tx_id (sets i kvs) = i"
  by (simp add: sets_def with_random_id_def)

lemma sets_plain: "loggable E (sets i kvs) \<Longrightarrow> plain_tx E (sets i kvs)"
  by (auto simp: plain_tx_def sets_def with_random_id_def operation_set_def list_all_iff)

lemma apply_sets: "apply_ops (operations (sets i kvs)) m = m ++ map_of (rev (map (\<lambda>(k, v). (bs k, bs v)) kvs))"
proof (induction kvs arbitrary: m)
  case (Cons kv kvs)
  then show ?case
    by (cases kv) (auto simp: apply_ops_def sets_def with_random_id_def operation_set_def fun_eq_iff map_add_def
        split: option.splits)
qed (simp add: apply_ops_def sets_def with_random_id_def)

lemma memtable_not_Nil: "ops \<noteq> [] \<Longrightarrow> fold memtable_instruction ops m \<noteq> []"
proof (induction ops rule: rev_induct)
  case (snoc op ops)
  then show ?case
    by (cases op) (simp_all add: bt_insert_not_Nil)
qed simp

subsection \<open>The tests pass\<close>

theorem lsm_test_end_to_end_passes:
  assumes "lsm_env_ok E" and "fresh_dir dir f" and "loggable E (sets i [(''foo'', ''foobar'')])"
    and "readable E [(bs ''foo'', Data (bs ''foobar''))]" and "sst_image E [(bs ''foo'', Data (bs ''foobar''))] = Ok c"
    and "clock f \<le> t" and "milli_ok (as_millis t)"
  shows "lsm_test_end_to_end E dir i t f = Ok ()"
proof -
  let ?tx = "sets i [(''foo'', ''foobar'')]" and ?p = "table_path dir (as_millis t)"
  obtain s0 where s0: "lsm_initialize E (setup_db dir 1 f) = (Ok (), s0)" "watching E dir (lsm_events s0)"
      "lsm_view E (lsm_events s0) = Map.empty" "lsm_paths (lsm_events s0) = []" "memtable (lsm_events s0) = []"
      "clock (lsm_fs (lsm_events s0)) = clock f"
    using start_watching [OF assms(1,2)] by blast
  obtain s1 where s1: "lsm_transact E ?tx (lsm_events s0) = (Ok (), s1)" "watching E dir s1"
      "lsm_view E s1 = [bs ''foo'' \<mapsto> bs ''foobar'']" "lsm_paths s1 = []"
      "memtable s1 = [(bs ''foo'', Data (bs ''foobar''))]" "clock (lsm_fs s1) = clock f"
    using transact_watching [OF s0(2) sets_plain [OF assms(3)]] s0(3-6) apply_sets [of i "[(''foo'', ''foobar'')]" Map.empty]
    by (auto simp: sets_def with_random_id_def operation_set_def)
  obtain s2 where s2: "recv_event E t s1 = (Ok (WriteSSTable ?p), s2)" "watching E dir s2" "lsm_view E s2 = lsm_view E s1" "lsm_paths s2 = [?p]"
    using recv_watching [OF s1(2), of c t] s1(4-6) assms(4-7) by auto
  have g: "check_get E ''foo'' ''foobar'' s1 = (Ok (), s1)" "check_get E ''foo'' ''foobar'' s2 = (Ok (), s2)"
    using s1(2,3) s2(2,3) by (auto simp: watching_def intro!: check_get_passes)
  have d: "faults (lsm_fs s2) = []" "bt_wf (files (lsm_fs s2))" "data_dir s2 = dir"
    using s2(2) by (auto simp: watching_def lsm_plain_def lsm_live_def lsm_inv_def disk_ok_def)
  have "on_disk (fs_read_dir dir) s2 = (Ok (filter (in_dir dir) (map fst (files (lsm_fs s2)))), s2)"
    by (rule on_disk_same) (simp add: fs_simps d(1))
  moreover have "filter is_sst (filter (in_dir dir) (map fst (files (lsm_fs s2)))) = [?p]"
    using s2(4) d(3) by (simp add: lsm_paths_def sst_paths_def)
  ultimately show ?thesis
    using s0(1) s1(1) s2(1,4) g get_sstables_asc_ok [OF d(1,2)] by (simp add: lsm_test_end_to_end_def Let_def del: filter_filter)
qed

text \<open>A store over an empty directory after its first transaction.\<close>

lemma set_foo:
  fixes E :: "('b, 'z) lsm_env_scheme"
  assumes env: "lsm_env_ok E" and fresh: "fresh_dir dir f"
    and b: "encode (line_codec E) (BeginTx (sets i [(''foo'', ''bar'')])) = Ok b" and rd: "log_readable (log_reads E) b"
  shows "\<exists>s. lsm_transact E (sets i [(''foo'', ''bar'')]) (setup_db dir 1000 f) = (Ok (), s) \<and>
     durable E s [BeginTx (sets i [(''foo'', ''bar'')])] \<and> lsm_view E s = [bs ''foo'' \<mapsto> bs ''bar''] \<and>
     memtable s = [(bs ''foo'', Data (bs ''bar''))] \<and> tx_ids s = [i] \<and> bloom_map s = [] \<and> log_bytes (lsm_log s) (lsm_fs s) = b \<and>
     lsm_paths s = [] \<and> flush_path s = table_path dir (as_millis (clock f)) \<and> filters_old s \<and>
     data_dir s = dir \<and> log_path (lsm_log s) = dir @ [bs ''commit_log'']"
proof -
  let ?tx = "sets i [(''foo'', ''bar'')]" and ?s = "setup_db dir 1000 f :: 'b lsm_store"
  note d = setup_db_durable [OF env fresh, of 1000]
  have l0: "log_bytes (lsm_log ?s) (lsm_fs ?s) = []"
    using durableD(4) [OF d(1)] by (simp add: log_holds_def)
  obtain cl g where s: "lsm_transact E ?tx ?s = (Ok (), ?s\<lparr>lsm_log := cl, lsm_fs := g, tx_ids := [i],
        memtable := fold memtable_instruction (operations ?tx) []\<rparr>)" (is "_ = (_, ?s1)")
      "cl = (lsm_log ?s)\<lparr>logfile := True\<rparr>" "log_bytes cl g = b" "clock g = clock f"
      "\<forall>q. q \<noteq> dir @ [bs ''commit_log''] \<longrightarrow> bt_get (files g) q = bt_get (files f) q" "same_tables dir f g"
    using lsm_transact_ok [OF durableD(1) [OF d(1)] b] l0 by auto
  have "durable E ?s1 ([] @ [BeginTx ?tx])"
    using transact_durable [OF d(1) b _ s(1)] s(3) rd by simp
  moreover have "lsm_view E ?s1 = [bs ''foo'' \<mapsto> bs ''bar'']"
    using lsm_kv.transact_view [of E ?s ?tx "Ok ()" ?s1] d sets_plain [of E i "[(''foo'', ''bar'')]"] b s(1)
      apply_sets [of i "[(''foo'', ''bar'')]" Map.empty]
    by (auto simp: lsm_plain_def durable_def unmasked_def loggable_def lsm_view_def)
  moreover have "lsm_paths ?s1 = []" "flush_path ?s1 = table_path dir (as_millis (clock f))"
    using same_tablesD(1) [OF s(6)] d(3) s(4) by (simp_all add: lsm_paths_def flush_path_eq)
  moreover have "filters_old ?s1"
    using s(5) fresh not_sst_commit_log(2) by (auto simp: filters_old_def fresh_dir_def)
  moreover have "memtable ?s1 = [(bs ''foo'', Data (bs ''bar''))]"
    by (simp add: sets_def with_random_id_def operation_set_def)
  ultimately show ?thesis
    using s(1-3) by (intro exI [of _ ?s1]) (simp add: setup_db_def lsm_new_def commit_log_new_def)
qed

theorem lsm_test_crash_recovery_passes:
  fixes E :: "('b, 'z) lsm_env_scheme"
  assumes "lsm_env_ok E" and "fresh_dir dir f" and "encode (line_codec E) (BeginTx (sets i [(''foo'', ''bar'')])) = Ok b"
    and "log_readable (log_reads E) b"
  shows "lsm_test_crash_recovery E dir i f = Ok ()"
proof -
  let ?tx = "sets i [(''foo'', ''bar'')]"
  obtain s1 where s1: "lsm_transact E ?tx (setup_db dir 1000 f) = (Ok (), s1)" "durable E s1 [BeginTx ?tx]"
      "lsm_view E s1 = [bs ''foo'' \<mapsto> bs ''bar'']" "data_dir s1 = dir" "log_path (lsm_log s1) = dir @ [bs ''commit_log'']"
    using set_foo [OF assms] by blast
  obtain s2 where s2: "lsm_initialize E (restart s1 1000) = (Ok (), s2)" "durable E s2 [BeginTx ?tx]" "lsm_map E s2 = lsm_map E s1"
    using restart_durable [OF s1(2), of 1000] by blast
  have "memtable s2 = [(bs ''foo'', Data (bs ''bar''))]"
    using durableD(7) [OF s2(2)] by (simp add: replay_def sets_def with_random_id_def operation_set_def)
  then have "unmasked E s2"
    by (simp add: unmasked_def)
  moreover have "lsm_live E s2"
    using s2(2) by (simp add: durable_def)
  ultimately have "check_get E ''foo'' ''bar'' s2 = (Ok (), s2)"
    using s1(3) s2(3) by (intro check_get_passes) (simp_all add: lsm_view_def lsm_plain_def)
  with s1(1) s2(1) setup_db_restart [OF s1(4,5), of 1000] show ?thesis
    by (simp add: lsm_test_crash_recovery_def)
qed

theorem lsm_test_shutdown_recovery_passes:
  fixes E :: "('b, 'z) lsm_env_scheme"
  assumes "lsm_env_ok E" and "fresh_dir dir f"
    and "encode_all (line_codec E) [BeginTx (sets i [(''foo'', ''bar'')]), EndTx i] = Ok b" and "log_readable (log_reads E) b"
    and "readable E [(bs ''foo'', Data (bs ''bar''))]" and "sst_image E [(bs ''foo'', Data (bs ''bar''))] = Ok c"
    and "ser (bloom_codec E) [(table_path dir (as_millis (clock f)), bloom_insert E (bs ''foo'') (bloom_new E))] = Some buf"
  shows "lsm_test_shutdown_recovery E dir i f = Ok ()"
proof -
  let ?tx = "sets i [(''foo'', ''bar'')]" and ?p = "table_path dir (as_millis (clock f))"
  obtain b1 b2 where b: "encode (line_codec E) (BeginTx ?tx) = Ok b1" "encode (line_codec E) (EndTx i) = Ok b2" "b = b1 @ b2"
    using assms(3) by (auto simp: rbind_eq_Ok_iff)
  have "codec_ok (line_codec E)"
    using assms(1) by (simp add: lsm_env_ok_def)
  then have "log_readable (log_reads E) b1"
    using log_readable_prefix [of "line_codec E" "[BeginTx ?tx]" b1 "log_reads E" b2] b assms(4) by simp
  from set_foo [OF assms(1,2) b(1) this] obtain s1 where s1:
      "lsm_transact E ?tx (setup_db dir 1000 f) = (Ok (), s1)" "durable E s1 [BeginTx ?tx]" "lsm_view E s1 = [bs ''foo'' \<mapsto> bs ''bar'']"
      "memtable s1 = [(bs ''foo'', Data (bs ''bar''))]" "tx_ids s1 = [i]" "bloom_map s1 = []" "log_bytes (lsm_log s1) (lsm_fs s1) = b1"
      "lsm_paths s1 = []" "flush_path s1 = ?p" "filters_old s1" "data_dir s1 = dir" "log_path (lsm_log s1) = dir @ [bs ''commit_log'']"
    by blast
  have "lsm_live E s1"
    using s1(2) by (simp add: durable_def)
  from shutdown_succeeds [OF this, of c buf] s1 assms(5-7) b obtain s2 where s2: "lsm_shutdown E s1 = (Ok (), s2)"
      "log_bytes (lsm_log s2) (lsm_fs s2) = b" "lsm_paths s2 = [?p]" "data_dir s2 = dir" "log_path (lsm_log s2) = dir @ [bs ''commit_log'']"
    by auto
  obtain ls where ls: "durable E s2 ls" "lsm_map E s2 = lsm_map E s1" "replay (open_txs ls) = []"
    using shutdown_durable [OF s1(2) _ s1(10) s2(1)] s1(4) s2(2) assms(4,5) by auto
  obtain s3 where s3: "lsm_initialize E (restart s2 1000) = (Ok (), s3)" "durable E s3 ls" "lsm_paths s3 = [?p]"
      "lsm_map E s3 = disk_map E s2 ++ map_of (replay (open_txs ls))"
    using initialize_ok [OF durableD(3,4,5,2) [OF ls(1)], of 1000] s2(3) by auto
  have "memtable s3 = []" "memtable s2 = []"
    using durableD(7) [OF s3(2)] durableD(7) [OF ls(1)] ls(3) by simp_all
  then have "lsm_plain E s3" "lsm_view E s3 = lsm_view E s1"
    using s3(2,4) ls(2,3) by (simp_all add: lsm_plain_def unmasked_def durable_def lsm_view_def lsm_map_def)
  then have "check_get E ''foo'' ''bar'' s3 = (Ok (), s3)"
    using s1(3) by (intro check_get_passes) simp_all
  moreover have "reconstruct_bloom_map_from_sstables E s3 = (Ok [(?p, filter_of E (lsm_fs s3) ?p)], s3)"
    using reconstruct_ok [OF durableD(3) [OF s3(2)]] s3(3) by simp
  ultimately show ?thesis
    using s1(1) s2(1) s3(1) setup_db_restart [OF s2(4,5), of 1000] by (simp add: lsm_test_shutdown_recovery_def)
qed

text \<open>The contents of the store in the test of scans, in the order of the keys.\<close>

definition scan_data1 :: "(string \<times> string) list" where
  "scan_data1 = [(''a'', ''first''), (''b'', ''second''), (''c'', ''third''), (''d'', ''fourth''), (''e'', ''fifth'')]"

definition scan_data2 :: "(string \<times> string) list" where
  "scan_data2 = [(''0'', ''zeroth''), (''f'', ''sixth'')]"

abbreviation as_entries :: "(string \<times> string) list \<Rightarrow> (rstring \<times> bytes) list" where
  "as_entries kvs \<equiv> map (\<lambda>(k, v). (bs k, bs v)) kvs"

definition scan_all :: "(rstring \<times> bytes) list" where
  "scan_all = as_entries ((''0'', ''zeroth'') # scan_data1 @ [(''f'', ''sixth'')])"

lemma scan_views:
  "Map.empty ++ map_of (rev (as_entries scan_data1)) = map_of (as_entries scan_data1)"
  "map_of (as_entries scan_data1) ++ map_of (rev (as_entries scan_data2)) = map_of scan_all"
proof -
  have d: "distinct (map fst (rev (as_entries scan_data1)))" "distinct (map fst (as_entries scan_data1))"
      "distinct (map fst (rev (as_entries scan_data2) @ as_entries scan_data1))" "distinct (map fst scan_all)"
    by code_simp+
  show "Map.empty ++ map_of (rev (as_entries scan_data1)) = map_of (as_entries scan_data1)"
    using map_of_inject_set [OF d(1,2)] by simp
  have "set (rev (as_entries scan_data2) @ as_entries scan_data1) = set scan_all"
    by (auto simp: scan_all_def scan_data2_def)
  then show "map_of (as_entries scan_data1) ++ map_of (rev (as_entries scan_data2)) = map_of scan_all"
    using map_of_inject_set [OF d(3,4)] unfolding map_of_append by simp
qed

lemma scan_checks:
  assumes "lsm_plain E s"
  shows "lsm_view E s = map_of (as_entries scan_data1) \<Longrightarrow>
      check_scan E ''b'' ''dd'' [''second'', ''third'', ''fourth''] s = (Ok (), s) \<and>
      check_scan E ''ee'' ''f'' [] s = (Ok (), s) \<and> check_scan E ''cc'' ''z'' [''fourth'', ''fifth''] s = (Ok (), s)"
    and "lsm_view E s = map_of scan_all \<Longrightarrow>
      check_scan E ''0'' ''z'' [''zeroth'', ''first'', ''second'', ''third'', ''fourth'', ''fifth'', ''sixth''] s = (Ok (), s)"
proof -
  have c: "bt_wf (as_entries scan_data1)" "bs ''b'' \<le> bs ''dd''" "bs ''ee'' \<le> bs ''f''" "bs ''cc'' \<le> bs ''z''"
      "map snd (filter (\<lambda>e. in_range (bs ''b'') (bs ''dd'') (fst e)) (as_entries scan_data1)) = map bs [''second'', ''third'', ''fourth'']"
      "map snd (filter (\<lambda>e. in_range (bs ''ee'') (bs ''f'') (fst e)) (as_entries scan_data1)) = map bs []"
      "map snd (filter (\<lambda>e. in_range (bs ''cc'') (bs ''z'') (fst e)) (as_entries scan_data1)) = map bs [''fourth'', ''fifth'']"
    by code_simp+
  show "check_scan E ''b'' ''dd'' [''second'', ''third'', ''fourth''] s = (Ok (), s) \<and>
      check_scan E ''ee'' ''f'' [] s = (Ok (), s) \<and> check_scan E ''cc'' ''z'' [''fourth'', ''fifth''] s = (Ok (), s)"
    if "lsm_view E s = map_of (as_entries scan_data1)"
    using check_scan_passes [OF assms that c(1,2,5)] check_scan_passes [OF assms that c(1,3,6)]
      check_scan_passes [OF assms that c(1,4,7)] by blast
  have d: "bt_wf scan_all" "bs ''0'' \<le> bs ''z''"
      "map snd (filter (\<lambda>e. in_range (bs ''0'') (bs ''z'') (fst e)) scan_all) =
       map bs [''zeroth'', ''first'', ''second'', ''third'', ''fourth'', ''fifth'', ''sixth'']"
    by code_simp+
  show "check_scan E ''0'' ''z'' [''zeroth'', ''first'', ''second'', ''third'', ''fourth'', ''fifth'', ''sixth''] s = (Ok (), s)"
    if "lsm_view E s = map_of scan_all"
    by (rule check_scan_passes [OF assms that d])
qed

text \<open>
  C23: the crate's own test of scans passes on the model, for every lawful environment that can
  serialize the data of the test, every empty directory, all identifiers, and all times of the
  two flushes that differ by a millisecond or more: the scans return the values of the key range
  in the order of the keys, from the memtable, from one table, from both, and from two tables.
\<close>

theorem lsm_test_scan_passes:
  assumes "lsm_env_ok E" and "fresh_dir dir f" and "loggable E (sets i scan_data1)" and "loggable E (sets j scan_data2)"
    and "readable E (fold memtable_instruction (operations (sets i scan_data1)) [])"
    and "sst_image E (fold memtable_instruction (operations (sets i scan_data1)) []) = Ok c1"
    and "readable E (fold memtable_instruction (operations (sets j scan_data2)) [])"
    and "sst_image E (fold memtable_instruction (operations (sets j scan_data2)) []) = Ok c2"
    and "clock f \<le> t1" and "milli_ok (as_millis t1)" and "as_millis t1 < as_millis t2" and "milli_ok (as_millis t2)"
  shows "lsm_test_scan E dir i j t1 t2 f = Ok ()"
proof -
  let ?m1 = "fold memtable_instruction (operations (sets i scan_data1)) []"
  let ?m2 = "fold memtable_instruction (operations (sets j scan_data2)) []"
  have v: "apply_ops (operations (sets i scan_data1)) Map.empty = map_of (as_entries scan_data1)"
      "apply_ops (operations (sets j scan_data2)) (map_of (as_entries scan_data1)) = map_of scan_all"
    by (simp_all only: apply_sets scan_views)
  obtain s0 where s0: "lsm_initialize E (setup_db dir 1 f) = (Ok (), s0)" "watching E dir (lsm_events s0)"
      "lsm_view E (lsm_events s0) = Map.empty" "lsm_paths (lsm_events s0) = []" "memtable (lsm_events s0) = []"
      "clock (lsm_fs (lsm_events s0)) = clock f"
    using start_watching [OF assms(1,2)] by blast
  obtain s1 where s1: "lsm_transact E (sets i scan_data1) (lsm_events s0) = (Ok (), s1)" "watching E dir s1"
      "lsm_view E s1 = map_of (as_entries scan_data1)" "lsm_paths s1 = []" "memtable s1 = ?m1" "clock (lsm_fs s1) = clock f"
    using transact_watching [OF s0(2) sets_plain [OF assms(3)]] s0(3-6) v(1) by auto
  have ne: "?m1 \<noteq> []" "?m2 \<noteq> []"
    by (rule memtable_not_Nil, simp add: sets_def with_random_id_def scan_data1_def scan_data2_def)+
  obtain s2 p where s2: "recv_event E t1 s1 = (Ok p, s2)" "watching E dir s2" "lsm_view E s2 = lsm_view E s1"
      "lsm_paths s2 = [table_path dir (as_millis t1)]" "memtable s2 = []" "clock (lsm_fs s2) = t1"
    using recv_watching [OF s1(2), of c1 t1] s1(4-6) ne(1) assms(5,6,9,10) by auto
  obtain s3 where s3: "lsm_transact E (sets j scan_data2) s2 = (Ok (), s3)" "watching E dir s3" "lsm_view E s3 = map_of scan_all"
      "lsm_paths s3 = [table_path dir (as_millis t1)]" "memtable s3 = ?m2" "clock (lsm_fs s3) = t1"
    using transact_watching [OF s2(2) sets_plain [OF assms(4)]] s2(3-6) s1(3) v(2) by auto
  have "t1 \<le> t2"
    using assms(11) by (metis as_millis_def div_le_mono linorder_not_less nat_le_linear)
  moreover have "table_path dir (as_millis t2) \<notin> set (lsm_paths s3)"
    using table_path_less [OF assms(11,10,12), of dir] s3(4) by auto
  ultimately obtain s4 q where s4: "recv_event E t2 s3 = (Ok q, s4)" "watching E dir s4" "lsm_view E s4 = lsm_view E s3"
    using recv_watching [OF s3(2), of c2 t2] s3(5,6) ne(2) assms(7,8,12) by auto
  have p: "lsm_plain E s1" "lsm_plain E s2" "lsm_plain E s3" "lsm_plain E s4"
    using s1(2) s2(2) s3(2) s4(2) by (simp_all add: watching_def)
  note k = scan_checks(1) [OF p(1) s1(3)] scan_checks(1) [OF p(2)] scan_checks(2) [OF p(3) s3(3)] scan_checks(2) [OF p(4)]
  show ?thesis
    unfolding lsm_test_scan_def scan_data1_def [symmetric] scan_data2_def [symmetric]
    using s0(1) s1(1,3) s2(1,3) s3(1,3) s4(1,3) k by simp
qed

lemma ex_scan_tables:
  "fold memtable_instruction (operations (sets i scan_data1)) [] = map (\<lambda>(k, v). (bs k, Data (bs v))) scan_data1"
  "fold memtable_instruction (operations (sets j scan_data2)) [] = map (\<lambda>(k, v). (bs k, Data (bs v))) scan_data2"
proof -
  have "fold memtable_instruction (map (\<lambda>(k, v). operation_set (bs k) (bs v)) scan_data1) [] =
      map (\<lambda>(k, v). (bs k, Data (bs v))) scan_data1"
    "fold memtable_instruction (map (\<lambda>(k, v). operation_set (bs k) (bs v)) scan_data2) [] =
      map (\<lambda>(k, v). (bs k, Data (bs v))) scan_data2"
    by code_simp+
  then show
    "fold memtable_instruction (operations (sets i scan_data1)) [] = map (\<lambda>(k, v). (bs k, Data (bs v))) scan_data1"
    "fold memtable_instruction (operations (sets j scan_data2)) [] = map (\<lambda>(k, v). (bs k, Data (bs v))) scan_data2"
    by (simp_all add: sets_def with_random_id_def)
qed

lemma ex_scan_images:
  "\<exists>c. sst_image ex_lsm (map (\<lambda>(k, v). (bs k, Data (bs v))) scan_data1) = Ok c"
  "\<exists>c. sst_image ex_lsm (map (\<lambda>(k, v). (bs k, Data (bs v))) scan_data2) = Ok c"
proof -
  have k: "bs ''b'' \<noteq> bs ''a''" "\<not> bs ''b'' < bs ''a''" "bs ''c'' \<noteq> bs ''a''" "\<not> bs ''c'' < bs ''a''"
      "bs ''c'' \<noteq> bs ''b''" "\<not> bs ''c'' < bs ''b''" "bs ''d'' \<noteq> bs ''a''" "\<not> bs ''d'' < bs ''a''"
      "bs ''d'' \<noteq> bs ''b''" "\<not> bs ''d'' < bs ''b''" "bs ''d'' \<noteq> bs ''c''" "\<not> bs ''d'' < bs ''c''"
      "bs ''e'' \<noteq> bs ''a''" "\<not> bs ''e'' < bs ''a''" "bs ''e'' \<noteq> bs ''b''" "\<not> bs ''e'' < bs ''b''"
      "bs ''e'' \<noteq> bs ''c''" "\<not> bs ''e'' < bs ''c''" "bs ''e'' \<noteq> bs ''d''" "\<not> bs ''e'' < bs ''d''"
      "bs ''f'' \<noteq> bs ''0''" "\<not> bs ''f'' < bs ''0''"
    by code_simp+
  show "\<exists>c. sst_image ex_lsm (map (\<lambda>(k, v). (bs k, Data (bs v))) scan_data1) = Ok c"
    by (simp add: sst_image_def ex_lsm_def scan_data1_def value_bincode_def index_bincode_def codec_of_def
        checked_add_def length_enc_index k)
  show "\<exists>c. sst_image ex_lsm (map (\<lambda>(k, v). (bs k, Data (bs v))) scan_data2) = Ok c"
    by (simp add: sst_image_def ex_lsm_def scan_data2_def value_bincode_def index_bincode_def codec_of_def
        checked_add_def length_enc_index k)
qed

theorem lsm_test_scan_passes_witness:
  "lsm_test_scan ex_lsm [bs ''data''] 1 2 1720000001000000000 1720000002000000000 empty_disk = Ok ()"
proof -
  have "length (enc_line (BeginTx (sets 1 scan_data1))) = 168" "length (enc_line (BeginTx (sets 2 scan_data2))) = 89"
    by (simp_all add: enc_tx_def enc_uuid_def enc_list_def sets_def with_random_id_def operation_set_def
        scan_data1_def scan_data2_def)
  then have l: "loggable ex_lsm (sets 1 scan_data1)" "loggable ex_lsm (sets 2 scan_data2)"
    using encode_line_bincode [of "BeginTx (sets 1 scan_data1)"] encode_line_bincode [of "BeginTx (sets 2 scan_data2)"]
    by (auto simp: loggable_def encode_ex_lsm simp del: enc_line.simps)
  have f: "fresh_dir [bs ''data''] empty_disk"
    by (simp add: fresh_dir_def empty_disk_def milli_ok_def as_millis_def)
  obtain c1 c2 where c: "sst_image ex_lsm (fold memtable_instruction (operations (sets 1 scan_data1)) []) = Ok c1"
      "sst_image ex_lsm (fold memtable_instruction (operations (sets 2 scan_data2)) []) = Ok c2"
    using ex_scan_images unfolding ex_scan_tables by blast
  show ?thesis
    by (rule lsm_test_scan_passes [OF ex_lsm_ok f l readable_ex_lsm c(1) readable_ex_lsm c(2)])
      (simp_all add: empty_disk_def milli_ok_def as_millis_def)
qed

end
